(* ===== verification/Cedar_Prelude.thy ===== *)
theory Cedar_Prelude
  imports Main "HOL-Library.Word" "HOL-Library.Multiset"
begin

text \<open>
  Shared vocabulary of the go-cedar development: the Go values that several components use
  (channels that are only ever closed, a \<^verbatim>\<open>sync.Once\<close>, bytes, signed machine integers), the
  bounded window of a list, counting in lists that are updated by index, and the interface
  of a transition system with an invariant, which every concurrent component interprets.
\<close>

section \<open>Collections of facts\<close>

named_theorems go_ops \<open>definitions of the modelled operations, unfolded by symbolic execution\<close>
named_theorems go_inv \<open>definitions of the invariants\<close>

section \<open>Go values\<close>

type_synonym byte = "8 word"
type_synonym bytes = "byte list"
type_synonym uint64 = "64 word"
type_synonym int64 = "64 word"

text \<open>
  Go's \<^verbatim>\<open>int64\<close> (and \<^verbatim>\<open>int\<close>) where it can wrap is an \<open>int64\<close>: \<open>+\<close> and \<open>*\<close> wrap, \<open>sint\<close> is its value and
  \<open><s\<close>, \<open>\<le>s\<close> are its comparisons.
\<close>

text \<open>
  A \<^verbatim>\<open>chan struct{}\<close> that carries no value and is only closed: \<^verbatim>\<open>nil\<close> (receiving blocks for
  ever, closing panics), open (receiving blocks), closed (receiving returns at once, closing
  panics).
\<close>

datatype chan = ChNil | ChOpen | ChClosed

definition chan_ready :: "chan \<Rightarrow> bool" where
  "chan_ready c \<longleftrightarrow> c = ChClosed"

fun chan_close :: "chan \<Rightarrow> chan option" where
  "chan_close ChOpen = Some ChClosed"
| "chan_close ChNil = None"
| "chan_close ChClosed = None"

lemma chan_close_Some [simp]: "chan_close c = Some d \<longleftrightarrow> c = ChOpen \<and> d = ChClosed"
  by (cases c) auto

lemma chan_close_None [simp]: "chan_close c = None \<longleftrightarrow> c \<noteq> ChOpen"
  by (cases c) auto

lemma chan_ready_simps [simp]:
  "chan_ready ChClosed" "\<not> chan_ready ChOpen" "\<not> chan_ready ChNil"
  by (simp_all add: chan_ready_def)

text \<open>A \<^verbatim>\<open>sync.Once\<close>: not used yet, its function is running, its function has returned.\<close>

datatype once = OnceNew | OnceRunning | OnceDone

lemma option_eqI: "(\<And>x. a = Some x \<longleftrightarrow> b = Some x) \<Longrightarrow> a = b"
  by (cases a; cases b) auto

section \<open>The last elements of a list\<close>

text \<open>\<open>window n xs\<close> is what a buffer of \<open>n\<close> places keeps of \<open>xs\<close>; \<open>0\<close> means no bound.\<close>

definition window :: "nat \<Rightarrow> 'a list \<Rightarrow> 'a list" where
  "window n xs = (if n = 0 then xs else drop (length xs - n) xs)"

lemma window_0 [simp]: "window 0 xs = xs"
  by (simp add: window_def)

lemma window_Nil [simp]: "window n [] = []"
  by (simp add: window_def)

lemma window_short: "length xs \<le> n \<Longrightarrow> window n xs = xs"
  by (simp add: window_def)

lemma length_window_le: "0 < n \<Longrightarrow> length (window n xs) \<le> n"
  by (simp add: window_def)

lemma set_window: "set (window n xs) \<subseteq> set xs"
  by (auto simp: window_def dest: in_set_dropD)

lemma window_snoc_window: "window n (window n xs @ [x]) = window n (xs @ [x])"
proof (cases "length xs < n")
  case True
  then show ?thesis by (simp add: window_short)
next
  case False
  then show ?thesis by (auto simp: window_def Suc_diff_le)
qed

lemma window_append_window: "window n (window n xs @ ys) = window n (xs @ ys)"
proof (induction ys rule: rev_induct)
  case Nil
  show ?case by (cases "n = 0") (auto simp: window_def)
next
  case (snoc y ys)
  have "window n (window n xs @ ys @ [y]) = window n (window n (window n xs @ ys) @ [y])"
    by (simp add: window_snoc_window)
  also have "\<dots> = window n (xs @ ys @ [y])"
    by (simp add: snoc.IH window_snoc_window)
  finally show ?case .
qed

section \<open>Multisets of a list of lists updated by index\<close>

lemma mset_concat_update:
  assumes "i < length xss"
  shows "mset (concat (xss[i := ys])) + mset (xss ! i) = mset (concat xss) + mset ys"
  using assms
proof (induction xss arbitrary: i)
  case (Cons zs xss)
  then show ?case
    by (cases i) (auto simp: ac_simps)
qed simp

lemma mset_concat_nth_le:
  assumes "i < length xss"
  shows "mset (xss ! i) \<subseteq># mset (concat xss)"
  using assms
proof (induction xss arbitrary: i)
  case (Cons zs xss)
  then show ?case
    by (cases i) (auto intro: subset_mset.add_increasing)
qed simp

section \<open>Transition systems with an invariant\<close>

inductive reachable :: "('s \<Rightarrow> bool) \<Rightarrow> ('s \<Rightarrow> 's \<Rightarrow> bool) \<Rightarrow> 's \<Rightarrow> bool"
  for init :: "'s \<Rightarrow> bool" and step :: "'s \<Rightarrow> 's \<Rightarrow> bool"
where
  reachable_init: "init s \<Longrightarrow> reachable init step s"
| reachable_step: "reachable init step s \<Longrightarrow> step s t \<Longrightarrow> reachable init step t"

lemma reachable_weaken:
  "reachable init step s \<Longrightarrow> (\<And>s. init s \<Longrightarrow> init' s) \<Longrightarrow> reachable init' step s"
  by (induction rule: reachable.induct) (auto intro: reachable.intros)

lemma reachable_steps: "step\<^sup>*\<^sup>* s t \<Longrightarrow> reachable init step s \<Longrightarrow> reachable init step t"
  by (induction rule: rtranclp_induct) (auto intro: reachable_step)

text \<open>Steps that make a number smaller lead to a state without a step.\<close>

lemma runs_rest:
  fixes f :: "'s \<Rightarrow> nat"
  assumes "\<And>s t. step s t \<Longrightarrow> f t < f s"
  shows "\<exists>t. step\<^sup>*\<^sup>* s t \<and> (\<nexists>u. step t u)"
proof (induction "f s" arbitrary: s rule: less_induct)
  case less
  show ?case
  proof (cases "\<exists>u. step s u")
    case True
    then obtain u where u: "step s u" by blast
    from less [OF assms [OF u]] u show ?thesis by (blast intro: converse_rtranclp_into_rtranclp)
  qed blast
qed

locale invariant_system =
  fixes init :: "'s \<Rightarrow> bool"
    and step :: "'s \<Rightarrow> 's \<Rightarrow> bool"
    and inv :: "'s \<Rightarrow> bool"
  assumes init_inv: "init s \<Longrightarrow> inv s"
    and step_inv: "inv s \<Longrightarrow> step s t \<Longrightarrow> inv t"
begin

lemma reachable_inv: "reachable init step s \<Longrightarrow> inv s"
  by (induction rule: reachable.induct) (auto intro: init_inv step_inv)

lemma steps_inv: "step\<^sup>*\<^sup>* s t \<Longrightarrow> inv s \<Longrightarrow> inv t"
  by (induction rule: rtranclp_induct) (auto intro: step_inv)

end

end
