(* ===== verification/Cedar_Mailbox.thy ===== *)
theory Cedar_Mailbox
  imports Cedar_Prelude
begin

text \<open>
  The mailbox of \<^verbatim>\<open>utils/mailbox.go\<close>: a bounded queue that drops its oldest element, with a
  one-place notification channel. Every method holds the mutex for its whole body, so each
  is one atomic operation on the state. The abstract view is the list of pending elements,
  oldest first; \<open>fifo_mailbox\<close> is the interface its clients (the pool, the periodic task)
  rely on.
\<close>

section \<open>State and operations\<close>

text \<open>
  \<open>mb_notify\<close> is the content of \<^verbatim>\<open>chNotify\<close>, a channel with one place; \<open>mb_queue\<close> has the newest
  element first, as \<^verbatim>\<open>m.queue\<close> has. Lengths are Go's \<^verbatim>\<open>int\<close>, never negative and below \<^verbatim>\<open>2^63\<close>, so
  \<^verbatim>\<open>uint64(len(m.queue))\<close> loses nothing. The capacity that \<^verbatim>\<open>make\<close> reserves is an allocation
  hint and is not part of the state; for a capacity so large that it cannot be allocated \<^verbatim>\<open>make\<close> panics, so that there is
  no mailbox, and the model is about the other ones.
\<close>

record 'a mailbox =
  mb_notify :: bool
  mb_queue :: "'a list"
  mb_capacity :: uint64

definition NewMailbox :: "uint64 \<Rightarrow> 'a mailbox" where
  "NewMailbox cap = \<lparr>mb_notify = False, mb_queue = [], mb_capacity = cap\<rparr>"

text \<open>A receive from \<^verbatim>\<open>m.Notify()\<close>: it blocks (\<open>None\<close>) while no notification is pending.\<close>

definition Notify :: "'a mailbox \<Rightarrow> 'a mailbox option" where
  "Notify m = (if mb_notify m then Some (m\<lparr>mb_notify := False\<rparr>) else None)"

definition Deliver :: "'a \<Rightarrow> 'a mailbox \<Rightarrow> 'a mailbox" where
  "Deliver x m =
     (let q = x # mb_queue m;
          q' = (if unat (mb_capacity m) < length q \<and> 0 < mb_capacity m
                then take (length q - 1) q else q)
      in if mb_notify m then m\<lparr>mb_queue := q'\<rparr>
         else m\<lparr>mb_queue := q', mb_notify := True\<rparr>)"

text \<open>\<^verbatim>\<open>Retrieve\<close> returns \<^verbatim>\<open>nil\<close> on an empty queue, so its elements are \<^verbatim>\<open>interface{}\<close> values: \<open>None\<close> is \<^verbatim>\<open>nil\<close>.\<close>

definition Retrieve :: "'a option mailbox \<Rightarrow> 'a option \<times> 'a option mailbox" where
  "Retrieve m =
     (let q = mb_queue m
      in if length q = 0 then (None, m)
         else (q ! (length q - 1), m\<lparr>mb_queue := take (length q - 1) q\<rparr>))"

text \<open>The loop of \<^verbatim>\<open>RetrieveAll\<close> that reverses the slice in place, with its two indices.\<close>

function swap_loop :: "nat \<Rightarrow> nat \<Rightarrow> 'a list \<Rightarrow> 'a list" where
  "swap_loop i j q = (if i < j then swap_loop (i + 1) (j - 1) (q[i := q ! j, j := q ! i]) else q)"
  by pat_completeness auto
termination
  by (relation "measure (\<lambda>(i, j, q). j - i)") auto

declare swap_loop.simps [simp del]

definition RetrieveAll :: "'a mailbox \<Rightarrow> 'a list \<times> 'a mailbox" where
  "RetrieveAll m = (let q = mb_queue m in (swap_loop 0 (length q - 1) q, m\<lparr>mb_queue := []\<rparr>))"

definition Clear :: "'a mailbox \<Rightarrow> 'a mailbox" where
  "Clear m = m\<lparr>mb_queue := []\<rparr>"

lemmas mailbox_ops [go_ops] =
  NewMailbox_def Notify_def Deliver_def Retrieve_def RetrieveAll_def Clear_def

section \<open>The reversal loop\<close>

lemma length_swap_loop [simp]: "length (swap_loop i j q) = length q"
  by (induction i j q rule: swap_loop.induct) (subst swap_loop.simps, simp)

lemma swap_loop_nth:
  "i + j < length q + 1 \<Longrightarrow> j < length q \<or> q = [] \<Longrightarrow> k < length q \<Longrightarrow>
    swap_loop i j q ! k = (if i \<le> k \<and> k \<le> j then q ! (i + j - k) else q ! k)"
proof (induction i j q rule: swap_loop.induct)
  case (1 i j q)
  show ?case
  proof (cases "i < j")
    case True
    let ?q = "q[i := q ! j, j := q ! i]"
    have "swap_loop i j q ! k = swap_loop (i + 1) (j - 1) ?q ! k"
      using True by (subst swap_loop.simps) simp
    also have "\<dots> = (if i + 1 \<le> k \<and> k \<le> j - 1 then ?q ! (i + 1 + (j - 1) - k) else ?q ! k)"
      using 1 True by (intro "1.IH") auto
    also have "\<dots> = (if i \<le> k \<and> k \<le> j then q ! (i + j - k) else q ! k)"
      using True "1.prems" by (auto simp: nth_list_update)
    finally show ?thesis .
  next
    case False
    then show ?thesis
      by (subst swap_loop.simps) (auto dest: le_antisym simp: not_less)
  qed
qed

lemma swap_loop_rev: "swap_loop 0 (length q - 1) q = rev q"
proof (rule nth_equalityI)
  fix k assume "k < length (swap_loop 0 (length q - 1) q)"
  then show "swap_loop 0 (length q - 1) q ! k = rev q ! k"
    by (subst swap_loop_nth) (auto simp: rev_nth)
qed simp

section \<open>The abstract view\<close>

definition contents :: "'a mailbox \<Rightarrow> 'a list" where
  "contents m = rev (mb_queue m)"

definition mb_limit :: "'a mailbox \<Rightarrow> nat" where
  "mb_limit m = unat (mb_capacity m)"

definition mb_ok :: "'a mailbox \<Rightarrow> bool" where
  "mb_ok m \<longleftrightarrow> mb_limit m = 0 \<or> length (mb_queue m) \<le> mb_limit m"

lemma mb_limit_simps [simp]:
  "mb_limit (NewMailbox cap) = unat cap"
  "mb_limit (Deliver x m) = mb_limit m"
  "mb_limit (snd (RetrieveAll m)) = mb_limit m"
  "mb_limit (Clear m) = mb_limit m"
  by (simp_all add: mb_limit_def mailbox_ops Let_def)

lemma mb_ok_simps [simp]:
  "mb_ok (NewMailbox cap)" "mb_ok (snd (RetrieveAll m))" "mb_ok (Clear m)"
  by (simp_all add: mb_ok_def mailbox_ops Let_def)

lemma mb_ok_Deliver [simp]: "mb_ok m \<Longrightarrow> mb_ok (Deliver x m)"
  by (auto simp: mb_ok_def mb_limit_def Deliver_def Let_def word_gt_0 unat_gt_0)

lemma contents_simps [simp]:
  "contents (NewMailbox cap) = []"
  "contents (snd (RetrieveAll m)) = []"
  "contents (Clear m) = []"
  by (simp_all add: contents_def mailbox_ops Let_def)

lemma contents_Deliver:
  "mb_ok m \<Longrightarrow> contents (Deliver x m) = window (mb_limit m) (contents m @ [x])"
proof -
  assume "mb_ok m"
  then show ?thesis
    by (auto simp: contents_def mb_ok_def mb_limit_def Deliver_def Let_def window_def
        word_gt_0 unat_eq_zero less_Suc_eq_le rev_take)
qed

lemma RetrieveAll_contents [simp]: "fst (RetrieveAll m) = contents m"
  by (simp add: RetrieveAll_def Let_def swap_loop_rev contents_def del: One_nat_def)

lemma notify_simps [simp]:
  "mb_notify (Deliver x m)"
  "\<not> mb_notify (NewMailbox cap)"
  "mb_notify (snd (RetrieveAll m)) = mb_notify m"
  "mb_notify (Clear m) = mb_notify m"
  by (simp_all add: mailbox_ops Let_def)

section \<open>The interface of a mailbox\<close>

locale fifo_mailbox =
  fixes deliver :: "'a \<Rightarrow> 'm \<Rightarrow> 'm"
    and drain :: "'m \<Rightarrow> 'a list \<times> 'm"
    and pending :: "'m \<Rightarrow> 'a list"
    and limit :: "'m \<Rightarrow> nat"
    and ok :: "'m \<Rightarrow> bool"
  assumes deliver_ok: "ok m \<Longrightarrow> ok (deliver x m)"
    and deliver_limit: "limit (deliver x m) = limit m"
    and deliver_pending: "ok m \<Longrightarrow> pending (deliver x m) = window (limit m) (pending m @ [x])"
    and ok_bound: "ok m \<Longrightarrow> 0 < limit m \<Longrightarrow> length (pending m) \<le> limit m"
    and drain_result: "fst (drain m) = pending m"
    and drain_pending: "pending (snd (drain m)) = []"
begin

lemma deliver_all:
  "ok m \<Longrightarrow> ok (fold deliver xs m) \<and> limit (fold deliver xs m) = limit m
    \<and> pending (fold deliver xs m) = window (limit m) (pending m @ xs)"
proof (induction xs arbitrary: m)
  case Nil
  then show ?case
    using ok_bound [of m] by (cases "limit m = 0") (auto simp: window_short)
next
  case (Cons x xs)
  then show ?case
    by (simp add: deliver_ok deliver_limit deliver_pending window_append_window)
qed

lemma deliver_room:
  assumes "ok m" and "limit m = 0 \<or> length (pending m) < limit m"
  shows "pending (deliver x m) = pending m @ [x]"
  using assms by (auto simp: deliver_pending window_short)

lemma drain_all: "ok m \<Longrightarrow> fst (drain (fold deliver xs m)) = window (limit m) (pending m @ xs)"
  by (simp add: drain_result deliver_all)

end

interpretation mb: fifo_mailbox Deliver RetrieveAll contents mb_limit mb_ok
  by unfold_locales (auto simp: contents_Deliver, auto simp: mb_ok_def contents_def)

section \<open>Sequences of operations against a bounded FIFO\<close>

text \<open>
  One operation of a client, and what it returns. The specification keeps the pending
  elements oldest first and the notification flag; \<open>n\<close> bounds the number of elements, the
  oldest one giving way, and \<open>0\<close> means no bound.
\<close>

datatype 'a mb_op = OpDeliver "'a option" | OpRetrieve | OpRetrieveAll | OpClear | OpNotify

datatype 'a mb_out = OutDone | OutOne "'a option" | OutAll "'a option list" | OutSignal bool

fun mb_exec :: "'a mb_op \<Rightarrow> 'a option mailbox \<Rightarrow> 'a mb_out \<times> 'a option mailbox" where
  "mb_exec (OpDeliver x) m = (OutDone, Deliver x m)"
| "mb_exec OpRetrieve m = (let (x, m') = Retrieve m in (OutOne x, m'))"
| "mb_exec OpRetrieveAll m = (let (xs, m') = RetrieveAll m in (OutAll xs, m'))"
| "mb_exec OpClear m = (OutDone, Clear m)"
| "mb_exec OpNotify m = (case Notify m of None \<Rightarrow> (OutSignal False, m) | Some m' \<Rightarrow> (OutSignal True, m'))"

fun fifo_exec :: "nat \<Rightarrow> 'a mb_op \<Rightarrow> 'a option list \<times> bool \<Rightarrow> 'a mb_out \<times> ('a option list \<times> bool)" where
  "fifo_exec n (OpDeliver x) (xs, b) = (OutDone, (window n (xs @ [x]), True))"
| "fifo_exec n OpRetrieve ([], b) = (OutOne None, ([], b))"
| "fifo_exec n OpRetrieve (x # xs, b) = (OutOne x, (xs, b))"
| "fifo_exec n OpRetrieveAll (xs, b) = (OutAll xs, ([], b))"
| "fifo_exec n OpClear (xs, b) = (OutDone, ([], b))"
| "fifo_exec n OpNotify (xs, b) = (OutSignal b, (xs, False))"

fun mb_run :: "'a mb_op list \<Rightarrow> 'a option mailbox \<Rightarrow> 'a mb_out list" where
  "mb_run [] m = []"
| "mb_run (a # as) m = (let (r, m') = mb_exec a m in r # mb_run as m')"

fun fifo_run :: "nat \<Rightarrow> 'a mb_op list \<Rightarrow> 'a option list \<times> bool \<Rightarrow> 'a mb_out list" where
  "fifo_run n [] s = []"
| "fifo_run n (a # as) s = (let (r, s') = fifo_exec n a s in r # fifo_run n as s')"

definition mb_abs :: "'a mailbox \<Rightarrow> 'a list \<times> bool" where
  "mb_abs m = (contents m, mb_notify m)"

lemma Retrieve_empty: "contents m = [] \<Longrightarrow> Retrieve m = (None, m)"
  by (simp add: contents_def Retrieve_def)

lemma Retrieve_oldest:
  "contents m = x # xs \<Longrightarrow> \<exists>m'. Retrieve m = (x, m') \<and> contents m' = xs
     \<and> mb_notify m' = mb_notify m \<and> mb_limit m' = mb_limit m \<and> (mb_ok m \<longrightarrow> mb_ok m')"
  by (auto simp: contents_def Retrieve_def Let_def rev_eq_Cons_iff nth_append mb_ok_def mb_limit_def)

lemma mb_exec_refines:
  assumes "mb_ok m"
  shows "\<exists>m'. mb_exec a m = (fst (fifo_exec (mb_limit m) a (mb_abs m)), m')
    \<and> mb_abs m' = snd (fifo_exec (mb_limit m) a (mb_abs m)) \<and> mb_ok m' \<and> mb_limit m' = mb_limit m"
proof (cases a)
  case OpRetrieve
  then show ?thesis
    using assms Retrieve_oldest [of m]
    by (cases "contents m") (auto simp: mb_abs_def Retrieve_empty)
next
  case OpNotify
  then show ?thesis
    using assms by (auto simp: mb_abs_def Notify_def contents_def mb_limit_def mb_ok_def)
qed (use assms in \<open>auto simp: mb_abs_def contents_Deliver split: prod.split,
    auto simp: prod_eq_iff\<close>)

lemma mb_run_refines: "mb_ok m \<Longrightarrow> mb_run as m = fifo_run (mb_limit m) as (mb_abs m)"
proof (induction as arbitrary: m)
  case (Cons a as)
  then obtain m' where "mb_exec a m = (fst (fifo_exec (mb_limit m) a (mb_abs m)), m')"
    and "mb_abs m' = snd (fifo_exec (mb_limit m) a (mb_abs m))" and "mb_ok m'" "mb_limit m' = mb_limit m"
    using mb_exec_refines by blast
  with Cons.IH [of m'] show ?case
    by (auto simp: split_beta)
qed simp

section \<open>Properties\<close>

text \<open>Whatever is delivered to a new mailbox of capacity \<open>cap\<close>, \<^verbatim>\<open>RetrieveAll\<close> returns the newest \<open>cap\<close>
  elements (all of them when \<open>cap\<close> is 0), oldest first, and leaves the mailbox empty.\<close>

theorem mailbox_keeps_newest:
  "fst (RetrieveAll (fold Deliver xs (NewMailbox cap))) = window (unat cap) xs
    \<and> contents (snd (RetrieveAll (fold Deliver xs (NewMailbox cap)))) = []"
  by (simp add: mb.drain_all [of "NewMailbox cap" xs, simplified] mb.deliver_all)

text \<open>C10: Every sequence of mailbox operations on a new mailbox returns, operation by operation, exactly
  what a FIFO queue of \<open>cap\<close> places that drops its oldest element returns, and the notification channel
  is signalled exactly when an element was delivered since the last received notification.\<close>

theorem mailbox_refines_fifo:
  "mb_run as (NewMailbox cap) = fifo_run (unat cap) as ([], False)"
  using mb_run_refines [of "NewMailbox cap" as] by (simp add: mb_abs_def)

end
