(* ===== verification/Cedar_Log.thy ===== *)
theory Cedar_Log
  imports Cedar_Prelude
begin

text \<open>
  The logging package: field maps (\<^verbatim>\<open>log/fields.go\<close>), the prefixing logger and the interrupt
  watcher (\<^verbatim>\<open>log/logger.go\<close>). A log line is the call of the back end \<^verbatim>\<open>klog\<close>, which is not part
  of the repository: a method returns the calls it makes, and \<open>None\<close> when it panics. The formatting
  functions of \<^verbatim>\<open>fmt\<close> and klog's verbosity test are parameters.
\<close>

section \<open>Values\<close>

text \<open>An \<^verbatim>\<open>interface{}\<close> value, as far as the code looks at it: \<^verbatim>\<open>nil\<close>, a string, or something else.\<close>

datatype 'v any = ANil | AStr string | AOther 'v

section \<open>Fields\<close>

type_synonym 'v fields = "string \<rightharpoonup> 'v any"

text \<open>
  \<^verbatim>\<open>for k, v := range src { dst[k] = v }\<close>. Go leaves the order of a map's iteration open, so the
  loops take it as an argument: a list \<open>ks\<close> of the map's keys, each once.
\<close>

definition iterates :: "'k list \<Rightarrow> ('k \<rightharpoonup> 'v) \<Rightarrow> bool" where
  "iterates ks m \<longleftrightarrow> distinct ks \<and> set ks = dom m"

definition copy_into :: "'k list \<Rightarrow> ('k \<rightharpoonup> 'v) \<Rightarrow> ('k \<rightharpoonup> 'v) \<Rightarrow> ('k \<rightharpoonup> 'v)" where
  "copy_into ks src dst = fold (\<lambda>k m. m(k := src k)) ks dst"

text \<open>One round of the second loop of \<^verbatim>\<open>With\<close>: arguments \<^verbatim>\<open>i*2\<close> and \<^verbatim>\<open>i*2+1\<close>, skipped unless the first is a string.\<close>

definition with_round :: "'v any list \<Rightarrow> nat \<Rightarrow> 'v fields \<Rightarrow> 'v fields" where
  "with_round xs i f2 =
     (case xs ! (i * 2) of
        AStr key \<Rightarrow> f2(key \<mapsto> xs ! (i * 2 + 1))
      | _ \<Rightarrow> f2)"

definition Fields_With :: "string list \<Rightarrow> 'v fields \<Rightarrow> 'v any list \<Rightarrow> 'v fields" where
  "Fields_With ks f xs =
     fold (with_round xs) [0..<length xs div 2] (copy_into ks f Map.empty)"

definition Fields_Merge :: "string list \<Rightarrow> string list \<Rightarrow> 'v fields \<Rightarrow> 'v fields \<Rightarrow> 'v fields" where
  "Fields_Merge ks ks2 f f2 = copy_into ks2 f2 (copy_into ks f Map.empty)"

text \<open>\<^verbatim>\<open>make([]interface{}, len(f)*2)\<close> is a slice of that many \<^verbatim>\<open>nil\<close>s, to which the loop appends.\<close>

definition Fields_Slice :: "string list \<Rightarrow> 'v fields \<Rightarrow> 'v any list" where
  "Fields_Slice ks f =
     fold (\<lambda>k s. s @ [AStr k, the (f k)]) ks (replicate (length ks * 2) ANil)"

lemmas fields_ops [go_ops] = Fields_With_def Fields_Merge_def Fields_Slice_def

lemma copy_into_lookup: "copy_into ks src dst k = (if k \<in> set ks then src k else dst k)"
  unfolding copy_into_def by (induction ks arbitrary: dst) auto

lemma copy_into_iterates: "iterates ks src \<Longrightarrow> copy_into ks src dst = dst ++ src"
  by (auto simp: iterates_def copy_into_lookup map_add_def fun_eq_iff split: option.split)

text \<open>The pairs that \<^verbatim>\<open>With\<close> takes from its arguments: those whose first element is a string.\<close>

fun kv_pairs :: "'v any list \<Rightarrow> (string \<times> 'v any) list" where
  "kv_pairs (AStr k # v # xs) = (k, v) # kv_pairs xs"
| "kv_pairs (_ # _ # xs) = kv_pairs xs"
| "kv_pairs _ = []"

lemma with_round_shift: "with_round (x # v # xs) (Suc i) = with_round xs i"
  by (rule ext) (simp add: with_round_def split: any.split)

lemma fold_with_round_shift:
  "fold (with_round (x # v # xs)) (map Suc js) f0 = fold (with_round xs) js f0"
  by (induction js arbitrary: f0) (simp_all add: with_round_shift)

lemma with_loop_kv_pairs:
  "fold (with_round xs) [0..<length xs div 2] f0 = f0 ++ map_of (rev (kv_pairs xs))"
proof (induction xs arbitrary: f0 rule: induct_list012)
  case (3 x v xs)
  have range: "[0..<length (x # v # xs) div 2] = 0 # map Suc [0..<length xs div 2]"
    by (simp add: map_Suc_upt upt_conv_Cons del: upt_Suc)
  show ?case
    by (subst range)
      (cases x; simp add: fold_with_round_shift "3.IH"(1) with_round_def map_add_def fun_eq_iff
        split: option.split)
qed simp_all

lemma fold_append_concat: "fold (\<lambda>k s. s @ g k) ks s0 = s0 @ concat (map g ks)"
  by (induction ks arbitrary: s0) auto

section \<open>The logger\<close>

text \<open>
  \<^verbatim>\<open>longestLabel\<close> is a package variable shared by all loggers; the operations that write it take
  it and return it.
\<close>

record logger =
  hasPrefix :: bool
  logPrefix :: string
  logLabel :: string

definition logger_zero :: logger where
  "logger_zero = \<lparr>hasPrefix = False, logPrefix = [], logLabel = []\<rparr>"

definition SetLogLabel :: "string \<Rightarrow> logger \<Rightarrow> nat \<Rightarrow> logger \<times> nat" where
  "SetLogLabel inLabel l longestLabel =
     (let l1 = l\<lparr>logLabel := inLabel, hasPrefix := 0 < length inLabel\<rparr>
      in if hasPrefix l1
         then (let l2 = l1\<lparr>logPrefix := ''['' @ inLabel @ ''] ''\<rparr>
               in (l2, if length (logPrefix l2) > longestLabel then length (logPrefix l2)
                       else longestLabel))
         else (l1, longestLabel))"

definition NewLogger :: "string \<Rightarrow> nat \<Rightarrow> logger \<times> nat" where
  "NewLogger label longestLabel =
     (if label \<noteq> [] then SetLogLabel label logger_zero longestLabel
      else (logger_zero, longestLabel))"

definition GetLogLabel :: "logger \<Rightarrow> string" where
  "GetLogLabel l = logLabel l"

definition GetLogPrefix :: "logger \<Rightarrow> string" where
  "GetLogPrefix l = logPrefix l"

text \<open>\<^verbatim>\<open>strings.Repeat\<close> panics on a negative count.\<close>

definition Repeat :: "string \<Rightarrow> int \<Rightarrow> string option" where
  "Repeat s n = (if n < 0 then None else Some (concat (replicate (nat n) s)))"

datatype severity = SevDebug | SevSuccess | SevInfo | SevWarning | SevError | SevFatal

type_synonym 'v log_call = "severity \<times> 'v any list"

text \<open>
  The body all methods share: with a label, the prefix, the padding up to the longest prefix of the
  process and the formatted message; without one, the given arguments.
\<close>

definition log_line ::
    "severity \<Rightarrow> 'v any list \<Rightarrow> string \<Rightarrow> logger \<Rightarrow> nat \<Rightarrow> 'v log_call list option" where
  "log_line sev raw msg l longestLabel =
     (if hasPrefix l
      then (case Repeat '' '' (int longestLabel - int (length (logPrefix l))) of
              None \<Rightarrow> None
            | Some padding \<Rightarrow> Some [(sev, [AStr (logPrefix l), AStr padding, AStr msg])])
      else Some [(sev, raw)])"

type_synonym 'v sprint = "'v any list \<Rightarrow> string"
type_synonym 'v sprintf = "string \<Rightarrow> 'v any list \<Rightarrow> string"

definition Debug :: "'v sprint \<Rightarrow> 'v any list \<Rightarrow> logger \<Rightarrow> nat \<Rightarrow> 'v log_call list option" where
  "Debug sprint args l n = log_line SevDebug args (sprint args) l n"

definition Debugf :: "'v sprintf \<Rightarrow> string \<Rightarrow> 'v any list \<Rightarrow> logger \<Rightarrow> nat \<Rightarrow> 'v log_call list option" where
  "Debugf sprintf inFormat args l n =
     (let msg = sprintf inFormat args in log_line SevDebug [AStr msg] msg l n)"

definition Debugw :: "'v sprintf \<Rightarrow> string \<Rightarrow> 'v any \<Rightarrow> logger \<Rightarrow> nat \<Rightarrow> 'v log_call list option" where
  "Debugw sprintf msg flds l n =
     (let txt = sprintf (msg @ '' %v'') [flds] in log_line SevDebug [AStr txt] txt l n)"

definition Success :: "'v sprint \<Rightarrow> 'v any list \<Rightarrow> logger \<Rightarrow> nat \<Rightarrow> 'v log_call list option" where
  "Success sprint args l n = log_line SevSuccess args (sprint args) l n"

definition Successf :: "'v sprintf \<Rightarrow> string \<Rightarrow> 'v any list \<Rightarrow> logger \<Rightarrow> nat \<Rightarrow> 'v log_call list option" where
  "Successf sprintf inFormat args l n =
     (let msg = sprintf inFormat args in log_line SevSuccess [AStr msg] msg l n)"

definition Successw :: "'v sprintf \<Rightarrow> string \<Rightarrow> 'v any \<Rightarrow> logger \<Rightarrow> nat \<Rightarrow> 'v log_call list option" where
  "Successw sprintf msg flds l n =
     (let txt = sprintf (msg @ '' %v'') [flds] in log_line SevSuccess [AStr txt] txt l n)"

text \<open>\<open>klogV\<close> is klog's verbosity test.\<close>

definition LogV :: "(int \<Rightarrow> bool) \<Rightarrow> int \<Rightarrow> bool" where
  "LogV klogV inVerboseLevel = klogV inVerboseLevel"

definition Info ::
    "(int \<Rightarrow> bool) \<Rightarrow> 'v sprint \<Rightarrow> int \<Rightarrow> 'v any list \<Rightarrow> logger \<Rightarrow> nat \<Rightarrow> 'v log_call list option" where
  "Info klogV sprint inVerboseLevel args l n =
     (let logIt = (if inVerboseLevel > 0 then klogV inVerboseLevel else True)
      in if logIt then log_line SevInfo args (sprint args) l n else Some [])"

definition Infof ::
    "(int \<Rightarrow> bool) \<Rightarrow> 'v sprintf \<Rightarrow> int \<Rightarrow> string \<Rightarrow> 'v any list \<Rightarrow> logger \<Rightarrow> nat \<Rightarrow> 'v log_call list option" where
  "Infof klogV sprintf inVerboseLevel inFormat args l n =
     (let logIt = (if inVerboseLevel > 0 then klogV inVerboseLevel else True)
      in if logIt
         then (let msg = sprintf inFormat args in log_line SevInfo [AStr msg] msg l n)
         else Some [])"

definition Infow :: "'v sprintf \<Rightarrow> string \<Rightarrow> 'v any \<Rightarrow> logger \<Rightarrow> nat \<Rightarrow> 'v log_call list option" where
  "Infow sprintf msg flds l n =
     (let txt = sprintf (msg @ '' %v'') [flds] in log_line SevInfo [AStr txt] txt l n)"

definition Warn :: "'v sprint \<Rightarrow> 'v any list \<Rightarrow> logger \<Rightarrow> nat \<Rightarrow> 'v log_call list option" where
  "Warn sprint args l n = log_line SevWarning args (sprint args) l n"

definition Warnf :: "'v sprintf \<Rightarrow> string \<Rightarrow> 'v any list \<Rightarrow> logger \<Rightarrow> nat \<Rightarrow> 'v log_call list option" where
  "Warnf sprintf inFormat args l n =
     (let msg = sprintf inFormat args in log_line SevWarning [AStr msg] msg l n)"

definition Warnw :: "'v sprintf \<Rightarrow> string \<Rightarrow> 'v any \<Rightarrow> logger \<Rightarrow> nat \<Rightarrow> 'v log_call list option" where
  "Warnw sprintf msg flds l n =
     (let txt = sprintf (msg @ '' %v'') [flds] in log_line SevWarning [AStr txt] txt l n)"

definition Error :: "'v sprint \<Rightarrow> 'v any list \<Rightarrow> logger \<Rightarrow> nat \<Rightarrow> 'v log_call list option" where
  "Error sprint args l n = log_line SevError args (sprint args) l n"

definition Errorf :: "'v sprintf \<Rightarrow> string \<Rightarrow> 'v any list \<Rightarrow> logger \<Rightarrow> nat \<Rightarrow> 'v log_call list option" where
  "Errorf sprintf inFormat args l n =
     (let msg = sprintf inFormat args in log_line SevError [AStr msg] msg l n)"

definition Errorw :: "'v sprintf \<Rightarrow> string \<Rightarrow> 'v any \<Rightarrow> logger \<Rightarrow> nat \<Rightarrow> 'v log_call list option" where
  "Errorw sprintf msg flds l n =
     (let txt = sprintf (msg @ '' %v'') [flds] in log_line SevError [AStr txt] txt l n)"

definition Fatalf :: "'v sprintf \<Rightarrow> string \<Rightarrow> 'v any list \<Rightarrow> logger \<Rightarrow> nat \<Rightarrow> 'v log_call list option" where
  "Fatalf sprintf inFormat args l n =
     (let msg = sprintf inFormat args in log_line SevFatal [AStr msg] msg l n)"

text \<open>The package's own \<^verbatim>\<open>Fatalf\<close>, on a logger without a label.\<close>

definition gLogger :: logger where
  "gLogger = logger_zero"

definition Fatalf_package :: "'v sprintf \<Rightarrow> string \<Rightarrow> 'v any list \<Rightarrow> nat \<Rightarrow> 'v log_call list option" where
  "Fatalf_package sprintf inFormat args n = Fatalf sprintf inFormat args gLogger n"

lemmas log_methods [go_ops] =
  Debug_def Debugf_def Debugw_def Success_def Successf_def Successw_def
  Info_def Infof_def Infow_def Warn_def Warnf_def Warnw_def
  Error_def Errorf_def Errorw_def Fatalf_def

section \<open>All loggers of a process\<close>

text \<open>The calls that write \<^verbatim>\<open>longestLabel\<close>, on the list of loggers made so far.\<close>

datatype log_op = LNew string | LSet nat string

fun log_exec :: "log_op \<Rightarrow> logger list \<times> nat \<Rightarrow> logger list \<times> nat" where
  "log_exec (LNew label) (ls, n) = (let (l, n') = NewLogger label n in (ls @ [l], n'))"
| "log_exec (LSet i label) (ls, n) =
     (if i < length ls then (let (l, n') = SetLogLabel label (ls ! i) n in (ls[i := l], n'))
      else (ls, n))"

definition fits :: "nat \<Rightarrow> logger \<Rightarrow> bool" where
  [go_inv]: "fits n l \<longleftrightarrow> (hasPrefix l \<longrightarrow> length (logPrefix l) \<le> n)"

lemma SetLogLabel_fits:
  "fits (snd (SetLogLabel label l n)) (fst (SetLogLabel label l n)) \<and> n \<le> snd (SetLogLabel label l n)"
  by (auto simp: fits_def SetLogLabel_def Let_def)

lemma NewLogger_fits:
  "fits (snd (NewLogger label n)) (fst (NewLogger label n)) \<and> n \<le> snd (NewLogger label n)"
  by (simp add: NewLogger_def SetLogLabel_fits) (simp add: fits_def logger_zero_def)

lemma fits_mono: "fits n l \<Longrightarrow> n \<le> n' \<Longrightarrow> fits n' l"
  by (auto simp: fits_def)

lemma log_exec_fits:
  "list_all (fits (snd s)) (fst s) \<Longrightarrow> list_all (fits (snd (log_exec a s))) (fst (log_exec a s))"
proof (cases s)
  case (Pair ls n)
  assume fit: "list_all (fits (snd s)) (fst s)"
  show ?thesis
  proof (cases a)
    case (LNew label)
    with Pair fit NewLogger_fits [of label n] show ?thesis
      by (auto simp: split_beta list_all_iff intro: fits_mono)
  next
    case (LSet i label)
    with Pair fit SetLogLabel_fits [of label "ls ! i" n] show ?thesis
      by (auto simp: split_beta list_all_iff intro: fits_mono dest!: set_update_subset_insert [THEN subsetD])
  qed
qed

lemma log_run_fits:
  "list_all (fits (snd s)) (fst s) \<Longrightarrow> list_all (fits (snd (fold log_exec as s))) (fst (fold log_exec as s))"
  by (induction as arbitrary: s) (auto simp: log_exec_fits)

lemma log_line_fits:
  "fits n l \<Longrightarrow> log_line sev raw msg l n =
     Some [(sev, if hasPrefix l then [AStr (logPrefix l), AStr (replicate (n - length (logPrefix l)) CHR '' ''),
                                      AStr msg] else raw)]"
proof -
  have "concat (replicate k ''  '') = replicate (2 * k) CHR '' ''" for k
    by (induction k) simp_all
  moreover have "concat (replicate k '' '') = replicate k CHR '' ''" for k
    by (induction k) simp_all
  moreover assume "fits n l"
  ultimately show ?thesis
    by (auto simp: fits_def log_line_def Repeat_def nat_diff_distrib)
qed

section \<open>The interrupt watcher\<close>

text \<open>
  \<^verbatim>\<open>AwaitInterrupt\<close>: the variables of the goroutine (\<open>iw_onFirst\<close> and \<open>iw_onRepeated\<close> say that the
  variable still holds its channel) and the two channels that were returned. \<open>on_signal\<close> is one
  round of the loop, for a signal that arrives at second \<open>curTime\<close>; \<open>None\<close> is a panic.
\<close>

record interrupts =
  iw_count :: int
  iw_firstTime :: int
  iw_onFirst :: bool
  iw_onRepeated :: bool
  iw_first :: chan
  iw_repeated :: chan

definition AwaitInterrupt :: interrupts where
  "AwaitInterrupt = \<lparr>iw_count = 0, iw_firstTime = 0, iw_onFirst = True, iw_onRepeated = True,
     iw_first = ChOpen, iw_repeated = ChOpen\<rparr>"

definition on_signal :: "int \<Rightarrow> interrupts \<Rightarrow> interrupts option" where
  "on_signal curTime w0 =
     (let w = w0\<lparr>iw_count := iw_count w0 + 1\<rparr>
      in if iw_onFirst w
         then (case chan_close (iw_first w) of
                 None \<Rightarrow> None
               | Some c \<Rightarrow> Some (w\<lparr>iw_firstTime := curTime, iw_first := c, iw_onFirst := False\<rparr>))
         else if iw_onRepeated w
         then (if curTime > iw_firstTime w + 3 \<and> iw_count w \<ge> 3
               then (case chan_close (iw_repeated w) of
                       None \<Rightarrow> None
                     | Some c \<Rightarrow> Some (w\<lparr>iw_repeated := c, iw_onRepeated := False\<rparr>))
               else Some w)
         else Some w)"

fun on_signals :: "int list \<Rightarrow> interrupts \<Rightarrow> interrupts option" where
  "on_signals [] w = Some w"
| "on_signals (t # ts) w = (case on_signal t w of None \<Rightarrow> None | Some w' \<Rightarrow> on_signals ts w')"

lemma on_signals_snoc:
  "on_signals (ts @ [t]) w = (case on_signals ts w of None \<Rightarrow> None | Some w' \<Rightarrow> on_signal t w')"
  by (induction ts arbitrary: w) (auto split: option.split)

text \<open>
  The \<^verbatim>\<open>return\<close> reads the two variables that the goroutine sets to \<^verbatim>\<open>nil\<close>: the channels are returned as they are after the
  signals that the goroutine handled before it.
\<close>

definition AwaitInterrupt_return :: "interrupts \<Rightarrow> chan \<times> chan" where
  "AwaitInterrupt_return w =
     (if iw_onFirst w then iw_first w else ChNil, if iw_onRepeated w then iw_repeated w else ChNil)"

text \<open>The second channel is due once a third or later signal is more than three seconds after the first.\<close>

definition insistent :: "int list \<Rightarrow> bool" where
  "insistent ts \<longleftrightarrow> list_ex (\<lambda>t. t > ts ! 0 + 3) (drop 2 ts)"

lemma insistent_snoc:
  "insistent (ts @ [t]) \<longleftrightarrow> insistent ts \<or> (2 \<le> length ts \<and> t > ts ! 0 + 3)"
  by (cases ts; cases "tl ts") (auto simp: insistent_def)

lemma on_signals_closed_form:
  "on_signals ts AwaitInterrupt =
     Some \<lparr>iw_count = int (length ts), iw_firstTime = (if ts = [] then 0 else ts ! 0),
       iw_onFirst = (ts = []), iw_onRepeated = (\<not> insistent ts),
       iw_first = (if ts = [] then ChOpen else ChClosed),
       iw_repeated = (if insistent ts then ChClosed else ChOpen)\<rparr>"
proof (induction ts rule: rev_induct)
  case Nil
  show ?case by (simp add: AwaitInterrupt_def insistent_def)
next
  case (snoc t ts)
  show ?case
  proof (cases "ts = []")
    case True
    then show ?thesis
      by (simp add: AwaitInterrupt_def on_signal_def insistent_def)
  next
    case False
    with snoc.IH show ?thesis
      by (simp add: on_signals_snoc on_signal_def insistent_snoc nth_append Let_def not_less not_le)
  qed
qed


section \<open>Properties\<close>

text \<open>Any of the methods that log, with its arguments.\<close>

datatype 'v log_method =
    MDebug "'v any list" | MDebugf string "'v any list" | MDebugw string "'v any"
  | MSuccess "'v any list" | MSuccessf string "'v any list" | MSuccessw string "'v any"
  | MInfo int "'v any list" | MInfof int string "'v any list" | MInfow string "'v any"
  | MWarn "'v any list" | MWarnf string "'v any list" | MWarnw string "'v any"
  | MError "'v any list" | MErrorf string "'v any list" | MErrorw string "'v any"
  | MFatalf string "'v any list"

fun call_method ::
    "(int \<Rightarrow> bool) \<Rightarrow> 'v sprint \<Rightarrow> 'v sprintf \<Rightarrow> 'v log_method \<Rightarrow> logger \<Rightarrow> nat \<Rightarrow> 'v log_call list option" where
  "call_method klogV sp spf (MDebug args) = Debug sp args"
| "call_method klogV sp spf (MDebugf f args) = Debugf spf f args"
| "call_method klogV sp spf (MDebugw m flds) = Debugw spf m flds"
| "call_method klogV sp spf (MSuccess args) = Success sp args"
| "call_method klogV sp spf (MSuccessf f args) = Successf spf f args"
| "call_method klogV sp spf (MSuccessw m flds) = Successw spf m flds"
| "call_method klogV sp spf (MInfo v args) = Info klogV sp v args"
| "call_method klogV sp spf (MInfof v f args) = Infof klogV spf v f args"
| "call_method klogV sp spf (MInfow m flds) = Infow spf m flds"
| "call_method klogV sp spf (MWarn args) = Warn sp args"
| "call_method klogV sp spf (MWarnf f args) = Warnf spf f args"
| "call_method klogV sp spf (MWarnw m flds) = Warnw spf m flds"
| "call_method klogV sp spf (MError args) = Error sp args"
| "call_method klogV sp spf (MErrorf f args) = Errorf spf f args"
| "call_method klogV sp spf (MErrorw m flds) = Errorw spf m flds"
| "call_method klogV sp spf (MFatalf f args) = Fatalf spf f args"

text \<open>A line of a logger: with a label, the prefix, blanks up to column \<open>n\<close>, and the message.\<close>

definition aligned :: "nat \<Rightarrow> logger \<Rightarrow> 'v log_call \<Rightarrow> bool" where
  "aligned n l c \<longleftrightarrow> (hasPrefix l \<longrightarrow>
     (\<exists>k msg. snd c = [AStr (logPrefix l), AStr (replicate k CHR '' ''), AStr msg] \<and> length (logPrefix l) + k = n))"

lemma call_method_log_line:
  "\<exists>sev raw msg. call_method klogV sp spf m l n \<in> {log_line sev raw msg l n, Some []}"
  by (cases m) (simp_all add: log_methods Let_def, blast+)

lemma log_line_aligned: "fits n l \<Longrightarrow> \<exists>c. log_line sev raw msg l n = Some [c] \<and> aligned n l c"
  by (auto simp: log_line_fits aligned_def fits_def)

text \<open>
  Whatever loggers a program makes and relabels, none of the sixteen methods panics on any of them, and every
  line they write starts its message in the same column, the width of the longest prefix ever set.
\<close>

theorem logger_lines_aligned:
  assumes "fold log_exec ops ([], 0) = (ls, n)" and "l \<in> set ls"
  shows "\<exists>cs. call_method klogV sp spf m l n = Some cs \<and> list_all (aligned n l) cs"
proof -
  have "fits n l"
    using log_run_fits [of "([], 0)" ops] assms by (simp add: list_all_iff)
  with call_method_log_line [of klogV sp spf m l n] log_line_aligned [of n l] show ?thesis
    by fastforce
qed

theorem logger_lines_aligned_witness:
  "fold log_exec [LNew ''abc'', LNew ''a'', LSet 1 ''ab''] ([], 0)
      = ([\<lparr>hasPrefix = True, logPrefix = ''[abc] '', logLabel = ''abc''\<rparr>,
          \<lparr>hasPrefix = True, logPrefix = ''[ab] '', logLabel = ''ab''\<rparr>], 6)
    \<and> (\<exists>cs. call_method (\<lambda>_. True) (\<lambda>_. ''m'') (\<lambda>_ _. ''m'') (MWarn [ANil :: int any])
             \<lparr>hasPrefix = True, logPrefix = ''[ab] '', logLabel = ''ab''\<rparr> 6 = Some cs
           \<and> list_all (aligned 6 \<lparr>hasPrefix = True, logPrefix = ''[ab] '', logLabel = ''ab''\<rparr>) cs)"
proof -
  have run: "fold log_exec [LNew ''abc'', LNew ''a'', LSet 1 ''ab''] ([], 0)
      = ([\<lparr>hasPrefix = True, logPrefix = ''[abc] '', logLabel = ''abc''\<rparr>,
          \<lparr>hasPrefix = True, logPrefix = ''[ab] '', logLabel = ''ab''\<rparr>], 6)"
    by (simp add: NewLogger_def SetLogLabel_def logger_zero_def)
  from run logger_lines_aligned [OF run, of "\<lparr>hasPrefix = True, logPrefix = ''[ab] '', logLabel = ''ab''\<rparr>"]
  show ?thesis by (simp del: call_method.simps)
qed

lemma kv_pairs_nils: "kv_pairs (replicate (2 * n) ANil @ xs) = kv_pairs xs"
  by (induction n) simp_all

lemma kv_pairs_slice:
  "set ks \<subseteq> dom f \<Longrightarrow> kv_pairs (concat (map (\<lambda>k. [AStr k, the (f k)]) ks)) = map (\<lambda>k. (k, the (f k))) ks"
  by (induction ks) auto

lemma map_of_graph:
  assumes "iterates ks f"
  shows "map_of (rev (map (\<lambda>k. (k, the (f k))) ks)) = f"
proof (rule ext)
  fix k
  show "map_of (rev (map (\<lambda>k. (k, the (f k))) ks)) k = f k"
  proof (cases "f k")
    case None
    with assms show ?thesis by (auto simp: iterates_def map_of_eq_None_iff domIff)
  next
    case (Some v)
    with assms have "(k, v) \<in> set (rev (map (\<lambda>k. (k, the (f k))) ks))"
      by (auto simp: iterates_def image_iff intro!: bexI [of _ k])
    moreover have "distinct (map fst (rev (map (\<lambda>k. (k, the (f k))) ks)))"
      using assms by (simp add: iterates_def rev_map [symmetric] comp_def)
    ultimately show ?thesis using Some by (simp add: map_of_is_SomeI)
  qed
qed

text \<open>
  \<^verbatim>\<open>With\<close> adds the pairs whose first element is a string, the last one winning, and skips the others;
  \<^verbatim>\<open>Merge\<close> prefers the argument; whatever the order in which Go iterates the maps.
\<close>

theorem fields_with_and_merge:
  assumes "iterates ks f" and "iterates ks2 f2"
  shows "Fields_With ks f xs = f ++ map_of (rev (kv_pairs xs)) \<and> Fields_Merge ks ks2 f f2 = f ++ f2"
  using assms
  by (simp_all add: Fields_With_def Fields_Merge_def copy_into_iterates with_loop_kv_pairs)

theorem fields_with_and_merge_witness:
  "Fields_With [''a''] [''a'' \<mapsto> ANil] [AStr ''a'', AOther 1, ANil, ANil, AStr ''a'', AOther 2] ''a'' = Some (AOther (2 :: int))"
proof -
  have "iterates [''a''] [''a'' \<mapsto> (ANil :: int any)]" "iterates [] (Map.empty :: int fields)"
    by (auto simp: iterates_def)
  from fields_with_and_merge [OF this] show ?thesis by simp
qed

text \<open>
  \<^verbatim>\<open>Slice\<close> lists every field, but behind twice as many \<^verbatim>\<open>nil\<close>s as there are fields (it appends to a slice made
  with that length); \<^verbatim>\<open>With\<close> skips them, so giving the slice to \<^verbatim>\<open>With\<close> restores the fields.
\<close>

theorem fields_slice_roundtrip:
  assumes "iterates ks f" and "iterates js g"
  shows "Fields_With js g (Fields_Slice ks f) = g ++ f \<and> length (Fields_Slice ks f) = 4 * card (dom f)
    \<and> take (2 * card (dom f)) (Fields_Slice ks f) = replicate (2 * card (dom f)) ANil"
proof -
  have ks: "distinct ks" "set ks = dom f" using assms(1) by (auto simp: iterates_def)
  then have len: "length ks = card (dom f)" by (metis distinct_card)
  have slice: "Fields_Slice ks f = replicate (2 * length ks) ANil @ concat (map (\<lambda>k. [AStr k, the (f k)]) ks)"
    by (simp add: Fields_Slice_def fold_append_concat mult.commute)
  have clen: "length (concat (map (\<lambda>k. [AStr k, the (f k)]) ks)) = 2 * length ks"
    by (induction ks) auto
  have "Fields_With js g (Fields_Slice ks f) = g ++ map_of (rev (kv_pairs (Fields_Slice ks f)))"
    using assms(2) by (simp add: Fields_With_def copy_into_iterates with_loop_kv_pairs)
  also have "\<dots> = g ++ f"
    using ks(2) map_of_graph [OF assms(1)] unfolding slice by (simp add: kv_pairs_nils kv_pairs_slice)
  finally show ?thesis using slice clen len by simp
qed

theorem fields_slice_roundtrip_witness:
  "Fields_With [] Map.empty (Fields_Slice [''a''] [''a'' \<mapsto> AOther 1]) = [''a'' \<mapsto> AOther (1 :: int)]
    \<and> Fields_Slice [''a''] [''a'' \<mapsto> AOther (1 :: int)] = [ANil, ANil, AStr ''a'', AOther 1]"
proof -
  have "iterates [''a''] [''a'' \<mapsto> AOther (1 :: int)]" "iterates [] (Map.empty :: int fields)"
    by (auto simp: iterates_def)
  from fields_slice_roundtrip [OF this] show ?thesis by (simp add: Fields_Slice_def numeral_2_eq_2)
qed

text \<open>
  A signal that is handled before \<^verbatim>\<open>AwaitInterrupt\<close> returns is lost: the caller gets \<^verbatim>\<open>nil\<close> for the first channel, which is never ready.
\<close>

lemma early_signal_lost:
  assumes "on_signals ts AwaitInterrupt = Some w"
  shows "fst (AwaitInterrupt_return w) = (if ts = [] then ChOpen else ChNil)"
    and "ts \<noteq> [] \<Longrightarrow> \<not> chan_ready (fst (AwaitInterrupt_return w))"
  using assms by (auto simp: on_signals_closed_form AwaitInterrupt_return_def)

text \<open>
  The watcher of \<^verbatim>\<open>AwaitInterrupt\<close> never panics, whatever the times at which signals arrive: the first channel is
  closed by the first signal, the second by the first signal that is at least the third and more than three
  seconds after the first.
\<close>

theorem interrupt_channels:
  "\<exists>w. on_signals ts AwaitInterrupt = Some w
    \<and> (iw_first w = ChClosed \<longleftrightarrow> 1 \<le> length ts)
    \<and> (iw_repeated w = ChClosed \<longleftrightarrow> (\<exists>i < length ts. 2 \<le> i \<and> ts ! i > ts ! 0 + 3))"
proof -
  have "insistent ts \<longleftrightarrow> (\<exists>i < length ts. 2 \<le> i \<and> ts ! i > ts ! 0 + 3)"
  proof
    assume "insistent ts"
    then obtain t where t: "t \<in> set (drop 2 ts)" "t > ts ! 0 + 3"
      by (auto simp: insistent_def list_ex_iff)
    then obtain j where "j < length (drop 2 ts)" "drop 2 ts ! j = t" by (metis in_set_conv_nth)
    with t(2) show "\<exists>i < length ts. 2 \<le> i \<and> ts ! i > ts ! 0 + 3"
      by (intro exI [of _ "2 + j"]) auto
  next
    assume "\<exists>i < length ts. 2 \<le> i \<and> ts ! i > ts ! 0 + 3"
    then obtain i where i: "i < length ts" "2 \<le> i" "ts ! i > ts ! 0 + 3" by blast
    then have "2 + (i - 2) = i" by simp
    with i have "ts ! i \<in> set (drop 2 ts)"
      using nth_mem [of "i - 2" "drop 2 ts"] by (simp add: nth_drop del: add_2_eq_Suc)
    with i(3) show "insistent ts" by (auto simp: insistent_def list_ex_iff)
  qed
  moreover have "1 \<le> length ts \<longleftrightarrow> ts \<noteq> []" by (cases ts) auto
  ultimately show ?thesis by (simp add: on_signals_closed_form)
qed

end
