(* ===== verification/Cedar_Text.thy ===== *)
theory Cedar_Text
  imports Cedar_Prelude
begin

text \<open>
  What the code uses of Go's \<^verbatim>\<open>fmt\<close>, \<^verbatim>\<open>strconv\<close> and \<^verbatim>\<open>strings\<close> on numbers and letters, with the facts the components share:
  decimal notation and its inverse, lower case.
\<close>

section \<open>Decimal notation\<close>

text \<open>Decimal notation, as \<^verbatim>\<open>fmt\<close> writes a number.\<close>

fun decimal :: "nat \<Rightarrow> string" where
  "decimal n = (if n < 10 then [char_of (48 + n)] else decimal (n div 10) @ [char_of (48 + n mod 10)])"

declare decimal.simps [simp del]

lemma decimal_less10: "n < 10 \<Longrightarrow> decimal n = [char_of (48 + n)]"
  by (subst decimal.simps) simp

lemma decimal_ge10: "\<not> n < 10 \<Longrightarrow> decimal n = decimal (n div 10) @ [char_of (48 + n mod 10)]"
  by (subst decimal.simps) simp

lemma decimal_nonempty: "decimal n \<noteq> []"
  by (cases "n < 10") (simp_all add: decimal_less10 decimal_ge10)

lemma digit_char_inj: "a < 10 \<Longrightarrow> b < 10 \<Longrightarrow> (char_of (48 + a) :: char) = char_of (48 + b) \<Longrightarrow> a = (b::nat)"
  by (drule arg_cong [where f = "of_char :: char \<Rightarrow> nat"]) simp

lemma decimal_inj: "decimal m = decimal n \<Longrightarrow> m = n"
proof (induction m arbitrary: n rule: less_induct)
  case (less m)
  show ?case
  proof (cases "m < 10"; cases "n < 10")
    assume "m < 10" "n < 10"
    with less.prems show ?thesis by (auto simp: decimal_less10 dest: digit_char_inj)
  next
    assume "m < 10" "\<not> n < 10"
    with less.prems show ?thesis
      by (auto simp: decimal_less10 decimal_ge10 decimal_nonempty Cons_eq_append_conv)
  next
    assume "\<not> m < 10" "n < 10"
    with less.prems show ?thesis
      by (auto simp: decimal_less10 decimal_ge10 decimal_nonempty append_eq_Cons_conv)
  next
    assume m: "\<not> m < 10" and n: "\<not> n < 10"
    with less.prems have "decimal (m div 10) = decimal (n div 10)"
      and "char_of (48 + m mod 10) = (char_of (48 + n mod 10) :: char)"
      by (auto simp: decimal_ge10)
    with m less.IH [of "m div 10" "n div 10"] digit_char_inj [of "m mod 10" "n mod 10"]
    have "m div 10 = n div 10" and "m mod 10 = n mod 10"
      by auto
    then show ?thesis by (metis div_mult_mod_eq)
  qed
qed

lemma set_decimal: "c \<in> set (decimal n) \<Longrightarrow> \<exists>d < (10::nat). c = char_of (48 + d)"
proof (induction n rule: less_induct)
  case (less n)
  show ?case
  proof (cases "n < 10")
    case True
    with less.prems show ?thesis by (auto simp: decimal_less10)
  next
    case False
    with less.prems consider "c = char_of (48 + n mod 10)" | "c \<in> set (decimal (n div 10))"
      by (auto simp: decimal_ge10)
    then show ?thesis
    proof cases
      case 1
      then show ?thesis by (intro exI [of _ "n mod 10"]) simp
    next
      case 2
      with False show ?thesis by (intro less.IH [of "n div 10"]) auto
    qed
  qed
qed

lemma not_in_decimal: "of_char c < (48::nat) \<Longrightarrow> c \<notin> set (decimal n)"
  by (auto dest!: set_decimal)

text \<open>The number a text of digits denotes, continuing from \<open>n\<close>.\<close>

definition is_digit :: "char \<Rightarrow> bool" where
  "is_digit c \<longleftrightarrow> 48 \<le> (of_char c :: nat) \<and> (of_char c :: nat) \<le> 57"

fun digits_value :: "string \<Rightarrow> nat \<Rightarrow> nat option" where
  "digits_value [] n = Some n"
| "digits_value (c # cs) n =
     (if is_digit c then digits_value cs (n * 10 + (of_char c - 48)) else None)"

lemma is_digit_char [simp]: "d < (10::nat) \<Longrightarrow> is_digit (char_of (48 + d))"
  by (simp add: is_digit_def)

lemma digits_value_append:
  "digits_value xs n = Some m \<Longrightarrow> digits_value (xs @ ys) n = digits_value ys m"
  by (induction xs n rule: digits_value.induct) (auto split: if_splits)

lemma decimal_digits: "c \<in> set (decimal n) \<Longrightarrow> is_digit c"
  by (auto dest!: set_decimal)

lemma digits_value_decimal: "digits_value (decimal n) 0 = Some n"
proof (induction n rule: less_induct)
  case (less n)
  show ?case
  proof (cases "n < 10")
    case True
    then show ?thesis by (simp add: decimal_less10)
  next
    case False
    with less.IH [of "n div 10"] have "digits_value (decimal (n div 10)) 0 = Some (n div 10)" by simp
    then show ?thesis by (simp add: decimal_ge10 [OF False] digits_value_append)
  qed
qed

lemma digits_value_total: "\<forall>c \<in> set ds. is_digit c \<Longrightarrow> \<exists>m. digits_value ds n = Some m"
  by (induction ds n rule: digits_value.induct) auto

lemma takeWhile_all: "list_all P xs \<Longrightarrow> takeWhile P (xs @ ys) = xs @ takeWhile P ys"
  by (induction xs) auto

lemma dropWhile_all: "list_all P xs \<Longrightarrow> dropWhile P (xs @ ys) = dropWhile P ys"
  by (induction xs) auto

lemma takeWhile_id: "list_all P xs \<Longrightarrow> takeWhile P xs = xs"
  using takeWhile_all [of P xs "[]"] by simp

lemma dropWhile_id: "list_all P xs \<Longrightarrow> dropWhile P xs = []"
  using dropWhile_all [of P xs "[]"] by (simp del: dropWhile_eq_Nil_conv)

lemma list_all_decimal: "list_all is_digit (decimal n)"
  by (auto simp: list_all_iff dest: decimal_digits)

section \<open>Lower case\<close>

text \<open>
  \<^verbatim>\<open>strings.ToLower\<close>, as far as the ASCII characters of its result go: two letters outside ASCII have a lower case in ASCII,
  the Kelvin sign U+212A and the dotted capital I U+0130. Every other character outside ASCII stays outside; the code
  only looks for characters of ASCII, so that these are left as they are.
\<close>

fun ToLower :: "string \<Rightarrow> string" where
  "ToLower [] = []"
| "ToLower (c # cs) =
     (if take 3 (c # cs) = [CHR 0xE2, CHR 0x84, CHR 0xAA] then CHR ''k'' # ToLower (drop 2 cs)
      else if take 2 (c # cs) = [CHR 0xC4, CHR 0xB0] then CHR ''i'' # ToLower (drop 1 cs)
      else (if 65 \<le> (of_char c :: nat) \<and> (of_char c :: nat) \<le> 90 then char_of ((of_char c :: nat) + 32) else c) # ToLower cs)"

text \<open>Texts of ASCII without capital letters are left as they are.\<close>

lemma ToLower_id:
  "\<forall>c \<in> set s. (of_char c :: nat) < 128 \<and> \<not> (65 \<le> (of_char c :: nat) \<and> (of_char c :: nat) \<le> 90) \<Longrightarrow> ToLower s = s"
  by (induction s) auto

end
