(* ===== verification/Cedar_Process.thy ===== *)
theory Cedar_Process
  imports Cedar_Text Cedar_Log
begin

text \<open>
  The process tree of \<^verbatim>\<open>process/process.go\<close> and \<^verbatim>\<open>process/api.process.go\<close>: its state, its pure
  methods, and its concurrent ones (\<^verbatim>\<open>StartChild\<close>, \<^verbatim>\<open>Close\<close>, \<^verbatim>\<open>Autoclose\<close>, \<^verbatim>\<open>Go\<close> and the
  goroutine that watches a child) as a machine of threads. A thread is a stack of frames; a
  frame is a point of the code between two accesses to shared state, and \<open>exec\<close> runs the code
  from that point to the next one.
\<close>

section \<open>States and errors\<close>

datatype State = Unstarted | Started | Closing | Closed

text \<open>The constants are \<^verbatim>\<open>iota\<close> values of an \<^verbatim>\<open>int32\<close>; \<^verbatim>\<open>String\<close> also answers for other values.\<close>

fun State_code :: "State \<Rightarrow> int" where
  "State_code Unstarted = 0"
| "State_code Started = 1"
| "State_code Closing = 2"
| "State_code Closed = 3"

definition State_String :: "int \<Rightarrow> string" where
  "State_String s =
     (if s = State_code Unstarted then ''unstarted''
      else if s = State_code Started then ''started''
      else if s = State_code Closing then ''closing''
      else if s = State_code Closed then ''closed''
      else ''(err: unknown)'')"

text \<open>The errors of the package, \<^verbatim>\<open>context.Canceled\<close>, and those a client's overriding method returns.\<close>

datatype error = ErrAlreadyStarted | ErrUnstarted | ErrClosed | Canceled | ErrClient string

section \<open>A process\<close>

type_synonym addr = nat

text \<open>
  The fields of \<^verbatim>\<open>Process\<close>. Contexts are addresses into a heap of processes; a callback is an opaque
  value, and calling it is an event of the trace \<open>calls\<close>. \<open>p_running\<close> is the counter of the
  \<^verbatim>\<open>sync.WaitGroup\<close>. The mutex \<^verbatim>\<open>subsMu\<close> has no field: each access it guards is one step.
\<close>

record 'cb process =
  p_Logger :: "logger option"
  p_OnClosing :: "'cb option"
  p_OnClosed :: "'cb option"
  p_id :: uint64
  p_state :: State
  p_label :: string
  p_closeOnce :: once
  p_chClosing :: chan
  p_chClosed :: chan
  p_err :: "error option"
  p_running :: int
  p_subs :: "addr list"

definition process_zero :: "'cb process" where
  "process_zero = \<lparr>p_Logger = None, p_OnClosing = None, p_OnClosed = None, p_id = 0,
     p_state = Unstarted, p_label = [], p_closeOnce = OnceNew, p_chClosing = ChNil,
     p_chClosed = ChNil, p_err = None, p_running = 0, p_subs = []\<rparr>"

text \<open>Decimal notation of an \<^verbatim>\<open>int64\<close>, as \<^verbatim>\<open>fmt.Sprint\<close> writes it.\<close>

definition int64_text :: "uint64 \<Rightarrow> string" where
  "int64_text w = (if sint w < 0 then ''-'' @ decimal (nat (- sint w)) else decimal (nat (sint w)))"

text \<open>\<^verbatim>\<open>gSpawnCounter\<close> is the argument; the new value of the counter is the returned process id.\<close>

definition nextProcessLabel :: "string \<Rightarrow> uint64 \<Rightarrow> string \<times> uint64" where
  "nextProcessLabel baseLabel counter =
     (let pid = counter + 1 in (baseLabel @ '' #'' @ int64_text pid, pid))"

definition ContextID :: "'cb process \<Rightarrow> uint64" where
  "ContextID p = p_id p"

definition ContextLabel :: "'cb process \<Rightarrow> string" where
  "ContextLabel p = p_label p"

definition Closing_chan :: "'cb process \<Rightarrow> chan" where
  "Closing_chan p = p_chClosing p"

definition Done_chan :: "'cb process \<Rightarrow> chan" where
  "Done_chan p = p_chClosed p"

definition Err :: "'cb process \<Rightarrow> error option" where
  "Err p = (if chan_ready (Done_chan p)
            then (case p_err p of None \<Rightarrow> Some Canceled | Some e \<Rightarrow> Some e)
            else None)"

text \<open>\<^verbatim>\<open>Deadline\<close> and \<^verbatim>\<open>Value\<close> of the \<^verbatim>\<open>context.Context\<close> interface: no deadline, no values.\<close>

definition Deadline :: "'cb process \<Rightarrow> int \<times> bool" where
  "Deadline p = (0, False)"

definition Value :: "'cb process \<Rightarrow> 'v any \<Rightarrow> 'v any" where
  "Value p key = ANil"

definition GetChildren :: "'cb process \<Rightarrow> addr list \<Rightarrow> addr list" where
  "GetChildren p ins = ins @ p_subs p"

definition ChildCount :: "'cb process \<Rightarrow> int" where
  "ChildCount p = int (length (p_subs p))"

text \<open>
  \<^verbatim>\<open>ExportContextTree\<close> on one state of the heap: the map with the keys \<^verbatim>\<open>id\<close>, \<^verbatim>\<open>status\<close> and, if there are
  children, \<^verbatim>\<open>children\<close>. The recursion over the tree is bounded by a number of levels; \<open>None\<close> says that
  they were not enough.
\<close>

datatype ctx_tree =
  CtxTree (tree_id: uint64) (tree_status: string) (tree_children: "(string \<rightharpoonup> ctx_tree) option")

fun ExportContextTree :: "nat \<Rightarrow> (addr \<Rightarrow> 'cb process) \<Rightarrow> addr \<Rightarrow> ctx_tree option"
  and export_children ::
    "nat \<Rightarrow> (addr \<Rightarrow> 'cb process) \<Rightarrow> addr list \<Rightarrow> (string \<rightharpoonup> ctx_tree) \<Rightarrow> (string \<rightharpoonup> ctx_tree) option"
where
  "ExportContextTree 0 h a = None"
| "ExportContextTree (Suc n) h a =
     (let p = h a; status = State_String (State_code (p_state p))
      in if length (p_subs p) > 0
         then (case export_children n h (p_subs p) Map.empty of
                 None \<Rightarrow> None
               | Some children \<Rightarrow> Some (CtxTree (p_id p) status (Some children)))
         else Some (CtxTree (p_id p) status None))"
| "export_children n h [] children = Some children"
| "export_children n h (child # subs) children =
     (case ExportContextTree n h child of
        None \<Rightarrow> None
      | Some t \<Rightarrow> export_children n h subs (children(ContextLabel (h child) \<mapsto> t)))"

text \<open>
  The loop that takes a closed child out of \<^verbatim>\<open>subs\<close>. Removing element \<open>i\<close> shifts the rest down and
  shortens the slice, and the loop goes on at \<open>i + 1\<close> with the smaller \<open>N\<close>.
\<close>

function remove_loop :: "addr \<Rightarrow> nat \<Rightarrow> addr list \<Rightarrow> addr list" where
  "remove_loop child i subs =
     (if i < length subs
      then (if subs ! i = child then remove_loop child (i + 1) (take i subs @ drop (i + 1) subs)
            else remove_loop child (i + 1) subs)
      else subs)"
  by pat_completeness auto
termination
  by (relation "measure (\<lambda>(child, i, subs). length subs - i)") auto

declare remove_loop.simps [simp del]

section \<open>The threads\<close>

text \<open>The statements of \<^verbatim>\<open>Close\<close> inside \<^verbatim>\<open>closeOnce.Do\<close>, in order.\<close>

datatype close_pc =
    KState       \<comment> \<open>\<^verbatim>\<open>p.state = Closing\<close>\<close>
  | KSignal      \<comment> \<open>\<^verbatim>\<open>close(p.chClosing)\<close>\<close>
  | KOnClosing   \<comment> \<open>the callback \<^verbatim>\<open>OnClosing\<close>\<close>
  | KWait        \<comment> \<open>\<^verbatim>\<open>p.running.Wait()\<close>\<close>
  | KSetClosed   \<comment> \<open>\<^verbatim>\<open>p.state = Closed\<close>\<close>
  | KOnClosed    \<comment> \<open>the callback \<^verbatim>\<open>OnClosed\<close>\<close>
  | KDone        \<comment> \<open>\<^verbatim>\<open>close(p.chClosed)\<close>, after which \<^verbatim>\<open>Do\<close> returns\<close>

text \<open>
  Frames. In the frames of \<^verbatim>\<open>StartChild\<close> the flag says that the caller is \<^verbatim>\<open>Go\<close>, which goes on
  to run the client's function. \<open>Ret\<close> is the result of a finished call.
\<close>

datatype pc =
    SC_init "addr option" addr string bool  \<comment> \<open>\<^verbatim>\<open>child.OnContextInit(label)\<close>\<close>
  | SC_check addr addr bool                 \<comment> \<open>\<^verbatim>\<open>if p.state != Started\<close>\<close>
  | SC_append addr addr bool                \<comment> \<open>\<^verbatim>\<open>p.subs = append(p.subs, child)\<close>\<close>
  | SC_add addr addr bool                   \<comment> \<open>\<^verbatim>\<open>p.running.Add(1)\<close>\<close>
  | SC_go addr addr bool                    \<comment> \<open>\<^verbatim>\<open>go func() ...\<close>\<close>
  | SC_started addr bool                    \<comment> \<open>\<^verbatim>\<open>child.OnContextStarted()\<close>\<close>
  | SC_return addr bool "error option"      \<comment> \<open>\<^verbatim>\<open>StartChild\<close> returns\<close>
  | W_select addr addr                      \<comment> \<open>the watcher's \<^verbatim>\<open>select\<close>\<close>
  | W_done addr addr                        \<comment> \<open>\<^verbatim>\<open><-child.Done()\<close>\<close>
  | W_running_done addr addr                \<comment> \<open>\<^verbatim>\<open>p.running.Done()\<close>\<close>
  | W_remove addr addr                      \<comment> \<open>the loop over \<^verbatim>\<open>p.subs\<close>\<close>
  | C_enter addr                            \<comment> \<open>a call of \<^verbatim>\<open>Close\<close>\<close>
  | C_body close_pc addr                    \<comment> \<open>inside \<^verbatim>\<open>closeOnce.Do\<close>\<close>
  | A_wait addr                             \<comment> \<open>\<^verbatim>\<open>Autoclose\<close>: \<^verbatim>\<open>p.running.Wait()\<close>\<close>
  | G_run addr                              \<comment> \<open>\<^verbatim>\<open>Go\<close>: \<^verbatim>\<open>fn(child)\<close>\<close>
  | Ret "error option"

datatype phase = OnClosing | OnClosed

text \<open>
  The state of the whole program. \<open>birth\<close> and \<open>births\<close> record the order of the initialisations; the
  code has no such fields and no step reads them.
\<close>

record 'cb sys =
  heap :: "addr \<Rightarrow> 'cb process"
  gSpawnCounter :: uint64
  longestLabel :: nat
  calls :: "(addr \<times> phase \<times> 'cb) list"
  threads :: "pc list list"
  birth :: "addr \<Rightarrow> nat"
  births :: nat

definition upd :: "addr \<Rightarrow> ('cb process \<Rightarrow> 'cb process) \<Rightarrow> 'cb sys \<Rightarrow> 'cb sys" where
  "upd a f s = s\<lparr>heap := (heap s)(a := f (heap s a))\<rparr>"

definition OnContextInit :: "string \<Rightarrow> addr \<Rightarrow> 'cb sys \<Rightarrow> 'cb sys" where
  "OnContextInit label a s =
     (let p0 = process_zero\<lparr>p_state := Unstarted\<rparr>;
          (lbl, pid) = nextProcessLabel label (gSpawnCounter s);
          p1 = p0\<lparr>p_label := lbl, p_id := pid, p_chClosing := ChOpen, p_chClosed := ChOpen\<rparr>;
          (lg, longest) = NewLogger lbl (longestLabel s);
          p2 = p1\<lparr>p_Logger := Some lg, p_state := Started\<rparr>
      in s\<lparr>heap := (heap s)(a := p2), gSpawnCounter := pid, longestLabel := longest,
           birth := (birth s)(a := births s), births := births s + 1\<rparr>)"

text \<open>
  What is not determined by the state: which ready case a \<^verbatim>\<open>select\<close> takes, and the error that a
  client's overriding \<^verbatim>\<open>OnContextInit\<close> or \<^verbatim>\<open>OnContextStarted\<close> returns (\<^verbatim>\<open>Process\<close> itself returns \<^verbatim>\<open>nil\<close>).
\<close>

datatype choice = Pick bool | Hook "error option"

text \<open>A process that does not override it runs with \<open>Hook (Process_OnContextStarted p)\<close>.\<close>

definition Process_OnContextStarted :: "'cb process \<Rightarrow> error option" where
  "Process_OnContextStarted p = None"

fun hook :: "choice \<Rightarrow> error option" where
  "hook (Hook e) = e"
| "hook (Pick _) = None"

fun pick :: "choice \<Rightarrow> bool" where
  "pick (Pick b) = b"
| "pick (Hook _) = False"

text \<open>A step blocks, panics, or yields the new state, the frames that replace the top one, and the new goroutines.\<close>

datatype 'cb outcome = Blocks | Panics | Steps "'cb sys" "pc list" "pc list list"

fun close_exec :: "close_pc \<Rightarrow> addr \<Rightarrow> 'cb sys \<Rightarrow> 'cb outcome" where
  "close_exec KState a s = Steps (upd a (\<lambda>p. p\<lparr>p_state := Closing\<rparr>) s) [C_body KSignal a] []"
| "close_exec KSignal a s =
     (case chan_close (p_chClosing (heap s a)) of
        None \<Rightarrow> Panics
      | Some c \<Rightarrow> Steps (upd a (\<lambda>p. p\<lparr>p_chClosing := c\<rparr>) s) [C_body KOnClosing a] [])"
| "close_exec KOnClosing a s =
     (case p_OnClosing (heap s a) of
        None \<Rightarrow> Steps s [C_body KWait a] []
      | Some f \<Rightarrow> Steps (upd a (\<lambda>p. p\<lparr>p_OnClosing := None\<rparr>) (s\<lparr>calls := calls s @ [(a, OnClosing, f)]\<rparr>))
                   [C_body KWait a] [])"
| "close_exec KWait a s =
     (if p_running (heap s a) = 0 then Steps s [C_body KSetClosed a] [] else Blocks)"
| "close_exec KSetClosed a s =
     Steps (upd a (\<lambda>p. p\<lparr>p_state := Closed\<rparr>) s) [C_body KOnClosed a] []"
| "close_exec KOnClosed a s =
     (case p_OnClosed (heap s a) of
        None \<Rightarrow> Steps s [C_body KDone a] []
      | Some f \<Rightarrow> Steps (upd a (\<lambda>p. p\<lparr>p_OnClosed := None\<rparr>) (s\<lparr>calls := calls s @ [(a, OnClosed, f)]\<rparr>))
                   [C_body KDone a] [])"
| "close_exec KDone a s =
     (case chan_close (p_chClosed (heap s a)) of
        None \<Rightarrow> Panics
      | Some c \<Rightarrow> Steps (upd a (\<lambda>p. p\<lparr>p_chClosed := c, p_closeOnce := OnceDone\<rparr>) s) [] [])"

fun exec :: "choice \<Rightarrow> pc \<Rightarrow> 'cb sys \<Rightarrow> 'cb outcome" where
  "exec ch (SC_init par c label go) s =
     (let s' = OnContextInit label c s
      in case hook ch of
           Some e \<Rightarrow> Steps s' [C_enter c, SC_return c go (Some e)] []
         | None \<Rightarrow> Steps s' [case par of None \<Rightarrow> SC_started c go | Some p \<Rightarrow> SC_check p c go] [])"
| "exec ch (SC_check p c go) s =
     (if p_state (heap s p) \<noteq> Started then Steps s [SC_return c go (Some ErrUnstarted)] []
      else Steps s [SC_append p c go] [])"
| "exec ch (SC_append p c go) s =
     Steps (upd p (\<lambda>q. q\<lparr>p_subs := p_subs q @ [c]\<rparr>) s) [SC_add p c go] []"
| "exec ch (SC_add p c go) s =
     Steps (upd p (\<lambda>q. q\<lparr>p_running := p_running q + 1\<rparr>) s) [SC_go p c go] []"
| "exec ch (SC_go p c go) s = Steps s [SC_started c go] [[W_select p c]]"
| "exec ch (SC_started c go) s =
     (case hook ch of
        Some e \<Rightarrow> Steps s [C_enter c, SC_return c go (Some e)] []
      | None \<Rightarrow> Steps s [SC_return c go None] [])"
| "exec ch (SC_return c go err) s =
     Steps s [Ret err] (if go \<and> err = None then [[G_run c]] else [])"
| "exec ch (W_select p c) s =
     (if pick ch \<and> chan_ready (Closing_chan (heap s p)) then Steps s [C_enter c, W_done p c] []
      else if \<not> pick ch \<and> chan_ready (Closing_chan (heap s c)) then Steps s [W_done p c] []
      else Blocks)"
| "exec ch (W_done p c) s =
     (if chan_ready (Done_chan (heap s c)) then Steps s [W_running_done p c] [] else Blocks)"
| "exec ch (W_running_done p c) s =
     (if p_running (heap s p) - 1 < 0 then Panics
      else Steps (upd p (\<lambda>q. q\<lparr>p_running := p_running q - 1\<rparr>) s) [W_remove p c] [])"
| "exec ch (W_remove p c) s =
     Steps (upd p (\<lambda>q. q\<lparr>p_subs := remove_loop c 0 (p_subs q)\<rparr>) s) [] []"
| "exec ch (C_enter a) s =
     (case p_closeOnce (heap s a) of
        OnceNew \<Rightarrow> Steps (upd a (\<lambda>p. p\<lparr>p_closeOnce := OnceRunning\<rparr>) s) [C_body KState a] []
      | OnceRunning \<Rightarrow> Blocks
      | OnceDone \<Rightarrow> Steps s [] [])"
| "exec ch (C_body k a) s = close_exec k a s"
| "exec ch (A_wait a) s =
     (if p_running (heap s a) = 0 then Steps s [C_enter a] [] else Blocks)"
| "exec ch (G_run c) s = Steps s [C_enter c] []"
| "exec ch (Ret err) s = Blocks"

section \<open>The step relation\<close>

text \<open>The addresses a frame mentions, and those of all threads.\<close>

fun pc_addrs :: "pc \<Rightarrow> addr set" where
  "pc_addrs (SC_init par c _ _) = insert c (set_option par)"
| "pc_addrs (SC_check p c _) = {p, c}"
| "pc_addrs (SC_append p c _) = {p, c}"
| "pc_addrs (SC_add p c _) = {p, c}"
| "pc_addrs (SC_go p c _) = {p, c}"
| "pc_addrs (SC_started c _) = {c}"
| "pc_addrs (SC_return c _ _) = {c}"
| "pc_addrs (W_select p c) = {p, c}"
| "pc_addrs (W_done p c) = {p, c}"
| "pc_addrs (W_running_done p c) = {p, c}"
| "pc_addrs (W_remove p c) = {p, c}"
| "pc_addrs (C_enter a) = {a}"
| "pc_addrs (C_body _ a) = {a}"
| "pc_addrs (A_wait a) = {a}"
| "pc_addrs (G_run c) = {c}"
| "pc_addrs (Ret _) = {}"

definition frames :: "'cb sys \<Rightarrow> pc multiset" where
  "frames s = mset (concat (threads s))"

text \<open>An address that was never started: its \<^verbatim>\<open>Process\<close> is the zero value and no thread knows it.\<close>

definition unused :: "addr \<Rightarrow> 'cb sys \<Rightarrow> bool" where
  "unused a s \<longleftrightarrow> p_state (heap s a) = Unstarted \<and> (\<forall>f \<in># frames s. a \<notin> pc_addrs f)"

definition started :: "addr \<Rightarrow> 'cb sys \<Rightarrow> bool" where
  "started a s \<longleftrightarrow> p_state (heap s a) \<noteq> Unstarted"

text \<open>
  What client code may do at any time: start a fresh context as a root or under a started parent, with
  \<^verbatim>\<open>Go\<close> or without, call \<^verbatim>\<open>Close\<close> or \<^verbatim>\<open>Autoclose\<close> of a started one, set its callbacks while
  it runs. A context is started once: no \<^verbatim>\<open>Process\<close> is used again.
\<close>

inductive client_step :: "'cb sys \<Rightarrow> 'cb sys \<Rightarrow> bool" where
  client_root: "unused c s \<Longrightarrow>
     client_step s (s\<lparr>threads := threads s @ [[SC_init None c label go]]\<rparr>)"
| client_child: "unused c s \<Longrightarrow> started p s \<Longrightarrow>
     client_step s (s\<lparr>threads := threads s @ [[SC_init (Some p) c label go]]\<rparr>)"
| client_close: "started a s \<Longrightarrow> client_step s (s\<lparr>threads := threads s @ [[C_enter a]]\<rparr>)"
| client_autoclose: "started a s \<Longrightarrow> client_step s (s\<lparr>threads := threads s @ [[A_wait a]]\<rparr>)"
| client_on_closing: "p_state (heap s a) = Started \<Longrightarrow>
     client_step s (upd a (\<lambda>p. p\<lparr>p_OnClosing := cb\<rparr>) s)"
| client_on_closed: "p_state (heap s a) = Started \<Longrightarrow>
     client_step s (upd a (\<lambda>p. p\<lparr>p_OnClosed := cb\<rparr>) s)"

text \<open>
  One step of thread \<open>i\<close>. With \<open>ordered\<close>, \<^verbatim>\<open>Close\<close> of a process does not begin while a \<^verbatim>\<open>StartChild\<close>
  on it is between its check of the state and the start of the watcher; the code does not ensure
  this, so \<open>ordered\<close> runs are those where the race does not happen.
\<close>

fun attaching :: "addr \<Rightarrow> pc \<Rightarrow> bool" where
  "attaching p (SC_append q _ _) \<longleftrightarrow> q = p"
| "attaching p (SC_add q _ _) \<longleftrightarrow> q = p"
| "attaching p (SC_go q _ _) \<longleftrightarrow> q = p"
| "attaching p _ \<longleftrightarrow> False"

fun begins_close :: "pc \<Rightarrow> addr option" where
  "begins_close (C_body KState a) = Some a"
| "begins_close _ = None"

definition in_order :: "pc \<Rightarrow> 'cb sys \<Rightarrow> bool" where
  "in_order f s \<longleftrightarrow> (case begins_close f of None \<Rightarrow> True
                     | Some p \<Rightarrow> (\<forall>g \<in># frames s. \<not> attaching p g))"

inductive thread_step :: "bool \<Rightarrow> pc \<Rightarrow> 'cb sys \<Rightarrow> 'cb sys \<Rightarrow> bool" where
  thread_stepI: "i < length (threads s) \<Longrightarrow> threads s ! i = f # rest \<Longrightarrow>
     exec ch f s = Steps s' new spawned \<Longrightarrow> ordered \<longrightarrow> in_order f s \<Longrightarrow>
     thread_step ordered f s (s'\<lparr>threads := (threads s')[i := new @ rest] @ spawned\<rparr>)"

definition proc_step :: "bool \<Rightarrow> 'cb sys \<Rightarrow> 'cb sys \<Rightarrow> bool" where
  "proc_step ordered s t \<longleftrightarrow> client_step s t \<or> (\<exists>f. thread_step ordered f s t)"

definition proc_init :: "'cb sys \<Rightarrow> bool" where
  "proc_init s \<longleftrightarrow> heap s = (\<lambda>_. process_zero) \<and> gSpawnCounter s = 0 \<and> longestLabel s = 0
     \<and> calls s = [] \<and> threads s = [] \<and> births s = 0"

text \<open>A panic is possible when some thread's next step panics.\<close>

definition can_panic :: "'cb sys \<Rightarrow> bool" where
  "can_panic s \<longleftrightarrow> (\<exists>i f rest ch. i < length (threads s) \<and> threads s ! i = f # rest \<and> exec ch f s = Panics)"

end
