(* ===== verification/Cedar_Process_Inv.thy ===== *)
theory Cedar_Process_Inv
  imports Cedar_Process
begin

text \<open>
  The invariant of the process tree and what follows from it. The threads are summed up by the
  multiset \<open>frames s\<close>; each clause of the invariant relates a field of a process to a sum over the
  frames, so that a step, which takes one frame out and puts some in, changes both sides alike.
\<close>

section \<open>What a frame contributes\<close>

fun closer :: "addr \<Rightarrow> pc \<Rightarrow> close_pc multiset" where
  "closer a (C_body k b) = (if b = a then {#k#} else {#})"
| "closer a _ = {#}"

text \<open>Frames that hold a count of \<^verbatim>\<open>p.running\<close>.\<close>

fun holds :: "addr \<Rightarrow> pc \<Rightarrow> nat" where
  "holds p (SC_go q _ _) = of_bool (q = p)"
| "holds p (W_select q _) = of_bool (q = p)"
| "holds p (W_done q _) = of_bool (q = p)"
| "holds p (W_running_done q _) = of_bool (q = p)"
| "holds p _ = 0"

text \<open>Frames whose child is in \<^verbatim>\<open>p.subs\<close>.\<close>

fun listed :: "addr \<Rightarrow> pc \<Rightarrow> addr multiset" where
  "listed p (SC_add q c _) = (if q = p then {#c#} else {#})"
| "listed p (SC_go q c _) = (if q = p then {#c#} else {#})"
| "listed p (W_select q c) = (if q = p then {#c#} else {#})"
| "listed p (W_done q c) = (if q = p then {#c#} else {#})"
| "listed p (W_running_done q c) = (if q = p then {#c#} else {#})"
| "listed p (W_remove q c) = (if q = p then {#c#} else {#})"
| "listed p _ = {#}"

text \<open>Frames that bring \<open>c\<close> up or watch it as a child.\<close>

fun minds :: "addr \<Rightarrow> pc \<Rightarrow> nat" where
  "minds c (SC_init _ d _ _) = of_bool (d = c)"
| "minds c (SC_check _ d _) = of_bool (d = c)"
| "minds c (SC_append _ d _) = of_bool (d = c)"
| "minds c (SC_add _ d _) = of_bool (d = c)"
| "minds c (SC_go _ d _) = of_bool (d = c)"
| "minds c (W_select _ d) = of_bool (d = c)"
| "minds c (W_done _ d) = of_bool (d = c)"
| "minds c (W_running_done _ d) = of_bool (d = c)"
| "minds c (W_remove _ d) = of_bool (d = c)"
| "minds c _ = 0"

fun family :: "pc \<Rightarrow> (addr \<times> addr) option" where
  "family (SC_check p c _) = Some (p, c)"
| "family (SC_append p c _) = Some (p, c)"
| "family (SC_add p c _) = Some (p, c)"
| "family (SC_go p c _) = Some (p, c)"
| "family (W_select p c) = Some (p, c)"
| "family (W_done p c) = Some (p, c)"
| "family (W_running_done p c) = Some (p, c)"
| "family (W_remove p c) = Some (p, c)"
| "family _ = None"

fun past_done :: "pc \<Rightarrow> addr option" where
  "past_done (W_running_done _ c) = Some c"
| "past_done (W_remove _ c) = Some c"
| "past_done _ = None"

fun newborn :: "pc \<Rightarrow> addr option" where
  "newborn (SC_init _ c _ _) = Some c"
| "newborn _ = None"

text \<open>Sums over frames.\<close>

definition tally :: "(pc \<Rightarrow> 'b::comm_monoid_add) \<Rightarrow> pc multiset \<Rightarrow> 'b" where
  "tally g F = (\<Sum>f \<in># F. g f)"

lemma tally_simps [simp]:
  "tally g {#} = 0" "tally g (add_mset f F) = g f + tally g F" "tally g (F + G) = tally g F + tally g G"
  by (simp_all add: tally_def)

lemma tally_zero: "(\<And>f. f \<in># F \<Longrightarrow> g f = 0) \<Longrightarrow> tally g F = 0"
  by (induction F) auto

fun other_parent :: "pc \<Rightarrow> bool" where
  "other_parent (SC_init par c _ _) \<longleftrightarrow> par \<noteq> Some c"
| "other_parent _ \<longleftrightarrow> True"

section \<open>The invariant\<close>

fun phase_ok :: "close_pc \<Rightarrow> 'cb process \<Rightarrow> bool" where
  "phase_ok KState p \<longleftrightarrow> p_state p = Started \<and> p_chClosing p = ChOpen \<and> p_chClosed p = ChOpen"
| "phase_ok KSignal p \<longleftrightarrow> p_state p = Closing \<and> p_chClosing p = ChOpen \<and> p_chClosed p = ChOpen"
| "phase_ok KOnClosing p \<longleftrightarrow> p_state p = Closing \<and> p_chClosing p = ChClosed \<and> p_chClosed p = ChOpen"
| "phase_ok KWait p \<longleftrightarrow> p_state p = Closing \<and> p_chClosing p = ChClosed \<and> p_chClosed p = ChOpen"
| "phase_ok KSetClosed p \<longleftrightarrow> p_state p = Closing \<and> p_chClosing p = ChClosed \<and> p_chClosed p = ChOpen"
| "phase_ok KOnClosed p \<longleftrightarrow> p_state p = Closed \<and> p_chClosing p = ChClosed \<and> p_chClosed p = ChOpen"
| "phase_ok KDone p \<longleftrightarrow> p_state p = Closed \<and> p_chClosing p = ChClosed \<and> p_chClosed p = ChOpen"

definition close_ok :: "'cb process \<Rightarrow> close_pc multiset \<Rightarrow> bool" where
  "close_ok p K \<longleftrightarrow>
     (case p_closeOnce p of
        OnceNew \<Rightarrow> K = {#} \<and>
          (p_state p = Unstarted \<and> p_chClosing p = ChNil \<and> p_chClosed p = ChNil
           \<or> p_state p = Started \<and> p_chClosing p = ChOpen \<and> p_chClosed p = ChOpen)
      | OnceRunning \<Rightarrow> (\<exists>k. K = {#k#} \<and> phase_ok k p)
      | OnceDone \<Rightarrow> K = {#} \<and> p_state p = Closed \<and> p_chClosing p = ChClosed \<and> p_chClosed p = ChClosed)"

definition frame_ok :: "'cb sys \<Rightarrow> pc \<Rightarrow> bool" where
  "frame_ok s f \<longleftrightarrow>
     other_parent f \<and> (\<forall>a \<in> pc_addrs f. started a s \<longleftrightarrow> newborn f \<noteq> Some a)
     \<and> (\<forall>p c. family f = Some (p, c) \<longrightarrow> birth s p < birth s c)
     \<and> (\<forall>c. past_done f = Some c \<longrightarrow> p_chClosed (heap s c) = ChClosed)"

definition labelled :: "'cb process \<Rightarrow> bool" where
  "labelled p \<longleftrightarrow> (\<exists>base. p_label p = base @ '' #'' @ int64_text (p_id p))"

definition ids_ok :: "'cb sys \<Rightarrow> bool" where
  "ids_ok s \<longleftrightarrow> gSpawnCounter s = of_nat (births s)
     \<and> (\<forall>a. started a s \<longrightarrow> birth s a < births s \<and> p_id (heap s a) = of_nat (birth s a + 1)
              \<and> labelled (heap s a))
     \<and> inj_on (birth s) {a. started a s}"

definition closing_ok :: "'cb sys \<Rightarrow> pc multiset \<Rightarrow> bool" where
  "closing_ok s F \<longleftrightarrow> (\<forall>a. close_ok (heap s a) (tally (closer a) F))"

definition running_ok :: "'cb sys \<Rightarrow> pc multiset \<Rightarrow> bool" where
  "running_ok s F \<longleftrightarrow> (\<forall>p. p_running (heap s p) = int (tally (holds p) F))"

definition subs_ok :: "'cb sys \<Rightarrow> pc multiset \<Rightarrow> bool" where
  "subs_ok s F \<longleftrightarrow> (\<forall>p. mset (p_subs (heap s p)) = tally (listed p) F)"

definition minds_ok :: "pc multiset \<Rightarrow> bool" where
  "minds_ok F \<longleftrightarrow> (\<forall>c. tally (minds c) F \<le> 1)"

definition frames_ok :: "'cb sys \<Rightarrow> pc multiset \<Rightarrow> bool" where
  "frames_ok s F \<longleftrightarrow> (\<forall>f \<in># F. frame_ok s f)"

definition proc_inv :: "'cb sys \<Rightarrow> pc multiset \<Rightarrow> bool" where
  "proc_inv s F \<longleftrightarrow> closing_ok s F \<and> running_ok s F \<and> subs_ok s F \<and> minds_ok F \<and> frames_ok s F \<and> ids_ok s"

lemmas proc_inv_defs [go_inv] =
  proc_inv_def closing_ok_def running_ok_def subs_ok_def minds_ok_def frames_ok_def

section \<open>A step takes one frame out and puts some in\<close>

lemma close_exec_threads: "close_exec k a s = Steps s' new sp \<Longrightarrow> threads s' = threads s"
  by (cases k) (auto simp: upd_def split: option.splits if_splits)

lemma OnContextInit_threads [simp]: "threads (OnContextInit l a s) = threads s"
  by (simp add: OnContextInit_def Let_def split_beta)

lemma exec_threads: "exec ch f s = Steps s' new sp \<Longrightarrow> threads s' = threads s"
  by (cases f) (auto simp: Let_def upd_def dest: close_exec_threads split: option.splits if_splits once.splits)

lemma frames_step:
  assumes "i < length (threads s)" and "threads s ! i = f # rest"
  obtains R where "frames s = add_mset f R"
    and "frames (s'\<lparr>threads := (threads s)[i := new @ rest] @ sp\<rparr>) = R + (mset new + mset (concat sp))"
proof -
  have "mset (f # rest) \<subseteq># frames s"
    using mset_concat_nth_le [OF assms(1)] assms(2) by (simp add: frames_def)
  then obtain R0 where R0: "frames s = add_mset f (mset rest + R0)"
    by (auto simp: subset_mset.le_iff_add)
  have "frames (s'\<lparr>threads := (threads s)[i := new @ rest] @ sp\<rparr>) + mset (f # rest)
      = frames s + (mset new + mset rest) + mset (concat sp)"
    using mset_concat_update [OF assms(1), of "new @ rest"] assms(2) by (simp add: frames_def)
  with R0 have "frames (s'\<lparr>threads := (threads s)[i := new @ rest] @ sp\<rparr>)
      = (mset rest + R0) + (mset new + mset (concat sp))"
    by simp
  with R0 show thesis by (rule that)
qed

section \<open>Preservation by a thread's step\<close>

lemma heap_upd: "heap (upd a g s) b = (if b = a then g (heap s a) else heap s b)"
  by (simp add: upd_def)

lemma heap_upd_simps [simp]:
  "heap (upd a g s) a = g (heap s a)"
  "b \<noteq> a \<Longrightarrow> heap (upd a g s) b = heap s b"
  by (simp_all add: upd_def)

lemma OnContextInit_self [simp]:
  "p_state (heap (OnContextInit l c s) c) = Started"
  "p_closeOnce (heap (OnContextInit l c s) c) = OnceNew"
  "p_chClosing (heap (OnContextInit l c s) c) = ChOpen"
  "p_chClosed (heap (OnContextInit l c s) c) = ChOpen"
  "p_running (heap (OnContextInit l c s) c) = 0"
  "p_subs (heap (OnContextInit l c s) c) = []"
  "p_id (heap (OnContextInit l c s) c) = gSpawnCounter s + 1"
  "p_label (heap (OnContextInit l c s) c) = l @ '' #'' @ int64_text (gSpawnCounter s + 1)"
  by (simp_all add: OnContextInit_def Let_def split_beta process_zero_def nextProcessLabel_def)

lemma OnContextInit_other [simp]: "b \<noteq> c \<Longrightarrow> heap (OnContextInit l c s) b = heap s b"
  by (simp add: OnContextInit_def Let_def split_beta)

lemma OnContextInit_global [simp]:
  "gSpawnCounter (OnContextInit l c s) = gSpawnCounter s + 1"
  "birth (OnContextInit l c s) = (birth s)(c := births s)"
  "births (OnContextInit l c s) = births s + 1"
  "calls (OnContextInit l c s) = calls s"
  by (simp_all add: OnContextInit_def Let_def split_beta nextProcessLabel_def)

lemma upd_fields [simp]:
  "gSpawnCounter (upd a g s) = gSpawnCounter s" "birth (upd a g s) = birth s"
  "births (upd a g s) = births s" "threads (upd a g s) = threads s" "calls (upd a g s) = calls s"
  by (simp_all add: upd_def)

lemma close_ok_frame [simp]:
  "close_ok (p\<lparr>p_subs := xs\<rparr>) K = close_ok p K"
  "close_ok (p\<lparr>p_running := n\<rparr>) K = close_ok p K"
  "close_ok (p\<lparr>p_OnClosing := cb\<rparr>) K = close_ok p K"
  "close_ok (p\<lparr>p_OnClosed := cb\<rparr>) K = close_ok p K"
proof -
  have "phase_ok k (p\<lparr>p_subs := xs\<rparr>) = phase_ok k p" "phase_ok k (p\<lparr>p_running := n\<rparr>) = phase_ok k p"
    "phase_ok k (p\<lparr>p_OnClosing := cb\<rparr>) = phase_ok k p" "phase_ok k (p\<lparr>p_OnClosed := cb\<rparr>) = phase_ok k p" for k
    by (cases k; simp)+
  then show "close_ok (p\<lparr>p_subs := xs\<rparr>) K = close_ok p K"
    "close_ok (p\<lparr>p_running := n\<rparr>) K = close_ok p K"
    "close_ok (p\<lparr>p_OnClosing := cb\<rparr>) K = close_ok p K"
    "close_ok (p\<lparr>p_OnClosed := cb\<rparr>) K = close_ok p K"
    by (simp_all add: close_ok_def split: once.splits)
qed

lemma close_ok_body: "close_ok p (add_mset k K) \<Longrightarrow> K = {#} \<and> p_closeOnce p = OnceRunning \<and> phase_ok k p"
  by (auto simp: close_ok_def split: once.splits)

lemma close_ok_running: "p_closeOnce p = OnceRunning \<Longrightarrow> close_ok p {#k#} = phase_ok k p"
  by (auto simp: close_ok_def)

lemma close_ok_unstarted: "close_ok p K \<Longrightarrow> p_state p = Unstarted \<Longrightarrow> K = {#} \<and> p_closeOnce p = OnceNew"
proof -
  have "phase_ok k p \<Longrightarrow> p_state p \<noteq> Unstarted" for k
    by (cases k) auto
  then show "close_ok p K \<Longrightarrow> p_state p = Unstarted \<Longrightarrow> K = {#} \<and> p_closeOnce p = OnceNew"
    by (auto simp: close_ok_def split: once.splits)
qed

lemma close_ok_unstarted_nil:
  "close_ok p K \<Longrightarrow> p_state p = Unstarted \<Longrightarrow> p_chClosing p = ChNil \<and> p_chClosed p = ChNil"
  by (frule (1) close_ok_unstarted) (auto simp: close_ok_def)

lemma close_exec_closing:
  assumes "closing_ok s (add_mset (C_body k a) R)" and "close_exec k a s = Steps s' new sp"
  shows "closing_ok s' (R + (mset new + mset (concat sp)))"
  unfolding closing_ok_def
proof
  fix b
  have a: "close_ok (heap s a) (add_mset k (tally (closer a) R))"
    and b: "b \<noteq> a \<Longrightarrow> close_ok (heap s b) (tally (closer b) R)"
    using assms(1) by (auto simp: closing_ok_def dest: spec [of _ a] spec [of _ b])
  show "close_ok (heap s' b) (tally (closer b) (R + (mset new + mset (concat sp))))"
  proof (cases "b = a")
    case True
    with close_ok_body [OF a] assms(2) show ?thesis
      by (cases k) (auto simp: close_ok_def split: option.splits if_splits)
  next
    case False
    with b assms(2) show ?thesis
      by (cases k) (auto split: option.splits if_splits)
  qed
qed

lemma exec_closing:
  assumes "closing_ok s (add_mset f R)" and "frame_ok s f" and "exec ch f s = Steps s' new sp"
  shows "closing_ok s' (R + (mset new + mset (concat sp)))"
proof (cases f)
  case (C_body k a)
  with assms close_exec_closing show ?thesis by simp
next
  case (C_enter a)
  have "close_ok (heap s b) (tally (closer b) R)" for b
    using assms(1) C_enter by (simp add: closing_ok_def)
  note ok = this
  have "p_state (heap s a) \<noteq> Unstarted"
    using assms(2) C_enter by (simp add: frame_ok_def started_def)
  with ok [of a] have new: "p_closeOnce (heap s a) = OnceNew \<Longrightarrow>
      tally (closer a) R = {#} \<and> phase_ok KState (heap s a)"
    by (auto simp: close_ok_def)
  show ?thesis
    unfolding closing_ok_def
  proof
    fix b
    show "close_ok (heap s' b) (tally (closer b) (R + (mset new + mset (concat sp))))"
      using assms(3) C_enter new ok [of b]
      by (cases "b = a") (auto simp: close_ok_running split: once.splits)
  qed
next
  case (SC_init par c label go)
  have ok: "close_ok (heap s b) (tally (closer b) R)" for b
    using assms(1) SC_init by (simp add: closing_ok_def)
  moreover have "tally (closer c) R = {#}"
    using close_ok_unstarted [OF ok [of c]] assms(2) SC_init by (auto simp: frame_ok_def started_def)
  ultimately have "close_ok (heap (OnContextInit label c s) b) (tally (closer b) R)" for b
    using ok [of b] by (cases "b = c") (auto simp: close_ok_def)
  then show ?thesis
    using assms(3) SC_init by (auto simp: closing_ok_def Let_def split: option.splits)
qed (use assms in \<open>auto simp: closing_ok_def heap_upd split: option.splits if_splits\<close>)

subsection \<open>The counter of running children\<close>

lemma unstarted_holds:
  "frames_ok s F \<Longrightarrow> \<not> started c s \<Longrightarrow> tally (holds c) F = 0"
proof (rule tally_zero)
  fix f assume "frames_ok s F" "\<not> started c s" "f \<in># F"
  then show "holds c f = 0" by (cases f) (auto simp: frames_ok_def frame_ok_def)
qed

lemma unstarted_listed:
  "frames_ok s F \<Longrightarrow> \<not> started c s \<Longrightarrow> tally (listed c) F = {#}"
  unfolding zero_multiset_def [symmetric]
proof (rule tally_zero)
  fix f assume "frames_ok s F" "\<not> started c s" "f \<in># F"
  then show "listed c f = 0" by (cases f) (auto simp: frames_ok_def frame_ok_def)
qed

lemma close_exec_keeps:
  "close_exec k a s = Steps s' new sp \<Longrightarrow> p_running (heap s' b) = p_running (heap s b)
     \<and> p_subs (heap s' b) = p_subs (heap s b) \<and> p_id (heap s' b) = p_id (heap s b)
     \<and> p_label (heap s' b) = p_label (heap s b)
     \<and> birth s' = birth s \<and> births s' = births s \<and> gSpawnCounter s' = gSpawnCounter s
     \<and> sp = [] \<and> (new = [] \<or> (\<exists>k'. new = [C_body k' a]))"
  by (cases k; cases "b = a") (auto split: option.splits if_splits)

lemma exec_running:
  assumes "running_ok s (add_mset f R)" and "frames_ok s (add_mset f R)" and "exec ch f s = Steps s' new sp"
  shows "running_ok s' (R + (mset new + mset (concat sp)))"
proof (cases f)
  case (C_body k a)
  with assms show ?thesis
    using close_exec_keeps [of k a s s' new sp] by (fastforce simp: running_ok_def)
next
  case (SC_init par c label go)
  have "tally (holds c) R = 0"
    using assms(2) SC_init by (intro unstarted_holds [of s]) (auto simp: frames_ok_def frame_ok_def)
  moreover have "p_running (heap s b) = int (tally (holds b) R)" for b
    using assms(1) SC_init by (simp add: running_ok_def)
  ultimately have "p_running (heap (OnContextInit label c s) b) = int (tally (holds b) R)" for b
    by (cases "b = c") auto
  then show ?thesis
    using assms(3) SC_init by (auto simp: running_ok_def Let_def split: option.splits)
qed (use assms in \<open>auto simp: running_ok_def heap_upd split: option.splits if_splits once.splits\<close>)

subsection \<open>The list of children\<close>

lemma remove_loop_absent: "child \<notin> set (drop i subs) \<Longrightarrow> remove_loop child i subs = subs"
proof (induction child i subs rule: remove_loop.induct)
  case (1 child i subs)
  show ?case
  proof (cases "i < length subs")
    case True
    then have "drop i subs = subs ! i # drop (i + 1) subs"
      by (simp add: Cons_nth_drop_Suc)
    with 1 True show ?thesis
      by (subst remove_loop.simps) auto
  qed (subst remove_loop.simps, simp)
qed

lemma remove_loop_distinct:
  "distinct (drop i subs) \<Longrightarrow> remove_loop child i subs = take i subs @ remove1 child (drop i subs)"
proof (induction child i subs rule: remove_loop.induct)
  case (1 child i subs)
  show ?case
  proof (cases "i < length subs")
    case True
    then have split: "drop i subs = subs ! i # drop (i + 1) subs"
      by (simp add: Cons_nth_drop_Suc)
    show ?thesis
    proof (cases "subs ! i = child")
      case eq: True
      have "child \<notin> set (drop (i + 1) (take i subs @ drop (i + 1) subs))"
        using "1.prems" split eq True
        by (auto simp: min_def simp flip: drop_drop dest!: in_set_dropD)
      with True eq split show ?thesis
        by (subst remove_loop.simps) (simp add: remove_loop_absent)
    next
      case False
      with 1 True split show ?thesis
        by (subst remove_loop.simps) (auto simp: take_Suc_conv_app_nth)
    qed
  qed (subst remove_loop.simps, simp)
qed

lemma mset_remove_loop: "distinct subs \<Longrightarrow> mset (remove_loop child 0 subs) = mset subs - {#child#}"
  by (simp add: remove_loop_distinct)

lemma listed_minds: "count (tally (listed p) F) c \<le> tally (minds c) F"
proof (induction F)
  case (add f F)
  have "count (listed p f) c \<le> minds c f"
    by (cases f) auto
  with add show ?case by simp
qed simp

lemma subs_distinct:
  assumes "subs_ok s F" and "minds_ok F"
  shows "distinct (p_subs (heap s p))"
proof -
  have "count (mset (p_subs (heap s p))) c \<le> 1" for c
    using assms listed_minds [of p F c] by (auto simp: subs_ok_def minds_ok_def intro: le_trans)
  then show ?thesis
    unfolding distinct_count_atmost_1
    by (metis One_nat_def count_mset_0_iff le_Suc_eq le_zero_eq)
qed

lemma exec_subs:
  assumes "subs_ok s (add_mset f R)" and "minds_ok (add_mset f R)" and "frames_ok s (add_mset f R)"
    and "exec ch f s = Steps s' new sp"
  shows "subs_ok s' (R + (mset new + mset (concat sp)))"
proof (cases f)
  case (C_body k a)
  with assms show ?thesis
    using close_exec_keeps [of k a s s' new sp] by (fastforce simp: subs_ok_def)
next
  case (SC_init par c label go)
  have "tally (listed c) R = {#}"
    using assms(3) SC_init by (intro unstarted_listed [of s]) (auto simp: frames_ok_def frame_ok_def)
  moreover have "mset (p_subs (heap s b)) = tally (listed b) R" for b
    using assms(1) SC_init by (simp add: subs_ok_def)
  ultimately have "mset (p_subs (heap (OnContextInit label c s) b)) = tally (listed b) R" for b
    by (cases "b = c") auto
  then show ?thesis
    using assms(4) SC_init by (auto simp: subs_ok_def Let_def split: option.splits)
next
  case (W_remove p c)
  with assms show ?thesis
    using mset_remove_loop [OF subs_distinct [OF assms(1,2), of p], of c]
    by (auto simp: subs_ok_def heap_upd)
qed (use assms in \<open>auto simp: subs_ok_def heap_upd split: option.splits if_splits once.splits\<close>)

subsection \<open>Who minds a child\<close>

lemma exec_minds_le:
  "exec ch f s = Steps s' new sp \<Longrightarrow> tally (minds c) (mset new + mset (concat sp)) \<le> minds c f"
  by (cases f) (auto simp: Let_def dest!: close_exec_keeps split: option.splits if_splits once.splits)

lemma exec_minds:
  assumes "minds_ok (add_mset f R)" and "exec ch f s = Steps s' new sp"
  shows "minds_ok (R + (mset new + mset (concat sp)))"
  unfolding minds_ok_def
proof
  fix c
  from assms(1) have "minds c f + tally (minds c) R \<le> 1"
    by (simp add: minds_ok_def)
  with exec_minds_le [OF assms(2), of c] show "tally (minds c) (R + (mset new + mset (concat sp))) \<le> 1"
    by simp
qed

lemma minds_in: "f \<in># F \<Longrightarrow> minds c f \<le> tally (minds c) F"
  by (induction F) auto

subsection \<open>The frames and the identities\<close>

lemma close_exec_started: "close_exec k a s = Steps s' new sp \<Longrightarrow> started b s \<Longrightarrow> started b s'"
  by (cases k; cases "b = a") (auto simp: started_def split: option.splits if_splits)

lemma close_exec_started_back:
  "close_exec k a s = Steps s' new sp \<Longrightarrow> started a s \<Longrightarrow> started b s' \<Longrightarrow> started b s"
  by (cases k; cases "b = a") (auto simp: started_def split: option.splits if_splits)

lemma exec_started: "exec ch f s = Steps s' new sp \<Longrightarrow> started b s \<Longrightarrow> started b s'"
  by (cases f)
    (auto simp: started_def heap_upd Let_def OnContextInit_def split_beta
      dest: close_exec_started [unfolded started_def] split: option.splits if_splits once.splits)

lemma exec_started_back:
  assumes "exec ch f s = Steps s' new sp" and "frame_ok s f" and "started b s'" and "newborn f \<noteq> Some b"
  shows "started b s"
proof (cases f)
  case (C_body k a)
  with assms show ?thesis
    by (auto simp: frame_ok_def intro: close_exec_started_back)
next
  case (SC_init par c label go)
  with assms show ?thesis
    by (auto simp: started_def Let_def split: option.splits)
qed (use assms in \<open>auto simp: started_def heap_upd split: option.splits if_splits once.splits\<close>)

lemma exec_birth:
  "exec ch f s = Steps s' new sp \<Longrightarrow> newborn f \<noteq> Some b \<Longrightarrow> birth s' b = birth s b"
  by (cases f) (auto simp: Let_def dest!: close_exec_keeps split: option.splits if_splits once.splits)

lemma close_exec_closed:
  "close_exec k a s = Steps s' new sp \<Longrightarrow> p_chClosed (heap s c) = ChClosed \<Longrightarrow>
     p_chClosed (heap s' c) = ChClosed"
  by (cases k; cases "c = a") (auto split: option.splits if_splits)

lemma exec_closed:
  assumes "exec ch f s = Steps s' new sp" and "p_chClosed (heap s c) = ChClosed" and "newborn f \<noteq> Some c"
  shows "p_chClosed (heap s' c) = ChClosed"
proof (cases f)
  case (C_body k a)
  with assms show ?thesis by (auto intro: close_exec_closed)
qed (use assms in \<open>auto simp: heap_upd Let_def split: option.splits if_splits once.splits\<close>)

lemma frame_ok_kept:
  assumes g: "frame_ok s g" and f: "frame_ok s f" and minds: "minds_ok (add_mset f (add_mset g R))"
    and step: "exec ch f s = Steps s' new sp"
  shows "frame_ok s' g"
proof -
  have other: "newborn f \<noteq> Some a" if "a \<in> pc_addrs g" for a
  proof
    assume new: "newborn f = Some a"
    then have "minds a f = 1" and "a \<in> pc_addrs f"
      by (cases f; simp)+
    with minds have "minds a g = 0"
      by (auto simp: minds_ok_def dest: spec [of _ a])
    moreover have "newborn g = Some a"
      using new that f g \<open>a \<in> pc_addrs f\<close> by (auto simp: frame_ok_def)
    ultimately show False by (cases g) auto
  qed
  have "started a s' \<longleftrightarrow> started a s" if "a \<in> pc_addrs g" for a
    using exec_started [OF step] exec_started_back [OF step f] other [OF that] by blast
  moreover have "birth s' a = birth s a" if "a \<in> pc_addrs g" for a
    using exec_birth [OF step] other [OF that] by blast
  moreover have "family g = Some (p, c) \<Longrightarrow> p \<in> pc_addrs g \<and> c \<in> pc_addrs g" for p c
    by (cases g) auto
  moreover have "past_done g = Some c \<Longrightarrow> c \<in> pc_addrs g" for c
    by (cases g) auto
  ultimately show ?thesis
    using g exec_closed [OF step] other by (auto simp: frame_ok_def)
qed

lemma frame_ok_new:
  assumes f: "frame_ok s f" and ids: "ids_ok s" and step: "exec ch f s = Steps s' new sp"
    and g: "g \<in># mset new + mset (concat sp)"
  shows "frame_ok s' g"
proof (cases f)
  case (C_body k a)
  with step g obtain k' where "g = C_body k' a"
    using close_exec_keeps [of k a s s' new sp a] by auto
  with C_body f step close_exec_started [of k a s s' new sp a] show ?thesis
    by (simp add: frame_ok_def)
next
  case (SC_init par c label go)
  with f step g ids show ?thesis
    by (auto simp: frame_ok_def ids_ok_def started_def Let_def split: option.splits)
qed (use f step g in \<open>auto simp: frame_ok_def started_def heap_upd Closing_chan_def Done_chan_def chan_ready_def
      split: option.splits if_splits once.splits\<close>)

lemma exec_frames:
  assumes "frames_ok s (add_mset f R)" and "minds_ok (add_mset f R)" and "ids_ok s"
    and step: "exec ch f s = Steps s' new sp"
  shows "frames_ok s' (R + (mset new + mset (concat sp)))"
  unfolding frames_ok_def
proof
  fix g assume "g \<in># R + (mset new + mset (concat sp))"
  then consider "g \<in># R" | "g \<in># mset new + mset (concat sp)" by auto
  then show "frame_ok s' g"
  proof cases
    case 1
    then obtain R' where "R = add_mset g R'" by (blast dest: multi_member_split)
    with assms show ?thesis
      by (intro frame_ok_kept [OF _ _ _ step, of g R']) (auto simp: frames_ok_def)
  next
    case 2
    with assms show ?thesis
      by (intro frame_ok_new [OF _ assms(3) step]) (auto simp: frames_ok_def)
  qed
qed

lemma ids_ok_init:
  assumes "ids_ok s" and "\<not> started c s"
  shows "ids_ok (OnContextInit label c s)"
proof -
  have "started a (OnContextInit label c s) \<longleftrightarrow> a = c \<or> started a s" for a
    by (cases "a = c") (auto simp: started_def)
  moreover have "inj_on ((birth s)(c := births s)) (insert c {a. started a s})"
    using assms by (auto simp: ids_ok_def inj_on_def)
  ultimately show ?thesis
    using assms by (auto simp: ids_ok_def labelled_def Collect_disj_eq less_SucI add.commute)
qed

lemma exec_ids:
  assumes "ids_ok s" and "frame_ok s f" and "exec ch f s = Steps s' new sp"
  shows "ids_ok s'"
proof (cases "newborn f")
  case None
  have "started b s' \<longleftrightarrow> started b s" for b
    using exec_started [OF assms(3)] exec_started_back [OF assms(3,2)] None by auto
  moreover have "p_id (heap s' b) = p_id (heap s b) \<and> p_label (heap s' b) = p_label (heap s b)
      \<and> birth s' = birth s \<and> births s' = births s \<and> gSpawnCounter s' = gSpawnCounter s" for b
    using assms(3) None
    by (cases f) (auto simp: heap_upd dest!: close_exec_keeps [where b = b]
        split: option.splits if_splits once.splits)
  ultimately show ?thesis
    using assms(1) unfolding ids_ok_def labelled_def by (metis (no_types, lifting) Collect_cong)
next
  case (Some c)
  with assms show ?thesis
    by (cases f) (auto simp: frame_ok_def Let_def intro!: ids_ok_init split: option.splits)
qed

lemma exec_inv:
  assumes "proc_inv s (add_mset f R)" and "exec ch f s = Steps s' new sp"
  shows "proc_inv s' (R + (mset new + mset (concat sp)))"
proof -
  from assms(1) have "frame_ok s f"
    by (simp add: proc_inv_def frames_ok_def)
  with assms show ?thesis
    unfolding proc_inv_def
    by (elim conjE, intro conjI)
      (blast intro: exec_closing exec_running exec_subs exec_minds exec_frames exec_ids)+
qed

section \<open>Client steps and reachable states\<close>

lemma frames_spawn: "frames (s\<lparr>threads := threads s @ [[f]]\<rparr>) = add_mset f (frames s)"
  by (simp add: frames_def)

lemma frames_heap [simp]: "frames (upd a g s) = frames s"
  by (simp add: frames_def)

lemma proc_inv_threads [simp]: "proc_inv (s\<lparr>threads := ts\<rparr>) F = proc_inv s F"
  by (simp add: proc_inv_defs frame_ok_def ids_ok_def started_def)

lemma unused_minds: "unused c s \<Longrightarrow> tally (minds c) (frames s) = 0"
proof (rule tally_zero)
  fix f assume "unused c s" "f \<in># frames s"
  then show "minds c f = 0" by (cases f) (auto simp: unused_def)
qed

lemma proc_inv_spawn:
  assumes "proc_inv s F" and "frame_ok s f" and "\<And>c. minds c f \<noteq> 0 \<Longrightarrow> tally (minds c) F = 0"
    and "\<And>a. closer a f = {#}" and "\<And>p. holds p f = 0" and "\<And>p. listed p f = {#}"
  shows "proc_inv s (add_mset f F)"
proof -
  have "minds c f + tally (minds c) F \<le> 1" for c
    using assms(1,3) by (cases "minds c f = 0"; cases f) (auto simp: proc_inv_defs)
  with assms show ?thesis by (simp add: proc_inv_defs)
qed

lemma proc_inv_callback:
  assumes "proc_inv s F" and "g = (\<lambda>p. p\<lparr>p_OnClosing := cb\<rparr>) \<or> g = (\<lambda>p. p\<lparr>p_OnClosed := cb\<rparr>)"
  shows "proc_inv (upd a g s) F"
proof -
  have keep: "p_state (g p) = p_state p" "p_running (g p) = p_running p" "p_subs (g p) = p_subs p"
    "p_chClosed (g p) = p_chClosed p" "p_id (g p) = p_id p" "p_label (g p) = p_label p"
    "close_ok (g p) K = close_ok p K" "labelled (g p) = labelled p" for p K
    using assms(2) by (auto simp: labelled_def)
  have st: "started b (upd a g s) = started b s" for b
    by (simp add: started_def heap_upd keep)
  show ?thesis
    using assms(1) unfolding proc_inv_defs frame_ok_def ids_ok_def st
    by (simp add: heap_upd keep)
qed

lemma client_step_inv: "client_step s t \<Longrightarrow> proc_inv s (frames s) \<Longrightarrow> proc_inv t (frames t)"
proof (induction rule: client_step.induct)
  case (client_root c s label go)
  then show ?case
    by (auto simp: frames_spawn frame_ok_def unused_minds unused_def started_def intro!: proc_inv_spawn)
next
  case (client_child c s p label go)
  then show ?case
    by (auto simp: frames_spawn frame_ok_def unused_minds unused_def started_def intro!: proc_inv_spawn)
qed (auto simp: frames_spawn frame_ok_def intro!: proc_inv_spawn proc_inv_callback)

lemma thread_step_inv: "thread_step ordered f s t \<Longrightarrow> proc_inv s (frames s) \<Longrightarrow> proc_inv t (frames t)"
proof (induction rule: thread_step.induct)
  case (thread_stepI i s f rest ch s' new spawned ordered)
  have th: "threads s' = threads s"
    using thread_stepI exec_threads by blast
  obtain R where "frames s = add_mset f R"
    and "frames (s'\<lparr>threads := (threads s')[i := new @ rest] @ spawned\<rparr>) = R + (mset new + mset (concat spawned))"
    using frames_step [OF thread_stepI(1,2), where s' = s' and new = new and sp = spawned] th by metis
  with thread_stepI show ?case by (auto dest: exec_inv)
qed

lemma proc_init_inv: "proc_init s \<Longrightarrow> proc_inv s (frames s)"
  by (simp add: proc_init_def frames_def proc_inv_defs close_ok_def process_zero_def ids_ok_def started_def)

interpretation proc: invariant_system proc_init "proc_step ordered" "\<lambda>s. proc_inv s (frames s)"
  by unfold_locales (auto simp: proc_step_def intro: proc_init_inv client_step_inv thread_step_inv)

section \<open>Ordered runs\<close>

definition ordered_inv :: "'cb sys \<Rightarrow> pc multiset \<Rightarrow> bool" where
  [go_inv]: "ordered_inv s F \<longleftrightarrow>
     (\<forall>p. \<forall>f \<in># F. attaching p f \<longrightarrow> p_state (heap s p) = Started)
     \<and> (\<forall>p. C_body KSetClosed p \<in># F \<or> p_state (heap s p) = Closed \<longrightarrow> p_running (heap s p) = 0)"

lemma closing_ok_phase: "closing_ok s F \<Longrightarrow> C_body k a \<in># F \<Longrightarrow> phase_ok k (heap s a)"
  by (auto simp: closing_ok_def dest!: multi_member_split spec [of _ a] close_ok_body)

lemma phase_ok_unique:
  "phase_ok KSetClosed p \<Longrightarrow> p_state p = Closing" "phase_ok KState p \<Longrightarrow> p_state p = Started"
  by simp_all

lemma ordered_attaching:
  assumes inv: "proc_inv s (add_mset f R)" and ord: "ordered_inv s (add_mset f R)"
    and order: "\<forall>p. begins_close f = Some p \<longrightarrow> (\<forall>g \<in># R. \<not> attaching p g)"
    and step: "exec ch f s = Steps s' new sp"
    and g: "g \<in># R + (mset new + mset (concat sp))" and att: "attaching p g"
  shows "p_state (heap s' p) = Started"
proof (cases f)
  case (C_body k a)
  with g att step close_exec_keeps [of k a s s' new sp a] have R: "g \<in># R" by auto
  with ord att have st: "p_state (heap s p) = Started" by (auto simp: ordered_inv_def)
  show ?thesis
  proof (cases "a = p")
    case True
    with C_body R order att have "k \<noteq> KState" by auto
    moreover have "phase_ok k (heap s a)"
      using inv C_body by (auto simp: proc_inv_def intro: closing_ok_phase)
    ultimately show ?thesis using True st by (cases k) auto
  next
    case False
    with st step C_body show ?thesis
      by (cases k) (auto split: option.splits if_splits)
  qed
next
  case (SC_init par c label go)
  with g att step have R: "g \<in># R" by (auto simp: Let_def split: option.splits)
  with ord att have "p_state (heap s p) = Started" by (auto simp: ordered_inv_def)
  with SC_init step show ?thesis
    by (cases "p = c") (auto simp: Let_def split: option.splits)
qed (use ord step g att in \<open>auto simp: ordered_inv_def heap_upd split: option.splits if_splits once.splits\<close>)

lemma ordered_waited:
  assumes inv: "proc_inv s (add_mset f R)" and ord: "ordered_inv s (add_mset f R)"
    and step: "exec ch f s = Steps s' new sp"
    and w: "C_body KSetClosed p \<in># R + (mset new + mset (concat sp)) \<or> p_state (heap s' p) = Closed"
  shows "p_running (heap s' p) = 0"
proof -
  have was: "C_body KSetClosed p \<in># add_mset f R \<or> p_state (heap s p) = Closed \<Longrightarrow> p_running (heap s p) = 0"
    using ord by (auto simp: ordered_inv_def)
  have phase: "C_body KSetClosed p \<in># R \<Longrightarrow> p_state (heap s p) = Closing"
    using inv closing_ok_phase [of s "add_mset f R" KSetClosed p] by (auto simp: proc_inv_def)
  show ?thesis
  proof (cases f)
    case (C_body k a)
    then show ?thesis
      using step w was by (cases k; cases "a = p") (auto split: option.splits if_splits)
  next
    case (SC_init par c label go)
    then show ?thesis
      using step w was phase by (cases "c = p") (auto simp: Let_def split: option.splits)
  next
    case (SC_add q c go)
    then have "p_state (heap s q) = Started"
      using ord by (auto simp: ordered_inv_def)
    with SC_add show ?thesis
      using step w was phase by (cases "q = p") auto
  qed (use step w was phase in \<open>auto simp: heap_upd split: option.splits if_splits once.splits\<close>)
qed

lemma exec_ordered_inv:
  assumes "proc_inv s (add_mset f R)" and "ordered_inv s (add_mset f R)"
    and "\<forall>p. begins_close f = Some p \<longrightarrow> (\<forall>g \<in># R. \<not> attaching p g)"
    and "exec ch f s = Steps s' new sp"
  shows "ordered_inv s' (R + (mset new + mset (concat sp)))"
  unfolding ordered_inv_def
  using ordered_attaching [OF assms] ordered_waited [OF assms(1,2,4)] by blast

lemma ordered_inv_threads [simp]: "ordered_inv (s\<lparr>threads := ts\<rparr>) F = ordered_inv s F"
  by (simp add: ordered_inv_def)

lemma thread_step_ordered:
  "thread_step True f s t \<Longrightarrow> proc_inv s (frames s) \<Longrightarrow> ordered_inv s (frames s) \<Longrightarrow> ordered_inv t (frames t)"
proof (induction True f s t rule: thread_step.induct)
  case (thread_stepI i s f rest ch s' new spawned)
  have th: "threads s' = threads s"
    using thread_stepI exec_threads by blast
  obtain R where R: "frames s = add_mset f R"
    and "frames (s'\<lparr>threads := (threads s')[i := new @ rest] @ spawned\<rparr>) = R + (mset new + mset (concat spawned))"
    using frames_step [OF thread_stepI(1,2), where s' = s' and new = new and sp = spawned] th by metis
  moreover have "\<forall>p. begins_close f = Some p \<longrightarrow> (\<forall>g \<in># R. \<not> attaching p g)"
    using thread_stepI(4) R by (auto simp: in_order_def)
  ultimately show ?case
    using thread_stepI by (auto dest: exec_ordered_inv)
qed

lemma client_step_ordered: "client_step s t \<Longrightarrow> ordered_inv s (frames s) \<Longrightarrow> ordered_inv t (frames t)"
  by (induction rule: client_step.induct) (auto simp: frames_spawn ordered_inv_def heap_upd)

interpretation proc_ordered: invariant_system proc_init "proc_step True"
  "\<lambda>s. proc_inv s (frames s) \<and> ordered_inv s (frames s)"
proof
  fix s :: "'a sys"
  assume "proc_init s"
  then show "proc_inv s (frames s) \<and> ordered_inv s (frames s)"
    by (auto simp: proc_init_inv) (auto simp: proc_init_def ordered_inv_def frames_def process_zero_def)
next
  fix s t :: "'a sys"
  assume "proc_inv s (frames s) \<and> ordered_inv s (frames s)" and "proc_step True s t"
  then show "proc_inv t (frames t) \<and> ordered_inv t (frames t)"
    using proc.step_inv [of s True t]
    by (auto simp: proc_step_def intro: client_step_ordered thread_step_ordered)
qed

end
