(* ===== verification/Cedar_Process_Live.thy ===== *)
theory Cedar_Process_Live
  imports Cedar_Process_Inv
begin

text \<open>
  Closing comes to an end: every step of a thread lowers a weight, so runs of the threads alone are
  finite, and where no thread can move every \<^verbatim>\<open>Close\<close> that was begun has finished. The argument for
  the latter follows the tree downwards, from a process that waits for its children to the child it
  waits for, which is younger.
\<close>

section \<open>Every step of a thread makes progress\<close>

fun close_weight :: "close_pc \<Rightarrow> nat" where
  "close_weight KState = 7"
| "close_weight KSignal = 6"
| "close_weight KOnClosing = 5"
| "close_weight KWait = 4"
| "close_weight KSetClosed = 3"
| "close_weight KOnClosed = 2"
| "close_weight KDone = 1"

fun weight :: "pc \<Rightarrow> nat" where
  "weight (C_body k _) = close_weight k"
| "weight (C_enter _) = 8"
| "weight (A_wait _) = 9"
| "weight (G_run _) = 9"
| "weight (Ret _) = 0"
| "weight (SC_return _ _ _) = 10"
| "weight (W_remove _ _) = 1"
| "weight (W_running_done _ _) = 2"
| "weight (W_done _ _) = 3"
| "weight (W_select _ _) = 12"
| "weight (SC_started _ _) = 19"
| "weight (SC_go _ _ _) = 32"
| "weight (SC_add _ _ _) = 33"
| "weight (SC_append _ _ _) = 34"
| "weight (SC_check _ _ _) = 35"
| "weight (SC_init _ _ _ _) = 36"

lemma exec_weight:
  "exec ch f s = Steps s' new sp \<Longrightarrow> tally weight (mset new + mset (concat sp)) < weight f"
proof (cases f)
  case (C_body k a)
  then show "exec ch f s = Steps s' new sp \<Longrightarrow> ?thesis"
    by (cases k) (auto split: option.splits if_splits)
qed (auto simp: Let_def split: option.splits if_splits once.splits)

lemma thread_step_weight:
  "thread_step ordered f s t \<Longrightarrow> tally weight (frames t) < tally weight (frames s)"
proof (induction rule: thread_step.induct)
  case (thread_stepI i s f rest ch s' new spawned ordered)
  have th: "threads s' = threads s"
    using thread_stepI exec_threads by blast
  obtain R where "frames s = add_mset f R"
    and "frames (s'\<lparr>threads := (threads s')[i := new @ rest] @ spawned\<rparr>) = R + (mset new + mset (concat spawned))"
    using frames_step [OF thread_stepI(1,2), where s' = s' and new = new and sp = spawned] th by metis
  with thread_stepI show ?case by (auto dest: exec_weight)
qed

section \<open>The shape of the stacks\<close>

fun closes :: "pc \<Rightarrow> addr option" where
  "closes (C_enter a) = Some a"
| "closes (C_body _ a) = Some a"
| "closes _ = None"

fun waits_below :: "addr \<Rightarrow> pc \<Rightarrow> bool" where
  "waits_below c (W_done _ d) \<longleftrightarrow> d = c"
| "waits_below c (SC_return d _ _) \<longleftrightarrow> d = c"
| "waits_below c _ \<longleftrightarrow> False"

text \<open>A watcher that waits for its child with nothing above it has seen the child closing.\<close>

fun stack_ok :: "'cb sys \<Rightarrow> pc list \<Rightarrow> bool" where
  "stack_ok s [] \<longleftrightarrow> True"
| "stack_ok s [W_done p c] \<longleftrightarrow> p_chClosing (heap s c) = ChClosed"
| "stack_ok s [f] \<longleftrightarrow> True"
| "stack_ok s [f, g] \<longleftrightarrow> (\<exists>c. closes f = Some c \<and> waits_below c g)"
| "stack_ok s _ \<longleftrightarrow> False"

lemma stack_ok_single:
  "(\<And>p c. f = W_done p c \<Longrightarrow> p_chClosing (heap s c) = ChClosed) \<Longrightarrow> stack_ok s [f]"
  by (cases f) auto

lemma stack_ok_kept:
  assumes "stack_ok s stk"
    and "\<And>p c. stk = [W_done p c] \<Longrightarrow> p_chClosing (heap s c) = ChClosed \<Longrightarrow> p_chClosing (heap s' c) = ChClosed"
  shows "stack_ok s' stk"
  using assms by (cases "(s, stk)" rule: stack_ok.cases) auto

lemma exec_chClosing:
  assumes "exec ch f s = Steps s' new sp" and "newborn f \<noteq> Some c" and "p_chClosing (heap s c) = ChClosed"
  shows "p_chClosing (heap s' c) = ChClosed"
proof (cases f)
  case (C_body k a)
  with assms show ?thesis
    by (cases k; cases "a = c") (auto split: option.splits if_splits)
qed (use assms in \<open>auto simp: heap_upd Let_def split: option.splits if_splits once.splits\<close>)

lemma close_ok_done: "close_ok p K \<Longrightarrow> p_closeOnce p = OnceDone \<Longrightarrow> p_chClosing p = ChClosed"
  by (auto simp: close_ok_def)

lemma exec_stack_top:
  assumes inv: "proc_inv s (add_mset f R)" and ok: "stack_ok s (f # rest)" and step: "exec ch f s = Steps s' new sp"
  shows "stack_ok s' (new @ rest) \<and> list_all (stack_ok s') sp"
proof (cases rest)
  case Nil
  then show ?thesis
    using step by (cases f) (auto simp: Let_def Closing_chan_def chan_ready_def stack_ok_single
        dest!: close_exec_keeps split: option.splits if_splits once.splits)
next
  case (Cons g rest')
  with ok obtain c where rest: "rest = [g]" and c: "closes f = Some c" "waits_below c g"
    by (cases rest') auto
  have clo: "close_ok (heap s c) (tally (closer c) (add_mset f R))"
    using inv by (simp add: proc_inv_def closing_ok_def)
  show ?thesis
  proof (cases f)
    case (C_enter a)
    with step c rest close_ok_done [OF clo] show ?thesis
      by (cases g) (auto split: once.splits)
  next
    case (C_body k a)
    with c have a: "a = c" by simp
    have "phase_ok k (heap s c)"
      using inv C_body a by (auto simp: proc_inv_def intro: closing_ok_phase)
    with step C_body a c rest show ?thesis
      by (cases k; cases g) (auto split: option.splits if_splits)
  qed (use c in auto)
qed

lemma newborn_unstarted: "frame_ok s f \<Longrightarrow> newborn f = Some c \<Longrightarrow> \<not> started c s"
  by (cases f) (auto simp: frame_ok_def)

definition stacks_ok :: "'cb sys \<Rightarrow> bool" where
  [go_inv]: "stacks_ok s \<longleftrightarrow> list_all (stack_ok s) (threads s)"

lemma thread_step_stacks:
  "thread_step ordered f s t \<Longrightarrow> proc_inv s (frames s) \<Longrightarrow> stacks_ok s \<Longrightarrow> stacks_ok t"
proof (induction rule: thread_step.induct)
  case (thread_stepI i s f rest ch s' new spawned ordered)
  have th: "threads s' = threads s"
    using thread_stepI exec_threads by blast
  obtain R where R: "frames s = add_mset f R"
    using frames_step [OF thread_stepI(1,2), where s' = s' and new = new and sp = spawned] by metis
  have here: "stack_ok s' (new @ rest) \<and> list_all (stack_ok s') spawned"
    using thread_stepI R by (intro exec_stack_top [where R = R]) (auto simp: stacks_ok_def list_all_length)
  have kept: "stack_ok s' stk" if "stk \<in> set (threads s)" for stk
  proof (rule stack_ok_kept)
    show "stack_ok s stk"
      using thread_stepI that by (auto simp: stacks_ok_def list_all_iff)
    fix p c assume stk: "stk = [W_done p c]" and "p_chClosing (heap s c) = ChClosed"
    with that have "W_done p c \<in># frames s"
      by (force simp: frames_def)
    then have "started c s" and "frame_ok s f"
      using thread_stepI R by (auto simp: proc_inv_def frames_ok_def frame_ok_def)
    then have "newborn f \<noteq> Some c"
      using newborn_unstarted by blast
    with \<open>p_chClosing (heap s c) = ChClosed\<close> thread_stepI show "p_chClosing (heap s' c) = ChClosed"
      using exec_chClosing by blast
  qed
  have same: "stack_ok (s'\<lparr>threads := ts\<rparr>) = stack_ok s'" for ts
  proof
    fix stk show "stack_ok (s'\<lparr>threads := ts\<rparr>) stk = stack_ok s' stk"
      by (cases "(s', stk)" rule: stack_ok.cases) auto
  qed
  show ?case
    using here kept th by (auto simp: stacks_ok_def same list_all_iff dest!: set_update_subset_insert [THEN subsetD])
qed

lemma client_step_stacks: "client_step s t \<Longrightarrow> stacks_ok s \<Longrightarrow> stacks_ok t"
proof -
  have same: "stack_ok (s\<lparr>threads := ts\<rparr>) stk = stack_ok s stk" for s :: "'b sys" and ts stk
    by (cases "(s, stk)" rule: stack_ok.cases) auto
  have cb: "stack_ok (upd a g s) stk = stack_ok s stk"
    if "\<And>p. p_chClosing (g p) = p_chClosing p" for s :: "'b sys" and a g stk
    using that by (cases "(s, stk)" rule: stack_ok.cases) (auto simp: heap_upd)
  show "client_step s t \<Longrightarrow> stacks_ok s \<Longrightarrow> stacks_ok t"
    by (induction rule: client_step.induct) (auto simp: stacks_ok_def list_all_iff same cb)
qed

interpretation proc_stacks: invariant_system proc_init "proc_step ordered"
  "\<lambda>s. proc_inv s (frames s) \<and> stacks_ok s"
proof
  fix s :: "'a sys"
  assume "proc_init s"
  then show "proc_inv s (frames s) \<and> stacks_ok s"
    by (auto simp: proc_init_inv) (auto simp: proc_init_def stacks_ok_def)
next
  fix s t :: "'a sys"
  assume "proc_inv s (frames s) \<and> stacks_ok s" and "proc_step ordered s t"
  then show "proc_inv t (frames t) \<and> stacks_ok t"
    using proc.step_inv [of s ordered t]
    by (auto simp: proc_step_def intro: client_step_stacks thread_step_stacks)
qed

section \<open>Where no thread can move\<close>

text \<open>
  \<open>idle s\<close>: no thread can make a step, the client's functions under \<^verbatim>\<open>Go\<close> apart, which may run for as
  long as they like. \<open>run_step\<close> is a step of the program without new calls of the client.
\<close>

definition run_step :: "'cb sys \<Rightarrow> 'cb sys \<Rightarrow> bool" where
  "run_step s t \<longleftrightarrow> (\<exists>f. thread_step False f s t)"

definition idle :: "'cb sys \<Rightarrow> bool" where
  "idle s \<longleftrightarrow> (\<forall>f t. thread_step False f s t \<longrightarrow> (\<exists>c. f = G_run c))"

lemma returned_idle:
  assumes "list_all (\<lambda>stk. stk = [] \<or> (\<exists>e. stk = [Ret e])) (threads s)"
  shows "idle s"
  unfolding idle_def
proof (intro allI impI)
  fix f t assume "thread_step False f s t"
  then show "\<exists>c. f = G_run c"
  proof (cases rule: thread_step.cases)
    case (thread_stepI i rest ch s' new spawned)
    then obtain e where "f = Ret e"
      using assms by (auto simp: list_all_length dest!: spec [of _ i])
    with thread_stepI show ?thesis by simp
  qed
qed

lemma run_step_wf: "wfP (\<lambda>t s. run_step s t)"
  by (rule wfp_if_convertible_to_nat [where f = "\<lambda>s. tally weight (frames s)"])
    (auto simp: run_step_def dest: thread_step_weight)

lemma run_reaches_idle: "\<exists>t. run_step\<^sup>*\<^sup>* s t \<and> idle t"
proof (induction s rule: wfp_induct_rule [OF run_step_wf])
  case (1 s)
  show ?case
  proof (cases "idle s")
    case False
    then obtain f u where "thread_step False f s u"
      by (auto simp: idle_def)
    then have "run_step s u"
      by (auto simp: run_step_def)
    with 1 obtain t where "run_step\<^sup>*\<^sup>* u t" "idle t" by blast
    with \<open>run_step s u\<close> show ?thesis
      by (blast intro: converse_rtranclp_into_rtranclp)
  qed blast
qed

lemma idle_top:
  assumes "idle s" and "i < length (threads s)" and "threads s ! i = f # rest" and "\<And>c. f \<noteq> G_run c"
  shows "\<nexists>s' new sp. exec ch f s = Steps s' new sp"
  using assms thread_stepI [of i s f rest ch _ _ _ False] by (fastforce simp: idle_def)

text \<open>A frame is on top of its stack, or waits below a call of \<^verbatim>\<open>Close\<close>.\<close>

lemma frame_position:
  assumes "stacks_ok s" and "f \<in># frames s"
  obtains (top) i rest where "i < length (threads s)" "threads s ! i = f # rest" "rest = [] \<or> closes f \<noteq> None"
  | (below) i h c where "i < length (threads s)" "threads s ! i = [h, f]" "closes h = Some c" "waits_below c f"
proof -
  obtain stk where "stk \<in> set (threads s)" and "f \<in> set stk"
    using assms(2) by (auto simp: frames_def)
  then obtain i where i: "i < length (threads s)" and f: "f \<in> set (threads s ! i)"
    by (metis in_set_conv_nth)
  have "stack_ok s (threads s ! i)"
    using assms(1) i by (simp add: stacks_ok_def list_all_length)
  then show thesis
    using i f top below by (cases "(s, threads s ! i)" rule: stack_ok.cases) auto
qed

lemma top_or_below:
  assumes "stacks_ok s" and "idle s" and "f \<in># frames s" and "\<And>c. f \<noteq> G_run c" and "\<And>c. \<not> waits_below c f"
  shows "exec ch f s = Blocks \<or> exec ch f s = Panics"
  using assms(1,3)
proof (cases rule: frame_position)
  case (top i rest)
  with idle_top [OF assms(2) top(1,2) assms(4), of ch] show ?thesis
    by (cases "exec ch f s") auto
next
  case below
  with assms(5) show ?thesis by auto
qed

lemma tally_mem: "k \<in># tally g F \<Longrightarrow> \<exists>f \<in># F. k \<in># g f"
  by (induction F) auto

lemma idle_close_waits:
  assumes inv: "proc_inv s (frames s)" and st: "stacks_ok s" and idle: "idle s"
    and once: "p_closeOnce (heap s p) = OnceRunning"
  shows "p_chClosing (heap s p) = ChClosed \<and> p_running (heap s p) \<noteq> 0"
proof -
  have "close_ok (heap s p) (tally (closer p) (frames s))"
    using inv by (simp add: proc_inv_def closing_ok_def)
  then obtain k where k: "tally (closer p) (frames s) = {#k#}" and ph: "phase_ok k (heap s p)"
    using once by (auto simp: close_ok_def)
  have "C_body k p \<in># frames s"
  proof -
    obtain f where "f \<in># frames s" and "k \<in># closer p f"
      using tally_mem [of k "closer p" "frames s"] k by auto
    then show ?thesis by (cases f) (auto split: if_splits)
  qed
  then have "exec (Hook None) (C_body k p) s = Blocks \<or> exec (Hook None) (C_body k p) s = Panics"
    by (intro top_or_below [OF st idle]) auto
  with ph show ?thesis
    by (cases k) (auto split: option.splits if_splits)
qed

lemma held_frame:
  assumes "tally (holds p) F \<noteq> 0"
  obtains f where "f \<in># F" "holds p f \<noteq> 0"
  using assms tally_zero [of F "holds p"] by auto

text \<open>What keeps a closing process waiting is a younger child whose own \<^verbatim>\<open>Close\<close> is under way.\<close>

lemma idle_held_frame:
  assumes inv: "proc_inv s (frames s)" and st: "stacks_ok s" and idle: "idle s"
    and closing: "p_chClosing (heap s p) = ChClosed" and f: "f \<in># frames s" and h: "holds p f \<noteq> 0"
  obtains c where "p_closeOnce (heap s c) = OnceRunning" "birth s p < birth s c" "birth s c < births s"
proof -
  have "int (tally (holds p) (frames s)) > 0"
    using f h by (auto dest!: multi_member_split)
  then have pos: "p_running (heap s p) > 0"
    using inv by (simp add: proc_inv_def running_ok_def)
  have ok: "frame_ok s f"
    using inv f by (simp add: proc_inv_def frames_ok_def)
  have "\<exists>c. f = W_done p c"
  proof (rule ccontr)
    assume no: "\<nexists>c. f = W_done p c"
    then have "exec (Pick True) f s = Blocks \<or> exec (Pick True) f s = Panics"
      using h by (intro top_or_below [OF st idle f]; cases f; auto)
    with no h closing pos show False
      by (cases f) (auto simp: Closing_chan_def split: if_splits)
  qed
  then obtain c where fc: "f = W_done p c" ..
  have young: "birth s p < birth s c" "birth s c < births s"
    using ok fc inv by (auto simp: frame_ok_def proc_inv_def ids_ok_def)
  have clo: "close_ok (heap s c) (tally (closer c) (frames s))"
    using inv by (simp add: proc_inv_def closing_ok_def)
  from st f have "p_closeOnce (heap s c) = OnceRunning"
  proof (cases rule: frame_position)
    case (top i rest)
    then have "rest = []" and "p_chClosing (heap s c) = ChClosed"
      using fc st by (auto simp: stacks_ok_def list_all_length dest: spec [of _ i])
    with top idle_top [OF idle top(1,2), of "Hook None"] fc clo show ?thesis
      by (auto simp: close_ok_def Done_chan_def chan_ready_def split: once.splits if_splits)
  next
    case (below i h d)
    then have d: "d = c" using fc by simp
    note tops = idle_top [OF idle below(1,2), of "Hook None"]
    have "h \<in># frames s"
      using below by (auto simp: frames_def) (metis list.set_intros(1) nth_mem)
    show ?thesis
    proof (cases h)
      case (C_enter a)
      with tops below d show ?thesis
        by (auto split: once.splits)
    next
      case (C_body k a)
      with below d \<open>h \<in># frames s\<close> clo show ?thesis
        by (auto dest!: multi_member_split close_ok_body)
    qed (use below in auto)
  qed
  then show thesis using young by (rule that)
qed

lemma idle_no_close_running:
  assumes inv: "proc_inv s (frames s)" and st: "stacks_ok s" and idle: "idle s"
  shows "p_closeOnce (heap s p) \<noteq> OnceRunning"
proof (induction "births s - birth s p" arbitrary: p rule: less_induct)
  case less
  show ?case
  proof
    assume once: "p_closeOnce (heap s p) = OnceRunning"
    note waits = idle_close_waits [OF inv st idle once]
    then have "tally (holds p) (frames s) \<noteq> 0"
      using inv by (auto simp: proc_inv_def running_ok_def)
    then obtain f where "f \<in># frames s" and "holds p f \<noteq> 0"
      by (rule held_frame)
    with waits obtain c where "p_closeOnce (heap s c) = OnceRunning" "birth s p < birth s c" "birth s c < births s"
      using idle_held_frame [OF inv st idle, of p f] by blast
    with less [of c] show False by (simp add: diff_less_mono2)
  qed
qed

lemma idle_closed:
  assumes inv: "proc_inv s (frames s)" and st: "stacks_ok s" and idle: "idle s"
    and once: "p_closeOnce (heap s p) \<noteq> OnceNew"
  shows "p_chClosed (heap s p) = ChClosed \<and> p_state (heap s p) = Closed
    \<and> p_running (heap s p) = 0 \<and> p_subs (heap s p) = []"
proof -
  have "close_ok (heap s p) (tally (closer p) (frames s))"
    using inv by (simp add: proc_inv_def closing_ok_def)
  then have fin: "p_chClosed (heap s p) = ChClosed" "p_chClosing (heap s p) = ChClosed"
      "p_state (heap s p) = Closed"
    using once idle_no_close_running [OF inv st idle, of p] by (auto simp: close_ok_def split: once.splits)
  have free: "holds p f = 0" if "f \<in># frames s" for f
    using idle_held_frame [OF inv st idle fin(2) that] idle_no_close_running [OF inv st idle] by blast
  have "listed p f = {#}" if f: "f \<in># frames s" for f
  proof (rule ccontr)
    assume l: "listed p f \<noteq> {#}"
    then have "exec (Hook None) f s = Blocks \<or> exec (Hook None) f s = Panics"
      using free [OF f] by (intro top_or_below [OF st idle f]; cases f; auto split: if_splits)
    with l free [OF f] show False
      by (cases f) (auto split: if_splits)
  qed
  then have "tally (listed p) (frames s) = 0" by (intro tally_zero) auto
  moreover have "tally (holds p) (frames s) = 0" using free by (intro tally_zero) auto
  moreover have "mset (p_subs (heap s p)) = tally (listed p) (frames s)"
    using inv by (simp add: proc_inv_def subs_ok_def)
  ultimately show ?thesis
    using inv fin by (simp add: proc_inv_def running_ok_def)
qed

section \<open>A call of Close is not lost\<close>

definition close_called :: "addr \<Rightarrow> 'cb sys \<Rightarrow> bool" where
  "close_called p s \<longleftrightarrow> C_enter p \<in># frames s \<or> p_closeOnce (heap s p) \<noteq> OnceNew"

lemma exec_once:
  "exec ch f s = Steps s' new sp \<Longrightarrow> newborn f \<noteq> Some p \<Longrightarrow> p_closeOnce (heap s p) \<noteq> OnceNew \<Longrightarrow>
     p_closeOnce (heap s' p) \<noteq> OnceNew"
proof (cases f)
  case (C_body k a)
  then show "exec ch f s = Steps s' new sp \<Longrightarrow> p_closeOnce (heap s p) \<noteq> OnceNew \<Longrightarrow> ?thesis"
    by (cases k; cases "a = p") (auto split: option.splits if_splits)
qed (auto simp: heap_upd Let_def split: option.splits if_splits once.splits)

lemma thread_step_close_called:
  "thread_step ordered f s t \<Longrightarrow> proc_inv s (frames s) \<Longrightarrow> close_called p s \<Longrightarrow> close_called p t"
proof (induction rule: thread_step.induct)
  case (thread_stepI i s f rest ch s' new spawned ordered)
  have th: "threads s' = threads s"
    using thread_stepI exec_threads by blast
  obtain R where R: "frames s = add_mset f R"
    and R': "frames (s'\<lparr>threads := (threads s')[i := new @ rest] @ spawned\<rparr>) = R + (mset new + mset (concat spawned))"
    using frames_step [OF thread_stepI(1,2), where s' = s' and new = new and sp = spawned] th by metis
  have clo: "close_ok (heap s p) (tally (closer p) (frames s))" and ok: "frame_ok s f"
    using thread_stepI R by (auto simp: proc_inv_def closing_ok_def frames_ok_def)
  show ?case
  proof (cases "p_closeOnce (heap s p) = OnceNew")
    case True
    then have "C_enter p \<in># add_mset f R"
      using thread_stepI R by (simp add: close_called_def)
    then consider "C_enter p \<in># R" | "f = C_enter p" by auto
    then show ?thesis
    proof cases
      case 2
      with True thread_stepI(3) show ?thesis by (auto simp: close_called_def)
    qed (simp add: close_called_def R')
  next
    case False
    with clo have "started p s"
      by (auto simp: started_def dest: close_ok_unstarted)
    with ok have "newborn f \<noteq> Some p"
      using newborn_unstarted by blast
    with False thread_stepI(3) show ?thesis
      by (auto simp: close_called_def dest: exec_once)
  qed
qed

lemma run_steps_invs:
  assumes "run_step\<^sup>*\<^sup>* s t" and "proc_inv s (frames s)" and "stacks_ok s" and "close_called p s"
  shows "proc_inv t (frames t) \<and> stacks_ok t \<and> close_called p t"
  using assms
  by (induction rule: rtranclp_induct)
    (auto simp: run_step_def intro: thread_step_inv thread_step_stacks thread_step_close_called)

lemma idle_close_called:
  assumes inv: "proc_inv t (frames t)" and st: "stacks_ok t" and idle: "idle t" and called: "close_called p t"
  shows "p_closeOnce (heap t p) \<noteq> OnceNew"
proof
  assume new: "p_closeOnce (heap t p) = OnceNew"
  with called have "C_enter p \<in># frames t" by (simp add: close_called_def)
  then have "exec (Hook None) (C_enter p) t = Blocks \<or> exec (Hook None) (C_enter p) t = Panics"
    by (intro top_or_below [OF st idle]) auto
  with new show False by simp
qed

end
