(* ===== verification/Cedar_Process_Runs.thy ===== *)
theory Cedar_Process_Runs
  imports Cedar_Process_Live
begin

text \<open>
  Runs of the process tree as lists of actions: what the client calls and which thread moves next.
  They give concrete reachable states, for the witnesses and for the runs that show a race.
\<close>

datatype 'cb action =
    Start "addr option" addr string bool
  | CallClose addr
  | CallAutoclose addr
  | SetHook addr phase "'cb option"
  | Run nat choice

definition spawn :: "pc \<Rightarrow> 'cb sys \<Rightarrow> 'cb sys" where
  "spawn f s = s\<lparr>threads := threads s @ [[f]]\<rparr>"

text \<open>Executable forms of \<open>unused\<close> and \<open>in_order\<close>.\<close>

definition unused_exec :: "addr \<Rightarrow> 'cb sys \<Rightarrow> bool" where
  "unused_exec a s \<longleftrightarrow> p_state (heap s a) = Unstarted
     \<and> list_all (\<lambda>f. a \<notin> pc_addrs f) (concat (threads s))"

definition in_order_exec :: "pc \<Rightarrow> 'cb sys \<Rightarrow> bool" where
  "in_order_exec f s \<longleftrightarrow> (case begins_close f of None \<Rightarrow> True
     | Some p \<Rightarrow> list_all (\<lambda>g. \<not> attaching p g) (concat (threads s)))"

lemma unused_exec: "unused_exec a s \<longleftrightarrow> unused a s"
  by (auto simp: unused_exec_def unused_def frames_def list_all_iff)

lemma in_order_exec: "in_order_exec f s \<longleftrightarrow> in_order f s"
  by (auto simp: in_order_exec_def in_order_def frames_def list_all_iff split: option.split)

fun act :: "bool \<Rightarrow> 'cb action \<Rightarrow> 'cb sys \<Rightarrow> 'cb sys option" where
  "act ordered (Start par c label go) s =
     (if unused_exec c s \<and> (case par of None \<Rightarrow> True | Some p \<Rightarrow> p_state (heap s p) \<noteq> Unstarted)
      then Some (spawn (SC_init par c label go) s) else None)"
| "act ordered (CallClose a) s =
     (if p_state (heap s a) \<noteq> Unstarted then Some (spawn (C_enter a) s) else None)"
| "act ordered (CallAutoclose a) s =
     (if p_state (heap s a) \<noteq> Unstarted then Some (spawn (A_wait a) s) else None)"
| "act ordered (SetHook a ph cb) s =
     (if p_state (heap s a) = Started
      then Some (upd a (case ph of OnClosing \<Rightarrow> (\<lambda>p. p\<lparr>p_OnClosing := cb\<rparr>)
                                 | OnClosed \<Rightarrow> (\<lambda>p. p\<lparr>p_OnClosed := cb\<rparr>)) s)
      else None)"
| "act ordered (Run i ch) s =
     (if i < length (threads s)
      then (case threads s ! i of
              [] \<Rightarrow> None
            | f # rest \<Rightarrow>
                (if ordered \<and> \<not> in_order_exec f s then None
                 else (case exec ch f s of
                         Steps s' new sp \<Rightarrow> Some (s'\<lparr>threads := (threads s')[i := new @ rest] @ sp\<rparr>)
                       | _ \<Rightarrow> None)))
      else None)"

fun acts :: "bool \<Rightarrow> 'cb action list \<Rightarrow> 'cb sys \<Rightarrow> 'cb sys option" where
  "acts ordered [] s = Some s"
| "acts ordered (a # as) s = (case act ordered a s of None \<Rightarrow> None | Some t \<Rightarrow> acts ordered as t)"

lemma act_step: "act ordered a s = Some t \<Longrightarrow> proc_step ordered s t"
proof (cases a)
  case (Start par c label go)
  assume "act ordered a s = Some t"
  with Start show ?thesis
    by (cases par)
      (auto simp: proc_step_def spawn_def unused_exec started_def
        intro: client_step.intros(1,2) split: if_splits)
next
  case (SetHook b ph cb)
  assume "act ordered a s = Some t"
  with SetHook show ?thesis
    by (cases ph) (auto simp: proc_step_def intro: client_step.intros(5,6) split: if_splits)
next
  case (Run i ch)
  assume "act ordered a s = Some t"
  with Run obtain f rest s' new sp where "i < length (threads s)" "threads s ! i = f # rest"
      "exec ch f s = Steps s' new sp" "ordered \<longrightarrow> in_order f s"
      "t = s'\<lparr>threads := (threads s')[i := new @ rest] @ sp\<rparr>"
    by (auto simp: in_order_exec split: if_splits list.splits outcome.splits)
  then show ?thesis
    by (auto simp: proc_step_def intro: thread_stepI)
qed (auto simp: proc_step_def spawn_def started_def intro: client_step.intros(3,4) split: if_splits)

lemma acts_steps: "acts ordered as s = Some t \<Longrightarrow> (proc_step ordered)\<^sup>*\<^sup>* s t"
  by (induction as arbitrary: s)
    (auto dest!: act_step intro: converse_rtranclp_into_rtranclp split: option.splits)

text \<open>The program before anything was started, with numbers for callbacks.\<close>

definition empty_sys :: "nat sys" where
  "empty_sys = \<lparr>heap = (\<lambda>_. process_zero), gSpawnCounter = 0, longestLabel = 0, calls = [],
     threads = [], birth = (\<lambda>_. 0), births = 0\<rparr>"

lemma acts_reachable:
  assumes "acts ordered as empty_sys = Some t"
  shows "reachable proc_init (proc_step ordered) t"
proof -
  have "reachable proc_init (proc_step ordered) empty_sys"
    by (rule reachable_init) (simp add: proc_init_def empty_sys_def)
  with acts_steps [OF assms] show ?thesis
    by (rule reachable_steps)
qed

text \<open>A root \<open>0\<close> with a child \<open>1\<close>, both started, the child watched by thread 2.\<close>

definition start_calls :: "nat action list" where
  "start_calls = Start None 0 ''root'' False # replicate 3 (Run 0 (Hook None))
     @ Start (Some 0) 1 ''child'' False # replicate 7 (Run 1 (Hook None))"

text \<open>The same, then \<^verbatim>\<open>Close\<close> of the root up to its wait, and the watcher closing the child.\<close>

definition close_calls :: "nat action list" where
  "close_calls = start_calls @ CallClose 0 # replicate 4 (Run 3 (Hook None))
     @ replicate 9 (Run 2 (Pick True)) @ replicate 2 (Run 2 (Pick True))"

end
