(* ===== verification/Cedar_Process_Props.thy ===== *)
theory Cedar_Process_Props
  imports Cedar_Process_Runs
begin

text \<open>
  Further facts about the process tree (labels, callbacks, children) and its properties.
\<close>

section \<open>Labels\<close>

lemma int64_text_inj: "int64_text v = int64_text w \<Longrightarrow> v = w"
proof -
  have minus: "CHR ''-'' \<notin> set (decimal n)" for n
    by (rule not_in_decimal) simp
  then have ne: "CHR ''-'' # decimal m \<noteq> decimal n" "decimal n \<noteq> CHR ''-'' # decimal m" for m n
    by (metis list.set_intros(1))+
  show "int64_text v = int64_text w \<Longrightarrow> v = w"
    by (auto simp: int64_text_def not_less nat_eq_iff ne signed_word_eqI dest!: decimal_inj
        split: if_splits)
qed

lemma int64_text_hash: "CHR ''#'' \<notin> set (int64_text w)"
  by (auto simp: int64_text_def not_in_decimal)

lemma append_sep_unique:
  "xs @ c # ys = us @ c # vs \<Longrightarrow> c \<notin> set ys \<Longrightarrow> c \<notin> set vs \<Longrightarrow> ys = vs"
proof (induction xs arbitrary: us)
  case Nil
  then show ?case by (cases us) auto
next
  case (Cons x xs)
  then show ?case by (cases us) auto
qed

lemma labelled_id:
  assumes "labelled p" and "labelled q" and "p_label p = p_label q"
  shows "p_id p = p_id q"
proof -
  from assms obtain b b' where "b @ '' #'' @ int64_text (p_id p) = b' @ '' #'' @ int64_text (p_id q)"
    unfolding labelled_def by metis
  then have "(b @ '' '') @ CHR ''#'' # int64_text (p_id p) = (b' @ '' '') @ CHR ''#'' # int64_text (p_id q)"
    by simp
  then show ?thesis
    using int64_text_hash int64_text_inj by (blast dest: append_sep_unique)
qed

lemma ids_distinct:
  assumes "ids_ok s" and "births s < 2 ^ 64" and "started a s" and "started b s" and "p_id (heap s a) = p_id (heap s b)"
  shows "a = b"
proof -
  have "birth s a < births s" "birth s b < births s"
    and eq: "(of_nat (birth s a + 1) :: uint64) = of_nat (birth s b + 1)"
    using assms unfolding ids_ok_def by metis+
  then have "birth s a + 1 < 2 ^ 64" "birth s b + 1 < 2 ^ 64"
    using assms(2) by linarith+
  then have "birth s a + 1 = birth s b + 1"
    using eq of_nat_inverse [OF eq] of_nat_inverse [of "birth s b + 1" "of_nat (birth s b + 1) :: uint64"] by simp
  then show ?thesis
    using assms by (auto simp: ids_ok_def inj_on_def)
qed

section \<open>Callbacks\<close>

definition phases :: "addr \<Rightarrow> 'cb sys \<Rightarrow> phase list" where
  "phases a s = map (\<lambda>x. fst (snd x)) (filter (\<lambda>x. fst x = a) (calls s))"

text \<open>The callbacks that may have been called when \<^verbatim>\<open>Close\<close> is at a given statement, and at any time.\<close>

definition ordered_phases :: "phase list \<Rightarrow> bool" where
  "ordered_phases l \<longleftrightarrow> l \<in> {[], [OnClosing], [OnClosed], [OnClosing, OnClosed]}"

fun phases_at :: "close_pc \<Rightarrow> phase list \<Rightarrow> bool" where
  "phases_at KState l \<longleftrightarrow> l = []"
| "phases_at KSignal l \<longleftrightarrow> l = []"
| "phases_at KOnClosing l \<longleftrightarrow> l = []"
| "phases_at KWait l \<longleftrightarrow> l = [] \<or> l = [OnClosing]"
| "phases_at KSetClosed l \<longleftrightarrow> l = [] \<or> l = [OnClosing]"
| "phases_at KOnClosed l \<longleftrightarrow> l = [] \<or> l = [OnClosing]"
| "phases_at KDone l \<longleftrightarrow> ordered_phases l"

lemma phases_at_ordered: "phases_at k l \<Longrightarrow> ordered_phases l"
  by (cases k) (auto simp: ordered_phases_def)

definition calls_ok :: "'cb sys \<Rightarrow> pc multiset \<Rightarrow> bool" where
  [go_inv]: "calls_ok s F \<longleftrightarrow>
     (\<forall>a. ordered_phases (phases a s) \<and> (p_closeOnce (heap s a) = OnceNew \<longrightarrow> phases a s = [])
        \<and> (\<forall>k. C_body k a \<in># F \<longrightarrow> phases_at k (phases a s)))"

lemma phases_upd [simp]: "phases b (upd a g s) = phases b s"
  by (simp add: phases_def)

lemma phases_threads [simp]: "phases b (s\<lparr>threads := ts\<rparr>) = phases b s"
  by (simp add: phases_def)

lemma phases_init [simp]: "phases b (OnContextInit l a s) = phases b s"
  by (simp add: phases_def)

lemma phases_call [simp]:
  "phases b (s\<lparr>calls := calls s @ [(a, ph, f)]\<rparr>) = phases b s @ (if a = b then [ph] else [])"
  by (simp add: phases_def)

lemma closing_ok_single:
  "closing_ok s (add_mset (C_body k a) R) \<Longrightarrow> C_body k' a \<notin># R \<and> p_closeOnce (heap s a) = OnceRunning"
  by (auto simp: closing_ok_def dest!: spec [of _ a] close_ok_body multi_member_split)

lemma close_exec_calls:
  assumes inv: "closing_ok s (add_mset (C_body k a) R)" and ok: "calls_ok s (add_mset (C_body k a) R)"
    and step: "close_exec k a s = Steps s' new sp"
  shows "calls_ok s' (R + (mset new + mset (concat sp)))"
  unfolding calls_ok_def
proof
  fix b
  note single = closing_ok_single [OF inv]
  have a: "phases_at k (phases a s)" and b: "ordered_phases (phases b s)"
    "p_closeOnce (heap s b) = OnceNew \<Longrightarrow> phases b s = []"
    "\<And>k. C_body k b \<in># R \<Longrightarrow> phases_at k (phases b s)"
    using ok by (auto simp: calls_ok_def)
  show "ordered_phases (phases b s') \<and> (p_closeOnce (heap s' b) = OnceNew \<longrightarrow> phases b s' = [])
     \<and> (\<forall>k. C_body k b \<in># R + (mset new + mset (concat sp)) \<longrightarrow> phases_at k (phases b s'))"
  proof (cases "b = a")
    case True
    with single step a phases_at_ordered [OF a] show ?thesis
      by (cases k) (auto simp: ordered_phases_def split: option.splits if_splits)
  next
    case False
    with step b show ?thesis
      by (cases k) (auto split: option.splits if_splits)
  qed
qed

lemma exec_calls:
  assumes inv: "closing_ok s (add_mset f R)" and fr: "frame_ok s f" and ok: "calls_ok s (add_mset f R)"
    and step: "exec ch f s = Steps s' new sp"
  shows "calls_ok s' (R + (mset new + mset (concat sp)))"
proof (cases f)
  case (C_body k a)
  with assms close_exec_calls show ?thesis by simp
next
  case (C_enter a)
  with ok step show ?thesis
    by (auto simp: calls_ok_def heap_upd split: once.splits if_splits)
next
  case (SC_init par c label go)
  have "phases c s = []"
    using inv fr ok SC_init close_ok_unstarted [of "heap s c"]
    by (auto simp: closing_ok_def frame_ok_def started_def calls_ok_def dest!: spec [of _ c])
  then have "p_closeOnce (heap (OnContextInit label c s) b) = OnceNew \<Longrightarrow> phases b s = []" for b
    using ok by (cases "b = c") (auto simp: calls_ok_def)
  with SC_init ok step show ?thesis
    by (auto simp: calls_ok_def Let_def split: option.splits)
qed (use ok step in \<open>auto simp: calls_ok_def heap_upd split: option.splits if_splits\<close>)

lemma thread_step_calls:
  "thread_step ordered f s t \<Longrightarrow> proc_inv s (frames s) \<Longrightarrow> calls_ok s (frames s) \<Longrightarrow> calls_ok t (frames t)"
proof (induction rule: thread_step.induct)
  case (thread_stepI i s f rest ch s' new spawned ordered)
  have th: "threads s' = threads s"
    using thread_stepI exec_threads by blast
  obtain R where "frames s = add_mset f R"
    and "frames (s'\<lparr>threads := (threads s')[i := new @ rest] @ spawned\<rparr>) = R + (mset new + mset (concat spawned))"
    using frames_step [OF thread_stepI(1,2), where s' = s' and new = new and sp = spawned] th by metis
  moreover have "calls_ok (s'\<lparr>threads := ts\<rparr>) F = calls_ok s' F" for ts F
    by (simp add: calls_ok_def)
  ultimately show ?case
    using thread_stepI by (auto simp: proc_inv_def frames_ok_def intro!: exec_calls)
qed

lemma client_step_calls: "client_step s t \<Longrightarrow> calls_ok s (frames s) \<Longrightarrow> calls_ok t (frames t)"
  by (induction rule: client_step.induct) (auto simp: calls_ok_def frames_spawn heap_upd)

interpretation proc_calls: invariant_system proc_init "proc_step ordered"
  "\<lambda>s. proc_inv s (frames s) \<and> calls_ok s (frames s)"
proof
  fix s :: "'a sys"
  assume "proc_init s"
  then show "proc_inv s (frames s) \<and> calls_ok s (frames s)"
    by (auto simp: proc_init_inv) (auto simp: proc_init_def calls_ok_def frames_def phases_def ordered_phases_def)
next
  fix s t :: "'a sys"
  assume "proc_inv s (frames s) \<and> calls_ok s (frames s)" and "proc_step ordered s t"
  then show "proc_inv t (frames t) \<and> calls_ok t (frames t)"
    using proc.step_inv [of s ordered t]
    by (auto simp: proc_step_def intro: client_step_calls thread_step_calls)
qed

section \<open>A child stays listed until it is done\<close>

definition kept_or_done :: "addr \<Rightarrow> addr \<Rightarrow> 'cb sys \<Rightarrow> bool" where
  "kept_or_done p c s \<longleftrightarrow> c \<in> set (p_subs (heap s p)) \<or> p_chClosed (heap s c) = ChClosed"

lemma set_remove_loop: "distinct subs \<Longrightarrow> set (remove_loop c 0 subs) = set subs - {c}"
  by (simp add: remove_loop_distinct)

lemma exec_kept:
  assumes inv: "proc_inv s (add_mset f R)" and step: "exec ch f s = Steps s' new sp" and kept: "kept_or_done p c s"
  shows "kept_or_done p c s'"
proof (cases "p_chClosed (heap s c) = ChClosed")
  case True
  have "close_ok (heap s c) (tally (closer c) (add_mset f R))" "frame_ok s f"
    using inv by (auto simp: proc_inv_def closing_ok_def frames_ok_def)
  with True have "started c s"
    using close_ok_unstarted_nil [of "heap s c"] by (auto simp: started_def)
  with \<open>frame_ok s f\<close> have "newborn f \<noteq> Some c"
    using newborn_unstarted by blast
  with True exec_closed [OF step] show ?thesis
    by (auto simp: kept_or_done_def)
next
  case False
  with kept have c: "c \<in> set (p_subs (heap s p))"
    by (simp add: kept_or_done_def)
  show ?thesis
  proof (cases f)
    case (W_remove q d)
    have dist: "distinct (p_subs (heap s q))"
      using inv by (auto simp: proc_inv_def intro: subs_distinct)
    have "p_chClosed (heap s d) = ChClosed"
      using inv W_remove by (auto simp: proc_inv_def frames_ok_def frame_ok_def)
    with c False W_remove step show ?thesis
      by (auto simp: kept_or_done_def heap_upd set_remove_loop [OF dist])
  next
    case (SC_init par d label go)
    have "\<not> started d s" "frames_ok s R" "subs_ok s (add_mset f R)"
      using inv SC_init by (auto simp: proc_inv_def frames_ok_def frame_ok_def)
    then have "mset (p_subs (heap s d)) = {#}"
      using unstarted_listed [of s R d] SC_init by (simp add: subs_ok_def)
    then have "p_subs (heap s d) = []" by simp
    with c SC_init step show ?thesis
      by (cases "p = d") (auto simp: kept_or_done_def Let_def split: option.splits)
  next
    case (C_body k a)
    with c step close_exec_keeps [of k a s s' new sp p] show ?thesis
      by (auto simp: kept_or_done_def)
  qed (use c step in \<open>auto simp: kept_or_done_def heap_upd split: option.splits if_splits once.splits\<close>)
qed

lemma proc_step_kept:
  assumes "proc_step ordered s t" and inv: "proc_inv s (frames s)" and kept: "kept_or_done p c s"
  shows "kept_or_done p c t"
proof -
  consider "client_step s t" | f where "thread_step ordered f s t"
    using assms(1) by (auto simp: proc_step_def)
  then show ?thesis
  proof cases
    case 1
    then show ?thesis
      using kept by (cases rule: client_step.cases) (auto simp: kept_or_done_def heap_upd)
  next
    case 2
    then show ?thesis
    proof (cases rule: thread_step.cases)
      case (thread_stepI i rest ch s' new spawned)
      obtain R where "frames s = add_mset f R"
        using frames_step [OF thread_stepI(2,3), where s' = s' and new = new and sp = spawned] by metis
      with inv kept thread_stepI exec_kept [of s f R ch s' new spawned p c] show ?thesis
        by (auto simp: kept_or_done_def)
    qed
  qed
qed

lemma steps_kept:
  assumes "(proc_step ordered)\<^sup>*\<^sup>* s t" and "proc_inv s (frames s)" and "kept_or_done p c s"
  shows "kept_or_done p c t"
proof -
  from assms(1) have "proc_inv t (frames t) \<and> kept_or_done p c t"
    using assms(2,3)
    by (induction rule: rtranclp_induct) (auto intro: proc_step_kept proc.step_inv)
  then show ?thesis ..
qed

lemma closed_children_done:
  assumes inv: "proc_inv s (frames s)" and ord: "ordered_inv s (frames s)"
    and closed: "p_state (heap s p) = Closed" and c: "c \<in> set (p_subs (heap s p))"
  shows "p_chClosed (heap s c) = ChClosed"
proof -
  have "c \<in># tally (listed p) (frames s)"
    using inv c by (metis proc_inv_def set_mset_mset subs_ok_def)
  then obtain f where f: "f \<in># frames s" and l: "c \<in># listed p f"
    using tally_mem by metis
  have "\<not> attaching p f"
    using ord f closed by (auto simp: ordered_inv_def)
  moreover have "p_running (heap s p) = 0"
    using ord closed by (auto simp: ordered_inv_def)
  then have "holds p f = 0"
    using inv f by (auto simp: proc_inv_def running_ok_def dest!: multi_member_split spec [of _ p])
  moreover have "frame_ok s f"
    using inv f by (simp add: proc_inv_def frames_ok_def)
  ultimately show ?thesis
    using l by (cases f) (auto simp: frame_ok_def split: if_splits)
qed

section \<open>No callback after Done\<close>

lemma exec_silent:
  assumes "exec ch f s = Steps s' new sp" and inv: "closing_ok s (add_mset f R)" and "p_chClosed (heap s a) = ChClosed"
  shows "phases a s' = phases a s"
proof (cases f)
  case (C_body k b)
  then have "phase_ok k (heap s b)" using inv closing_ok_phase by fastforce
  then have "b \<noteq> a" using assms(3) by (cases k) auto
  with C_body assms(1) show ?thesis by (cases k) (auto split: option.splits if_splits)
qed (use assms(1) in \<open>auto simp: Let_def split: option.splits if_splits once.splits\<close>)

lemma proc_step_silent:
  assumes "proc_step ordered s t" and inv: "proc_inv s (frames s)" and don: "p_chClosed (heap s a) = ChClosed"
  shows "p_chClosed (heap t a) = ChClosed \<and> phases a t = phases a s"
proof (cases "client_step s t")
  case True
  then show ?thesis using don by (cases rule: client_step.cases) (auto simp: heap_upd)
next
  case False
  with assms(1) obtain f where "thread_step ordered f s t" by (auto simp: proc_step_def)
  then show ?thesis
  proof (cases rule: thread_step.cases)
    case (thread_stepI i rest ch s' new spawned)
    obtain R where "frames s = add_mset f R"
      using frames_step [OF thread_stepI(2,3), where s' = s' and new = new and sp = spawned] by metis
    with inv have ok: "closing_ok s (add_mset f R)" "frame_ok s f" by (simp_all add: proc_inv_def frames_ok_def)
    have "started a s" using inv don close_ok_unstarted_nil [of "heap s a"] by (auto simp: proc_inv_def closing_ok_def started_def)
    with ok(2) have "newborn f \<noteq> Some a" using newborn_unstarted by blast
    with thread_stepI exec_silent [OF thread_stepI(4) ok(1) don] exec_closed [OF thread_stepI(4) don] show ?thesis by simp
  qed
qed

lemma steps_silent:
  assumes "(proc_step ordered)\<^sup>*\<^sup>* s t" and "proc_inv s (frames s)" and "p_chClosed (heap s a) = ChClosed"
  shows "p_chClosed (heap t a) = ChClosed \<and> phases a t = phases a s"
proof -
  from assms(1) have "proc_inv t (frames t) \<and> p_chClosed (heap t a) = ChClosed \<and> phases a t = phases a s"
    using assms(2,3)
    by (induction rule: rtranclp_induct) (auto simp: proc_step_silent intro: proc.step_inv)
  then show ?thesis by blast
qed

section \<open>A context nobody else knows\<close>

definition mentions :: "addr \<Rightarrow> 'cb sys \<Rightarrow> pc multiset" where
  "mentions c s = filter_mset (\<lambda>f. c \<in> pc_addrs f) (frames s)"

text \<open>A step of the program in which the client does nothing with the context \<open>c\<close>.\<close>

definition leaves_alone :: "bool \<Rightarrow> addr \<Rightarrow> 'cb sys \<Rightarrow> 'cb sys \<Rightarrow> bool" where
  "leaves_alone ordered c s t \<longleftrightarrow> (\<exists>f. thread_step ordered f s t)
     \<or> client_step s t \<and> heap t c = heap s c \<and> mentions c t = mentions c s"

lemma exec_other:
  assumes "exec ch f s = Steps s' new sp" and "c \<notin> pc_addrs f"
  shows "heap s' c = heap s c" "g \<in> set new \<or> g \<in> set (concat sp) \<Longrightarrow> c \<notin> pc_addrs g"
proof -
  have "heap s' c = heap s c \<and> (\<forall>g. g \<in> set new \<or> g \<in> set (concat sp) \<longrightarrow> c \<notin> pc_addrs g)"
  proof (cases f)
    case (C_body k a)
    with assms show ?thesis by (cases k) (auto simp: heap_upd split: option.splits if_splits)
  qed (use assms in \<open>auto simp: heap_upd Let_def split: option.splits if_splits once.splits\<close>)
  then show "heap s' c = heap s c" "g \<in> set new \<or> g \<in> set (concat sp) \<Longrightarrow> c \<notin> pc_addrs g" by blast+
qed

text \<open>The error is on its way to the caller, and no other thread knows the child.\<close>

definition refused :: "addr \<Rightarrow> 'cb sys \<Rightarrow> bool" where
  "refused c s \<longleftrightarrow> (\<forall>f \<in># frames s. c \<in> pc_addrs f \<longrightarrow> (\<exists>go e. f = SC_return c go (Some e)))"

lemma refused_mentions: "refused c s \<longleftrightarrow> (\<forall>f \<in># mentions c s. \<exists>go e. f = SC_return c go (Some e))"
  by (auto simp: refused_def mentions_def)

lemma thread_step_refused:
  assumes "thread_step ordered f s t" and "refused c s"
  shows "refused c t \<and> heap t c = heap s c"
  using assms(1)
proof (cases rule: thread_step.cases)
  case (thread_stepI i rest ch s' new spawned)
  obtain R where R: "frames s = add_mset f R" "frames t = R + (mset new + mset (concat spawned))"
    using frames_step [OF thread_stepI(2,3), where s' = s' and new = new and sp = spawned] exec_threads [OF thread_stepI(4)]
      thread_stepI(1) by metis
  show ?thesis
  proof (cases "c \<in> pc_addrs f")
    case True
    with assms(2) R obtain go e where "f = SC_return c go (Some e)" by (auto simp: refused_def)
    with thread_stepI R assms(2) show ?thesis by (auto simp: refused_def)
  next
    case False
    note other = exec_other [OF thread_stepI(4) False]
    with thread_stepI(1) R assms(2) show ?thesis by (auto simp: refused_def)
  qed
qed

lemma leaves_alone_refused:
  assumes "leaves_alone ordered c s t" and "refused c s"
  shows "refused c t \<and> heap t c = heap s c"
  using assms(1) unfolding leaves_alone_def
proof
  assume t: "client_step s t \<and> heap t c = heap s c \<and> mentions c t = mentions c s"
  have "refused c t \<longleftrightarrow> refused c s" unfolding refused_mentions using t by simp
  with t assms(2) show ?thesis by blast
qed (use thread_step_refused [OF _ assms(2)] in blast)

lemma leaves_alone_steps:
  assumes "(leaves_alone ordered c)\<^sup>*\<^sup>* s t" and "refused c s" and "proc_inv s (frames s)"
  shows "refused c t \<and> heap t c = heap s c \<and> proc_inv t (frames t)"
  using assms
proof (induction rule: rtranclp_induct)
  case (step u t)
  then have "proc_step ordered u t" by (auto simp: leaves_alone_def proc_step_def)
  with step leaves_alone_refused [OF step(2)] proc.step_inv show ?case by metis
qed simp

lemma refused_unlisted:
  assumes "refused c s" and "proc_inv s (frames s)"
  shows "c \<notin> set (p_subs (heap s q))"
proof
  assume "c \<in> set (p_subs (heap s q))"
  then have "c \<in># tally (listed q) (frames s)" using assms(2) by (metis proc_inv_def set_mset_mset subs_ok_def)
  then obtain f where f: "f \<in># frames s" and l: "c \<in># listed q f" using tally_mem by metis
  then have "c \<in> pc_addrs f" by (cases f) (auto split: if_splits)
  with f assms(1) l show False by (auto simp: refused_def)
qed

text \<open>Runs of the threads alone leave every context alone.\<close>

definition runs :: "(nat \<times> choice) list \<Rightarrow> 'cb action list" where
  "runs rs = map (\<lambda>(i, ch). Run i ch) rs"

lemma runs_leave_alone: "acts ordered (runs rs) s = Some t \<Longrightarrow> (leaves_alone ordered c)\<^sup>*\<^sup>* s t"
proof (induction rs arbitrary: s)
  case (Cons r rs)
  obtain i ch where r: "r = (i, ch)" by force
  with Cons.prems obtain u where u: "act ordered (Run i ch) s = Some u" and t: "acts ordered (runs rs) u = Some t"
    by (auto simp: runs_def split: option.splits)
  from u have "\<exists>f. thread_step ordered f s u"
    by (auto simp: in_order_exec split: if_splits list.splits outcome.splits intro: thread_stepI)
  then have "leaves_alone ordered c s u" by (simp add: leaves_alone_def)
  with Cons.IH [OF t] show ?case by (rule converse_rtranclp_into_rtranclp [rotated])
qed (simp add: runs_def)

section \<open>The exported tree\<close>

lemma subs_family:
  assumes inv: "proc_inv s (frames s)" and c: "c \<in> set (p_subs (heap s p))"
  shows "started p s \<and> started c s \<and> birth s p < birth s c \<and> birth s c < births s"
proof -
  have "c \<in># tally (listed p) (frames s)"
    using inv c by (metis proc_inv_def set_mset_mset subs_ok_def)
  then obtain f where "f \<in># frames s" and l: "c \<in># listed p f"
    using tally_mem by metis
  then have "frame_ok s f"
    using inv by (simp add: proc_inv_def frames_ok_def)
  with l have "started p s \<and> started c s \<and> birth s p < birth s c"
    by (cases f) (auto simp: frame_ok_def split: if_splits)
  then show ?thesis
    using inv by (auto simp: proc_inv_def ids_ok_def)
qed

lemma export_children_total:
  "(\<And>c. c \<in> set cs \<Longrightarrow> ExportContextTree n h c \<noteq> None) \<Longrightarrow>
    \<exists>m. export_children n h cs m0 = Some m \<and> dom m = dom m0 \<union> (\<lambda>c. ContextLabel (h c)) ` set cs"
proof (induction cs arbitrary: m0)
  case (Cons c cs)
  then obtain t where "ExportContextTree n h c = Some t" by fastforce
  moreover obtain m where "export_children n h cs (m0(ContextLabel (h c) \<mapsto> t)) = Some m"
    and "dom m = dom (m0(ContextLabel (h c) \<mapsto> t)) \<union> (\<lambda>c. ContextLabel (h c)) ` set cs"
    using Cons.IH Cons.prems by (metis list.set_intros(2))
  ultimately show ?case by simp
qed simp

lemma export_total:
  assumes inv: "proc_inv s (frames s)" and "started a s" and "births s \<le> birth s a + n"
  shows "ExportContextTree n (heap s) a \<noteq> None"
  using assms(2,3)
proof (induction n arbitrary: a)
  case 0
  then show ?case using inv by (auto simp: proc_inv_def ids_ok_def)
next
  case (Suc n)
  have "ExportContextTree n (heap s) c \<noteq> None" if "c \<in> set (p_subs (heap s a))" for c
    using subs_family [OF inv that] Suc by (intro Suc.IH) auto
  then show ?case
    using export_children_total [of "p_subs (heap s a)" n "heap s" Map.empty] by (auto simp: Let_def)
qed

section \<open>Properties\<close>

lemma some_state:
  assumes "\<not> Option.is_none x"
  obtains s where "x = Some s"
  using assms by (cases x) auto


text \<open>C1: No interleaving of \<^verbatim>\<open>StartChild\<close>, \<^verbatim>\<open>Go\<close>, \<^verbatim>\<open>Close\<close>, \<^verbatim>\<open>Autoclose\<close> and the watchers closes a channel twice
  or takes a wait group below zero: no reachable state has a thread whose next step panics.\<close>

theorem process_never_panics:
  assumes "reachable proc_init (proc_step ordered) s"
  shows "\<not> can_panic s"
proof
  assume "can_panic s"
  then obtain i f rest ch where i: "i < length (threads s)" "threads s ! i = f # rest" and panic: "exec ch f s = Panics"
    by (auto simp: can_panic_def)
  obtain R where R: "frames s = add_mset f R"
    using frames_step [OF i, where s' = s and new = "[]" and sp = "[]"] by metis
  have inv: "proc_inv s (add_mset f R)"
    using proc.reachable_inv [OF assms] R by simp
  show False
  proof (cases f)
    case (C_body k a)
    then have "phase_ok k (heap s a)"
      using inv closing_ok_phase [of s "add_mset f R" k a] by (simp add: proc_inv_def)
    with panic C_body show False
      by (cases k) (auto split: option.splits if_splits)
  next
    case (W_running_done p c)
    then have "p_running (heap s p) > 0"
      using inv by (simp add: proc_inv_def running_ok_def)
    with panic W_running_done show False by auto
  qed (use panic in \<open>auto simp: Let_def split: option.splits if_splits once.splits\<close>)
qed

theorem process_never_panics_witness:
  "\<exists>s. acts False close_calls empty_sys = Some s \<and> \<not> can_panic s"
proof -
  have "\<not> Option.is_none (acts False close_calls empty_sys)" by code_simp
  then obtain s where s: "acts False close_calls empty_sys = Some s" by (rule some_state)
  with process_never_panics [OF acts_reachable [OF s]] show ?thesis by blast
qed

text \<open>C2: When \<^verbatim>\<open>Close\<close> of the parent does not begin in the middle of a \<^verbatim>\<open>StartChild\<close> on it: every context that
  was ever in the parent's list of children has completed its own \<^verbatim>\<open>Close\<close> by the time the parent reaches the state
  \<^verbatim>\<open>Closed\<close>, which is before the parent's \<^verbatim>\<open>OnClosed\<close> runs and before its \<^verbatim>\<open>Done()\<close> is released.\<close>

theorem parent_closed_children_done:
  assumes "reachable proc_init (proc_step True) s" and "c \<in> set (GetChildren (heap s p) [])"
    and "(proc_step True)\<^sup>*\<^sup>* s t" and "p_state (heap t p) = Closed"
  shows "chan_ready (Done_chan (heap t c))"
proof -
  have t: "reachable proc_init (proc_step True) t"
    using assms(3,1) by (rule reachable_steps)
  have "kept_or_done p c t"
    using steps_kept [OF assms(3)] proc.reachable_inv [OF assms(1)] assms(2)
    by (simp add: kept_or_done_def GetChildren_def)
  then show ?thesis
    using closed_children_done [of t p c] proc_ordered.reachable_inv [OF t] assms(4)
    by (auto simp: kept_or_done_def Done_chan_def chan_ready_def)
qed

theorem parent_closed_children_done_witness:
  "\<exists>s t. acts True start_calls empty_sys = Some s \<and> 1 \<in> set (GetChildren (heap s 0) [])
     \<and> (proc_step True)\<^sup>*\<^sup>* s t \<and> p_state (heap t 0) = Closed \<and> chan_ready (Done_chan (heap t 1))"
proof -
  define rest where "rest = drop (length start_calls) close_calls @ [Run 3 (Hook None), Run 3 (Hook None)]"
  have "\<not> Option.is_none (acts True start_calls empty_sys)" by code_simp
  then obtain s where s: "acts True start_calls empty_sys = Some s" by (rule some_state)
  then have s_eq: "s = the (acts True start_calls empty_sys)" by simp
  have "\<not> Option.is_none (acts True rest s)"
    unfolding s_eq rest_def by code_simp
  then obtain t where t: "acts True rest s = Some t" by (rule some_state)
  then have t_eq: "t = the (acts True rest s)" by simp
  have in_s: "1 \<in> set (GetChildren (heap s 0) [])"
    unfolding s_eq by code_simp
  have closed: "p_state (heap t 0) = Closed"
    unfolding t_eq s_eq rest_def by code_simp
  show ?thesis
    using s in_s closed acts_steps [OF t]
      parent_closed_children_done [OF acts_reachable [OF s] in_s acts_steps [OF t] closed] by blast
qed

text \<open>C16: Without that order the promise fails: there is a run in which \<^verbatim>\<open>Close\<close> of the root runs to completion between
  the check and the registration inside \<^verbatim>\<open>StartChild\<close>, so that the root is done while a child is in its list,
  counted and started, and nobody has closed it.\<close>

theorem start_close_race:
  "\<exists>s. reachable proc_init (proc_step False) (s :: nat sys) \<and> chan_ready (Done_chan (heap s 0))
     \<and> 1 \<in> set (GetChildren (heap s 0) []) \<and> p_running (heap s 0) = 1
     \<and> p_state (heap s 1) = Started \<and> \<not> chan_ready (Closing_chan (heap s 1))"
proof -
  define race :: "nat action list" where "race = Start None 0 ''root'' False # replicate 3 (Run 0 (Hook None))
     @ Start (Some 0) 1 ''child'' False # replicate 2 (Run 1 (Hook None))
     @ CallClose 0 # replicate 8 (Run 2 (Hook None)) @ replicate 3 (Run 1 (Hook None))"
  have "\<not> Option.is_none (acts False race empty_sys)" unfolding race_def by code_simp
  then obtain s where s: "acts False race empty_sys = Some s" by (rule some_state)
  then have s_eq: "s = the (acts False race empty_sys)" by simp
  have "chan_ready (Done_chan (heap s 0)) \<and> 1 \<in> set (GetChildren (heap s 0) []) \<and> p_running (heap s 0) = 1
     \<and> p_state (heap s 1) = Started \<and> \<not> chan_ready (Closing_chan (heap s 1))"
    unfolding s_eq race_def by code_simp
  with acts_reachable [OF s] show ?thesis by blast
qed

text \<open>C3: Closing always completes. From a reachable state in which \<^verbatim>\<open>Close\<close> was called on \<open>p\<close>, the threads of the program
  reach a state where none of them can move (the client's own functions under \<^verbatim>\<open>Go\<close> apart, which are not waited
  for), and in every such state \<open>p\<close> is done, with no child left in its list or in its counter.\<close>

theorem close_completes:
  assumes "reachable proc_init (proc_step ordered) s" and "close_called p s"
  shows "(\<exists>t. run_step\<^sup>*\<^sup>* s t \<and> idle t)
    \<and> (\<forall>t. run_step\<^sup>*\<^sup>* s t \<and> idle t \<longrightarrow>
         chan_ready (Done_chan (heap t p)) \<and> p_state (heap t p) = Closed
         \<and> ChildCount (heap t p) = 0 \<and> p_running (heap t p) = 0)"
proof (intro conjI allI impI)
  show "\<exists>t. run_step\<^sup>*\<^sup>* s t \<and> idle t" by (rule run_reaches_idle)
next
  fix t assume t: "run_step\<^sup>*\<^sup>* s t \<and> idle t"
  have "proc_inv t (frames t) \<and> stacks_ok t \<and> close_called p t"
    using run_steps_invs [of s t p] t proc_stacks.reachable_inv [OF assms(1)] assms(2) by blast
  then have "p_chClosed (heap t p) = ChClosed \<and> p_state (heap t p) = Closed
      \<and> p_running (heap t p) = 0 \<and> p_subs (heap t p) = []"
    using t idle_closed [of t p] idle_close_called [of t p] by blast
  then show "chan_ready (Done_chan (heap t p))" "p_state (heap t p) = Closed"
    "ChildCount (heap t p) = 0" "p_running (heap t p) = 0"
    by (simp_all add: Done_chan_def ChildCount_def)
qed

theorem close_completes_witness:
  "\<exists>s t. acts False (start_calls @ [CallClose 0]) empty_sys = Some s \<and> run_step\<^sup>*\<^sup>* s t \<and> idle t
     \<and> ChildCount (heap s 0) = 1 \<and> chan_ready (Done_chan (heap t 0)) \<and> ChildCount (heap t 0) = 0"
proof -
  have "\<not> Option.is_none (acts False (start_calls @ [CallClose 0]) empty_sys)" by code_simp
  then obtain s where s: "acts False (start_calls @ [CallClose 0]) empty_sys = Some s" by (rule some_state)
  then have s_eq: "s = the (acts False (start_calls @ [CallClose 0]) empty_sys)" by simp
  have one: "ChildCount (heap s 0) = 1" unfolding s_eq by code_simp
  have "C_enter 0 \<in> set (concat (threads s))" unfolding s_eq by code_simp
  then have "close_called 0 s" by (simp add: close_called_def frames_def)
  from close_completes [OF acts_reachable [OF s] this] one s show ?thesis by blast
qed

text \<open>C13: The program makes no endless run by itself: every sequence of thread steps without new calls of the client ends.\<close>

theorem no_endless_run:
  "\<not> (\<exists>\<sigma>. \<forall>n. run_step (\<sigma> n) (\<sigma> (Suc n)))"
  using run_step_wf unfolding wfp_def wf_iff_no_infinite_down_chain by auto

text \<open>C11: The callbacks of a process run at most once each and in order: \<^verbatim>\<open>OnClosing\<close> after the closing channel is closed,
  \<^verbatim>\<open>OnClosed\<close> later, when the state is \<^verbatim>\<open>Closed\<close>; and both before \<^verbatim>\<open>Done()\<close>: once that channel is closed, no callback of the process
  runs any more, whatever the client and the threads do.\<close>

theorem callbacks_once_in_order:
  assumes "reachable proc_init (proc_step ordered) s"
  shows "ordered_phases (phases a s)
    \<and> (OnClosing \<in> set (phases a s) \<longrightarrow> chan_ready (Closing_chan (heap s a)))
    \<and> (OnClosed \<in> set (phases a s) \<longrightarrow> p_state (heap s a) = Closed)
    \<and> (chan_ready (Done_chan (heap s a)) \<longrightarrow> (\<forall>t. (proc_step ordered)\<^sup>*\<^sup>* s t \<longrightarrow> phases a t = phases a s))"
proof -
  have inv: "proc_inv s (frames s)" and calls: "calls_ok s (frames s)"
    using proc_calls.reachable_inv [OF assms] by auto
  have clo: "close_ok (heap s a) (tally (closer a) (frames s))"
    using inv by (simp add: proc_inv_def closing_ok_def)
  have "ordered_phases (phases a s) \<and> (OnClosing \<in> set (phases a s) \<longrightarrow> chan_ready (Closing_chan (heap s a)))
    \<and> (OnClosed \<in> set (phases a s) \<longrightarrow> p_state (heap s a) = Closed)"
  proof (cases "p_closeOnce (heap s a)")
    case OnceRunning
    with clo obtain k where k: "tally (closer a) (frames s) = {#k#}" and ph: "phase_ok k (heap s a)"
      by (auto simp: close_ok_def)
    then obtain f where f: "f \<in># frames s" and kf: "k \<in># closer a f"
      using tally_mem [of k "closer a" "frames s"] by auto
    from kf have "f = C_body k a"
      by (cases f) (auto split: if_splits)
    with f calls have "phases_at k (phases a s)" and "ordered_phases (phases a s)"
      by (auto simp: calls_ok_def)
    with ph show ?thesis by (cases k) (auto simp: Closing_chan_def)
  qed (use calls clo in \<open>auto simp: calls_ok_def close_ok_def Closing_chan_def\<close>)
  moreover have "(proc_step ordered)\<^sup>*\<^sup>* s t \<Longrightarrow> chan_ready (Done_chan (heap s a)) \<Longrightarrow> phases a t = phases a s" for t
    using steps_silent [of ordered s t a] inv by (simp add: Done_chan_def chan_ready_def)
  ultimately show ?thesis by blast
qed

theorem callbacks_once_in_order_witness:
  "\<exists>s t. reachable proc_init (proc_step True) (s :: nat sys) \<and> phases 0 s = [OnClosing, OnClosed]
     \<and> p_state (heap s 0) = Closed \<and> chan_ready (Done_chan (heap s 0)) \<and> act True (CallClose 0) s = Some t
     \<and> phases 0 t = [OnClosing, OnClosed]"
proof -
  define as :: "nat action list" where "as = Start None 0 ''root'' False # replicate 3 (Run 0 (Hook None))
     @ SetHook 0 OnClosing (Some 7) # SetHook 0 OnClosed (Some 8) # CallClose 0 # replicate 8 (Run 1 (Hook None))"
  have "\<not> Option.is_none (acts True as empty_sys)" unfolding as_def by code_simp
  then obtain s where s: "acts True as empty_sys = Some s" by (rule some_state)
  then have s_eq: "s = the (acts True as empty_sys)" by simp
  have ph: "phases 0 s = [OnClosing, OnClosed]" "chan_ready (Done_chan (heap s 0))" unfolding s_eq as_def by code_simp+
  have "\<not> Option.is_none (act True (CallClose 0) s)" unfolding s_eq as_def by code_simp
  then obtain t where t: "act True (CallClose 0) s = Some t" by (rule some_state)
  have "phases 0 t = phases 0 s \<and> p_state (heap s 0) = Closed"
    using callbacks_once_in_order [OF acts_reachable [OF s], of 0] ph act_step [OF t] by auto
  with ph t acts_reachable [OF s] show ?thesis by (intro exI [of _ s] exI [of _ t]) simp
qed

text \<open>As long as fewer than \<open>2^64\<close> contexts were started, the ids of different contexts differ and so do their labels,
  whatever base labels the client chose.\<close>

theorem ids_and_labels_unique:
  assumes "reachable proc_init (proc_step ordered) s" and "births s < 2 ^ 64"
    and "started a s" and "started b s" and "a \<noteq> b"
  shows "ContextID (heap s a) \<noteq> ContextID (heap s b) \<and> ContextLabel (heap s a) \<noteq> ContextLabel (heap s b)"
proof -
  have ids: "ids_ok s"
    using proc.reachable_inv [OF assms(1)] by (simp add: proc_inv_def)
  then have "labelled (heap s a)" and "labelled (heap s b)"
    using assms(3,4) by (auto simp: ids_ok_def)
  with ids_distinct [OF ids assms(2-4)] assms(5) show ?thesis
    by (auto simp: ContextID_def ContextLabel_def dest: labelled_id)
qed

theorem ids_and_labels_unique_witness:
  "\<exists>s. acts False start_calls empty_sys = Some s \<and> births s = 2
     \<and> ContextID (heap s 0) \<noteq> ContextID (heap s 1) \<and> ContextLabel (heap s 0) \<noteq> ContextLabel (heap s 1)"
proof -
  have "\<not> Option.is_none (acts False start_calls empty_sys)" by code_simp
  then obtain s where s: "acts False start_calls empty_sys = Some s" by (rule some_state)
  then have s_eq: "s = the (acts False start_calls empty_sys)" by simp
  have two: "births s = 2" unfolding s_eq by code_simp
  have st: "started 0 s" "started 1 s" unfolding s_eq by code_simp+
  from ids_and_labels_unique [OF acts_reachable [OF s] _ st] two s show ?thesis by simp
qed

lemma exec_state_code:
  assumes "exec ch f s = Steps s' new sp" and "proc_inv s (add_mset f R)" and "newborn f \<noteq> Some a"
  shows "State_code (p_state (heap s a)) \<le> State_code (p_state (heap s' a))"
proof (cases f)
  case (C_body k b)
  then have "phase_ok k (heap s b)"
    using assms(2) closing_ok_phase [of s "add_mset f R" k b] by (simp add: proc_inv_def)
  with C_body assms(1) show ?thesis
    by (cases k; cases "b = a") (auto split: option.splits if_splits)
qed (use assms(1,3) in \<open>auto simp: heap_upd Let_def split: option.splits if_splits once.splits\<close>)

lemma close_ok_channels:
  assumes "close_ok p n"
  shows "p_chClosed p = ChClosed \<longrightarrow> p_state p = Closed" "p_state p = Closed \<longrightarrow> p_chClosing p = ChClosed"
proof -
  have "phase_ok k p \<Longrightarrow> p_chClosed p \<noteq> ChClosed \<and> (p_state p = Closed \<longrightarrow> p_chClosing p = ChClosed)" for k
    by (cases k) auto
  with assms show "p_chClosed p = ChClosed \<longrightarrow> p_state p = Closed" "p_state p = Closed \<longrightarrow> p_chClosing p = ChClosed"
    by (auto simp: close_ok_def split: once.splits)
qed

text \<open>C12: A started context only moves forward: a step never takes its state back, never reopens its channels, and the
  state and the channels agree (\<^verbatim>\<open>Done()\<close> is released only in the state \<^verbatim>\<open>Closed\<close> and after \<^verbatim>\<open>Closing()\<close>; from \<^verbatim>\<open>Closed\<close>
  on \<^verbatim>\<open>Closing()\<close> is released).\<close>

theorem lifecycle_moves_forward:
  assumes "reachable proc_init (proc_step ordered) s" and "proc_step ordered s t" and "started a s"
  shows "State_code (p_state (heap s a)) \<le> State_code (p_state (heap t a))
    \<and> (chan_ready (Closing_chan (heap s a)) \<longrightarrow> chan_ready (Closing_chan (heap t a)))
    \<and> (chan_ready (Done_chan (heap s a)) \<longrightarrow>
         chan_ready (Done_chan (heap t a)) \<and> p_state (heap s a) = Closed \<and> chan_ready (Closing_chan (heap s a)))
    \<and> (p_state (heap s a) = Closed \<longrightarrow> chan_ready (Closing_chan (heap s a)))"
proof -
  note inv = proc.reachable_inv [OF assms(1)]
  have clo: "close_ok (heap s a) (tally (closer a) (frames s))"
    using inv by (simp add: proc_inv_def closing_ok_def)
  note agree = close_ok_channels [OF clo]
  have "State_code (p_state (heap s a)) \<le> State_code (p_state (heap t a))
      \<and> (p_chClosing (heap s a) = ChClosed \<longrightarrow> p_chClosing (heap t a) = ChClosed)
      \<and> (p_chClosed (heap s a) = ChClosed \<longrightarrow> p_chClosed (heap t a) = ChClosed)"
  proof (cases "client_step s t")
    case True
    then show ?thesis by (cases rule: client_step.cases) (auto simp: heap_upd)
  next
    case False
    with assms(2) obtain f where "thread_step ordered f s t" by (auto simp: proc_step_def)
    then show ?thesis
    proof (cases rule: thread_step.cases)
      case (thread_stepI i rest ch s' new spawned)
      obtain R where R: "frames s = add_mset f R"
        using frames_step [OF thread_stepI(2,3), where s' = s' and new = new and sp = spawned] by metis
      then have fok: "frame_ok s f" using inv by (simp add: proc_inv_def frames_ok_def)
      with assms(3) have nb: "newborn f \<noteq> Some a" using newborn_unstarted by blast
      note exec_state_code [OF thread_stepI(4) inv [unfolded R] nb]
      with thread_stepI nb exec_closed [OF thread_stepI(4) _ nb] exec_chClosing [OF thread_stepI(4) nb]
      show ?thesis by auto
    qed
  qed
  with agree show ?thesis
    by (auto simp: Closing_chan_def Done_chan_def chan_ready_def)
qed

theorem lifecycle_moves_forward_witness:
  "\<exists>s t. acts False (start_calls @ [CallClose 0, Run 3 (Hook None)]) empty_sys = Some s \<and> proc_step False s t
     \<and> p_state (heap s 0) = Started \<and> p_state (heap t 0) = Closing
     \<and> State_code (p_state (heap s 0)) \<le> State_code (p_state (heap t 0))"
proof -
  have "\<not> Option.is_none (acts False (start_calls @ [CallClose 0, Run 3 (Hook None)]) empty_sys)" by code_simp
  then obtain s where s: "acts False (start_calls @ [CallClose 0, Run 3 (Hook None)]) empty_sys = Some s"
    by (rule some_state)
  then have s_eq: "s = the (acts False (start_calls @ [CallClose 0, Run 3 (Hook None)]) empty_sys)" by simp
  have "\<not> Option.is_none (act False (Run 3 (Hook None)) s)" unfolding s_eq by code_simp
  then obtain t where t: "act False (Run 3 (Hook None)) s = Some t" by (rule some_state)
  then have t_eq: "t = the (act False (Run 3 (Hook None)) s)" by simp
  have states: "p_state (heap s 0) = Started" "p_state (heap t 0) = Closing"
    unfolding t_eq s_eq by code_simp+
  then have "started 0 s" by (simp add: started_def)
  from lifecycle_moves_forward [OF acts_reachable [OF s] act_step [OF t] this] s states act_step [OF t]
  show ?thesis by blast
qed

text \<open>The list of children holds no child twice, and the wait group counts only listed children, never fewer than none.\<close>

theorem children_bounds:
  assumes "reachable proc_init (proc_step ordered) s"
  shows "distinct (GetChildren (heap s p) []) \<and> 0 \<le> p_running (heap s p)
    \<and> p_running (heap s p) \<le> ChildCount (heap s p)"
proof -
  note inv = proc.reachable_inv [OF assms]
  have "tally (holds p) F \<le> size (tally (listed p) F)" for F
  proof (induction F)
    case (add f F)
    have "holds p f \<le> size (listed p f)" by (cases f) auto
    with add show ?case by simp
  qed simp
  moreover have "size (tally (listed p) (frames s)) = length (p_subs (heap s p))"
    using inv by (metis proc_inv_def size_mset subs_ok_def)
  moreover have "distinct (p_subs (heap s p))"
    using inv by (auto simp: proc_inv_def intro: subs_distinct)
  ultimately show ?thesis
    using inv by (auto simp: proc_inv_def running_ok_def GetChildren_def ChildCount_def) (metis of_nat_le_iff)
qed

theorem children_bounds_witness:
  "\<exists>s. acts False start_calls empty_sys = Some s \<and> GetChildren (heap s 0) [] = [1]
     \<and> p_running (heap s 0) \<le> ChildCount (heap s 0)"
proof -
  have "\<not> Option.is_none (acts False start_calls empty_sys)" by code_simp
  then obtain s where s: "acts False start_calls empty_sys = Some s" by (rule some_state)
  then have s_eq: "s = the (acts False start_calls empty_sys)" by simp
  have "GetChildren (heap s 0) [] = [1]" unfolding s_eq by code_simp
  with children_bounds [OF acts_reachable [OF s], of 0] s show ?thesis by blast
qed



text \<open>C17: \<^verbatim>\<open>StartChild\<close> under a parent that is not \<^verbatim>\<open>Started\<close> (it is \<^verbatim>\<open>Closing\<close> or \<^verbatim>\<open>Closed\<close>) fails with \<^verbatim>\<open>ErrUnstarted\<close>,
  changes nothing, starts no goroutine and leaves behind the child it has initialised: unless some other call knows the child
  already, it stays \<^verbatim>\<open>Started\<close>, with both channels open, in nobody's list of children and without a call of \<^verbatim>\<open>Close\<close>, for as long
  as the client does nothing with it.\<close>

theorem refused_child_is_left_open:
  fixes s :: "'cb sys"
  assumes "reachable proc_init (proc_step ordered) s" and "i < length (threads s)" and "threads s ! i = SC_check p c go # rest"
    and "p_state (heap s p) \<noteq> Started"
  shows "exec ch (SC_check p c go) s = Steps s [SC_return c go (Some ErrUnstarted)] []
    \<and> (\<forall>u :: 'cb sys. exec ch (SC_return c go (Some ErrUnstarted)) u = Steps u [Ret (Some ErrUnstarted)] [])
    \<and> (mentions c s = {#SC_check p c go#} \<and> p_closeOnce (heap s c) = OnceNew \<longrightarrow>
        (\<forall>t. (leaves_alone ordered c)\<^sup>*\<^sup>* (s\<lparr>threads := (threads s)[i := SC_return c go (Some ErrUnstarted) # rest]\<rparr>) t \<longrightarrow>
           heap t c = heap s c \<and> p_state (heap t c) = Started \<and> \<not> chan_ready (Closing_chan (heap t c))
           \<and> \<not> chan_ready (Done_chan (heap t c)) \<and> \<not> close_called c t \<and> (\<forall>q. c \<notin> set (GetChildren (heap t q) []))))"
proof (intro conjI impI allI)
  show "exec ch (SC_check p c go) s = Steps s [SC_return c go (Some ErrUnstarted)] []" using assms(4) by simp
  show "exec ch (SC_return c go (Some ErrUnstarted)) u = Steps u [Ret (Some ErrUnstarted)] []" for u :: "'cb sys" by simp
  let ?u = "s\<lparr>threads := (threads s)[i := SC_return c go (Some ErrUnstarted) # rest]\<rparr>"
  fix t assume only: "mentions c s = {#SC_check p c go#} \<and> p_closeOnce (heap s c) = OnceNew"
    and t: "(leaves_alone ordered c)\<^sup>*\<^sup>* ?u t"
  note inv = proc.reachable_inv [OF assms(1)]
  obtain R where R: "frames s = add_mset (SC_check p c go) R" "frames ?u = add_mset (SC_return c go (Some ErrUnstarted)) R"
    using frames_step [OF assms(2,3), where s' = s and new = "[SC_return c go (Some ErrUnstarted)]" and sp = "[]"] by auto
  from only R(1) have "filter_mset (\<lambda>f. c \<in> pc_addrs f) R = {#}" by (simp add: mentions_def)
  then have "f \<in># R \<Longrightarrow> c \<notin> pc_addrs f" for f by simp
  with R(2) have u: "refused c ?u" by (auto simp: refused_def)
  have "thread_step False (SC_check p c go) s (s\<lparr>threads := (threads s)[i := [SC_return c go (Some ErrUnstarted)] @ rest] @ []\<rparr>)"
    using assms(2-4) by (intro thread_stepI) simp_all
  then have "proc_step False s ?u" by (auto simp: proc_step_def)
  then have "proc_inv ?u (frames ?u)" by (rule proc.step_inv [rotated]) (rule inv)
  note later = leaves_alone_steps [OF t u this]
  have "frame_ok s (SC_check p c go)" "close_ok (heap s c) (tally (closer c) (frames s))"
    using inv R(1) by (auto simp: proc_inv_def frames_ok_def closing_ok_def)
  with only have c: "p_state (heap s c) = Started" "p_chClosing (heap s c) = ChOpen" "p_chClosed (heap s c) = ChOpen"
    by (auto simp: frame_ok_def started_def close_ok_def)
  show "heap t c = heap s c" using later by simp
  with c only show "p_state (heap t c) = Started" "\<not> chan_ready (Closing_chan (heap t c))" "\<not> chan_ready (Done_chan (heap t c))"
    by (simp_all add: Closing_chan_def Done_chan_def chan_ready_def)
  show "\<not> close_called c t" using later only by (auto simp: close_called_def refused_def)
  show "c \<notin> set (GetChildren (heap t q) [])" for q
    using refused_unlisted [of c t] later by (simp add: GetChildren_def)
qed

theorem refused_child_is_left_open_witness:
  "\<exists>s t. reachable proc_init (proc_step True) (s :: nat sys) \<and> threads s ! 2 = [SC_check 0 1 False]
     \<and> p_state (heap s 0) = Closing \<and> (proc_step True)\<^sup>*\<^sup>* s t \<and> idle t \<and> [Ret (Some ErrUnstarted)] \<in> set (threads t)
     \<and> p_state (heap t 0) = Closed \<and> p_state (heap t 1) = Started \<and> \<not> close_called 1 t"
proof -
  define as :: "nat action list" where "as = Start None 0 ''root'' False # replicate 3 (Run 0 (Hook None))
     @ CallClose 0 # replicate 2 (Run 1 (Hook None)) @ Start (Some 0) 1 ''late'' False # [Run 2 (Hook None)]"
  define rs :: "(nat \<times> choice) list" where "rs = (2, Hook None) # replicate 6 (1, Hook None)"
  have "\<not> Option.is_none (acts True as empty_sys)" unfolding as_def by code_simp
  then obtain s where s: "acts True as empty_sys = Some s" by (rule some_state)
  then have s_eq: "s = the (acts True as empty_sys)" by simp
  have ths: "threads s = [[Ret None], [C_body KSignal 0], [SC_check 0 1 False]]" unfolding s_eq as_def by code_simp
  have st: "p_state (heap s 0) = Closing" "p_closeOnce (heap s 1) = OnceNew" "p_state (heap s 1) = Started"
    unfolding s_eq as_def by code_simp+
  let ?u = "s\<lparr>threads := (threads s)[2 := SC_return 1 False (Some ErrUnstarted) # []]\<rparr>"
  have u: "act True (Run 2 (Hook None)) s = Some ?u" by (simp add: ths st in_order_exec_def)
  have "\<not> Option.is_none (acts True (Run 2 (Hook None) # runs rs) s)" unfolding s_eq as_def rs_def by code_simp
  then obtain t where t: "acts True (Run 2 (Hook None) # runs rs) s = Some t" by (rule some_state)
  then have t_eq: "t = the (acts True (Run 2 (Hook None) # runs rs) s)" by simp
  have ths': "threads t = [[Ret None], [], [Ret (Some ErrUnstarted)]]" unfolding t_eq s_eq as_def rs_def by code_simp
  have closed: "p_state (heap t 0) = Closed" unfolding t_eq s_eq as_def rs_def by code_simp
  have idle: "idle t" by (rule returned_idle) (simp add: ths')
  have only: "mentions 1 s = {#SC_check 0 1 False#}" by (simp add: mentions_def frames_def ths)
  have "acts True (runs rs) ?u = Some t" using t u by simp
  then have "(leaves_alone True 1)\<^sup>*\<^sup>* ?u t" by (rule runs_leave_alone)
  then have "p_state (heap t 1) = Started \<and> \<not> close_called 1 t"
    using refused_child_is_left_open [OF acts_reachable [OF s], of 2 0 1 False "[]" "Hook None"] only st by (simp add: ths)
  with acts_reachable [OF s] acts_steps [OF t] ths ths' st closed idle show ?thesis
    by (intro exI [of _ s] exI [of _ t]) simp
qed

end
