(* ===== verification/Cedar_Pool.thy ===== *)
theory Cedar_Pool
  imports Cedar_Prelude Cedar_Mailbox Cedar_Log
begin

text \<open>
  The work pool of \<^verbatim>\<open>process/pool.go\<close> and its workers, \<^verbatim>\<open>process/pool_worker.go\<close>. The operations
  that hold \<^verbatim>\<open>poolItemsMu\<close> are functions on the pool; \<open>None\<close> is a panic. The goroutines (the one
  that delivers available items, the one that looks for due retries, the workers) are program
  counters of a step relation whose events name who moves.

  The semaphore comes from \<^verbatim>\<open>golang.org/x/sync\<close>, which is not in the repository: it is a
  parameter, the operations \<open>acquire\<close> and \<open>release\<close> on an arbitrary type, and \<open>semaphore\<close> states
  what its documentation promises.
\<close>

section \<open>The semaphore\<close>

text \<open>
  \<open>acquire\<close> gives \<open>None\<close> while the semaphore is exhausted (the call would block), \<open>release\<close> gives
  \<open>None\<close> where releasing more than is held panics. \<open>held\<close> counts what is held of the size \<open>n\<close>.
\<close>

record 'sem sem_ops =
  sem_new :: "int \<Rightarrow> 'sem"
  sem_acquire :: "'sem \<Rightarrow> 'sem option"
  sem_release :: "'sem \<Rightarrow> 'sem option"

definition semaphore :: "'sem sem_ops \<Rightarrow> int \<Rightarrow> ('sem \<Rightarrow> nat) \<Rightarrow> bool" where
  "semaphore ops n held \<longleftrightarrow>
     held (sem_new ops n) = 0
     \<and> (\<forall>m. int (held m) < n \<longleftrightarrow> sem_acquire ops m \<noteq> None)
     \<and> (\<forall>m m'. sem_acquire ops m = Some m' \<longrightarrow> held m' = held m + 1)
     \<and> (\<forall>m. 0 < held m \<longleftrightarrow> sem_release ops m \<noteq> None)
     \<and> (\<forall>m m'. sem_release ops m = Some m' \<longrightarrow> held m' = held m - 1)"

section \<open>The pool\<close>

datatype poolItemState = Available | InUse | Done | InRetryPool

text \<open>Times are nanoseconds since \<^verbatim>\<open>time.Time{}\<close>, which is \<open>0\<close>.\<close>

record 'i poolItem =
  pi_item :: 'i
  pi_state :: poolItemState
  pi_retryWhen :: int

record ('k, 'i, 'sem) pool =
  itemsAvailable :: "'k mailbox"
  pool_sem :: 'sem
  retryInterval :: int
  poolItems :: "'k \<rightharpoonup> 'i poolItem"

definition NewPool :: "'sem sem_ops \<Rightarrow> int \<Rightarrow> int \<Rightarrow> ('k, 'i, 'sem) pool" where
  "NewPool ops concurrency interval =
     \<lparr>itemsAvailable = NewMailbox 1000, pool_sem = sem_new ops concurrency,
      retryInterval = interval, poolItems = Map.empty\<rparr>"

text \<open>Counting loop over the map, in the order \<open>ks\<close> of its keys.\<close>

definition NumItemsPending :: "'k list \<Rightarrow> ('k, 'i, 'sem) pool \<Rightarrow> int" where
  "NumItemsPending ks p =
     fold (\<lambda>k n. case poolItems p k of
                   None \<Rightarrow> n
                 | Some item \<Rightarrow> if pi_state item = Available \<or> pi_state item = InRetryPool then n + 1 else n)
       ks 0"

text \<open>\<open>ID\<close> is the \<^verbatim>\<open>ID()\<close> method of the item's interface.\<close>

definition Add :: "('i \<Rightarrow> 'k) \<Rightarrow> 'i \<Rightarrow> ('k, 'i, 'sem) pool \<Rightarrow> ('k, 'i, 'sem) pool" where
  "Add ID item p =
     (case poolItems p (ID item) of
        Some _ \<Rightarrow> p
      | None \<Rightarrow> p\<lparr>poolItems := (poolItems p)(ID item \<mapsto> \<lparr>pi_item = item, pi_state = Available, pi_retryWhen = 0\<rparr>),
                  itemsAvailable := Deliver (ID item) (itemsAvailable p)\<rparr>)"

definition setState ::
    "'k \<Rightarrow> poolItemState \<Rightarrow> int \<Rightarrow> ('k, 'i, 'sem) pool \<Rightarrow> ('k, 'i, 'sem) pool option" where
  "setState uid state retryWhen p =
     (case poolItems p uid of
        None \<Rightarrow> None
      | Some entry \<Rightarrow>
          Some (p\<lparr>poolItems := (poolItems p)(uid \<mapsto> entry\<lparr>pi_state := state, pi_retryWhen := retryWhen\<rparr>)\<rparr>))"

definition release_one :: "'sem sem_ops \<Rightarrow> ('k, 'i, 'sem) pool \<Rightarrow> ('k, 'i, 'sem) pool option" where
  "release_one ops p =
     (case sem_release ops (pool_sem p) of None \<Rightarrow> None | Some m \<Rightarrow> Some (p\<lparr>pool_sem := m\<rparr>))"

definition RetryLater ::
    "'sem sem_ops \<Rightarrow> 'k \<Rightarrow> int \<Rightarrow> ('k, 'i, 'sem) pool \<Rightarrow> ('k, 'i, 'sem) pool option" where
  "RetryLater ops uid when p =
     (case setState uid InRetryPool when p of None \<Rightarrow> None | Some p' \<Rightarrow> release_one ops p')"

definition Complete :: "'sem sem_ops \<Rightarrow> 'k \<Rightarrow> ('k, 'i, 'sem) pool \<Rightarrow> ('k, 'i, 'sem) pool option" where
  "Complete ops uid p =
     (case setState uid Done 0 p of None \<Rightarrow> None | Some p' \<Rightarrow> release_one ops p')"

definition make_available :: "'k \<Rightarrow> ('k, 'i, 'sem) pool \<Rightarrow> ('k, 'i, 'sem) pool option" where
  "make_available uid p =
     (case setState uid Available 0 p of
        None \<Rightarrow> None
      | Some p' \<Rightarrow> Some (p'\<lparr>itemsAvailable := Deliver uid (itemsAvailable p')\<rparr>))"

definition ForceRetry :: "'k \<Rightarrow> ('k, 'i, 'sem) pool \<Rightarrow> ('k, 'i, 'sem) pool option" where
  "ForceRetry uid p =
     (case poolItems p uid of
        None \<Rightarrow> None
      | Some entry \<Rightarrow>
          (case pi_state entry of
             Available \<Rightarrow> Some p
           | InUse \<Rightarrow> Some p
           | InRetryPool \<Rightarrow> make_available uid p
           | Done \<Rightarrow> Some p))"

text \<open>The body of the ticker's case: a loop over the map, in the order \<open>ks\<close> of its keys, at time \<open>now\<close>.\<close>

fun retry_due :: "'k list \<Rightarrow> int \<Rightarrow> ('k, 'i, 'sem) pool \<Rightarrow> ('k, 'i, 'sem) pool option" where
  "retry_due [] now p = Some p"
| "retry_due (uid # ks) now p =
     (case poolItems p uid of
        None \<Rightarrow> retry_due ks now p
      | Some entry \<Rightarrow>
          if pi_state entry \<noteq> InRetryPool then retry_due ks now p
          else if \<not> pi_retryWhen entry < now then retry_due ks now p
          else (case make_available uid p of None \<Rightarrow> None | Some p' \<Rightarrow> retry_due ks now p'))"

text \<open>The part of \<^verbatim>\<open>Get\<close> after an id was received: the item of an available entry, or a panic.\<close>

definition get_item :: "'k \<Rightarrow> ('k, 'i, 'sem) pool \<Rightarrow> 'i option" where
  "get_item uid p =
     (case poolItems p uid of
        None \<Rightarrow> None
      | Some entry \<Rightarrow> if pi_state entry \<noteq> Available then None else Some (pi_item entry))"

lemmas pool_ops [go_ops] =
  NewPool_def Add_def setState_def release_one_def RetryLater_def Complete_def make_available_def
  ForceRetry_def get_item_def

section \<open>The goroutines\<close>

text \<open>\<^verbatim>\<open>deliverAvailableItems\<close>: at the outer \<^verbatim>\<open>select\<close>, before \<^verbatim>\<open>RetrieveAll\<close>, in the loop over the retrieved ids, at the send.\<close>

datatype 'k dpc = D_select | D_retrieve | D_loop "'k list" | D_send 'k "'k list" | D_return

text \<open>
  The check of an id: an unknown id is skipped, an available one is sent, anything else is a panic
  (\<open>None\<close>).
\<close>

definition deliver_check :: "'k \<Rightarrow> 'k list \<Rightarrow> ('k, 'i, 'sem) pool \<Rightarrow> 'k dpc option" where
  "deliver_check uid ids p =
     (case poolItems p uid of
        None \<Rightarrow> Some (D_loop ids)
      | Some entry \<Rightarrow> if pi_state entry \<noteq> Available then None else Some (D_send uid ids))"

text \<open>
  A worker: at the head of its loop, in \<^verbatim>\<open>sem.Acquire\<close>, in the \<^verbatim>\<open>select\<close> of \<^verbatim>\<open>Get\<close>, with an id received,
  in \<^verbatim>\<open>item.Work\<close>, about to report whether to retry.
\<close>

datatype ('k, 'i) wpc =
    Wk_top | Wk_acquire | Wk_select | Wk_lookup 'k | Wk_work 'i | Wk_report 'i bool | Wk_return

text \<open>
  \<^verbatim>\<open>handleItemsAwaitingRetry\<close>: before \<^verbatim>\<open>time.NewTicker\<close>, which panics unless the interval is positive; in its loop; returned.
\<close>

datatype hpc = H_start | H_loop | H_return

text \<open>
  The pool with its goroutines; \<open>d_ctx\<close>, \<open>h_ctx\<close> and \<open>w_ctx i\<close> say that the context of the deliverer, of the
  retry handler and of worker \<open>i\<close> is done. Any number of workers may share a pool.
\<close>

record ('k, 'i, 'sem) psys =
  pool :: "('k, 'i, 'sem) pool"
  deliverer :: "'k dpc"
  workers :: "('k, 'i) wpc list"
  d_ctx :: bool
  h_ctx :: bool
  handler :: hpc
  w_ctx :: "nat \<Rightarrow> bool"

definition NewPoolWorker :: "'sem sem_ops \<Rightarrow> int \<Rightarrow> int \<Rightarrow> ('k, 'i, 'sem) psys" where
  "NewPoolWorker ops concurrency interval =
     \<lparr>pool = NewPool ops concurrency interval, deliverer = D_select,
      workers = replicate (nat concurrency) Wk_top,
      d_ctx = False, h_ctx = False, handler = H_start, w_ctx = (\<lambda>_. False)\<rparr>"

text \<open>Who makes a step; the retry handler's step carries the time it reads.\<close>

datatype ('k, 'i) event =
  Client_add 'i | Client_force 'k | Cancel | Handler_start | Handler int | Handler_stop | Deliverer | Handoff nat 'k | Worker nat

inductive pool_step ::
    "'sem sem_ops \<Rightarrow> ('i \<Rightarrow> 'k) \<Rightarrow> ('k, 'i) event \<Rightarrow> ('k, 'i, 'sem) psys \<Rightarrow> ('k, 'i, 'sem) psys \<Rightarrow> bool"
  for ops :: "'sem sem_ops" and ID :: "'i \<Rightarrow> 'k"
where
  step_add: "pool_step ops ID (Client_add item) s (s\<lparr>pool := Add ID item (pool s)\<rparr>)"
| step_force: "ForceRetry uid (pool s) = Some p \<Longrightarrow> pool_step ops ID (Client_force uid) s (s\<lparr>pool := p\<rparr>)"
| step_cancel: "pool_step ops ID Cancel s
     (s\<lparr>d_ctx := d_ctx s \<or> d, h_ctx := h_ctx s \<or> h, w_ctx := (\<lambda>i. w_ctx s i \<or> w i)\<rparr>)"
| step_h_start: "handler s = H_start \<Longrightarrow> 0 < retryInterval (pool s) \<Longrightarrow>
     pool_step ops ID Handler_start s (s\<lparr>handler := H_loop\<rparr>)"
| step_h_stop: "handler s = H_loop \<Longrightarrow> h_ctx s \<Longrightarrow> pool_step ops ID Handler_stop s (s\<lparr>handler := H_return\<rparr>)"
| step_tick: "handler s = H_loop \<Longrightarrow> iterates ks (poolItems (pool s)) \<Longrightarrow> retry_due ks now (pool s) = Some p \<Longrightarrow>
     pool_step ops ID (Handler now) s (s\<lparr>pool := p\<rparr>)"
| step_d_done: "d_ctx s \<Longrightarrow> deliverer s = D_select \<or> deliverer s = D_send uid ids \<Longrightarrow>
     pool_step ops ID Deliverer s (s\<lparr>deliverer := D_return\<rparr>)"
| step_d_notify: "deliverer s = D_select \<Longrightarrow> Notify (itemsAvailable (pool s)) = Some m \<Longrightarrow>
     pool_step ops ID Deliverer s (s\<lparr>deliverer := D_retrieve, pool := (pool s)\<lparr>itemsAvailable := m\<rparr>\<rparr>)"
| step_d_retrieve: "deliverer s = D_retrieve \<Longrightarrow> RetrieveAll (itemsAvailable (pool s)) = (ids, m) \<Longrightarrow>
     pool_step ops ID Deliverer s (s\<lparr>deliverer := D_loop ids, pool := (pool s)\<lparr>itemsAvailable := m\<rparr>\<rparr>)"
| step_d_next: "deliverer s = D_loop (uid # ids) \<Longrightarrow> deliver_check uid ids (pool s) = Some d \<Longrightarrow>
     pool_step ops ID Deliverer s (s\<lparr>deliverer := d\<rparr>)"
| step_d_again: "deliverer s = D_loop [] \<Longrightarrow> pool_step ops ID Deliverer s (s\<lparr>deliverer := D_select\<rparr>)"
| step_handoff: "deliverer s = D_send uid ids \<Longrightarrow> i < length (workers s) \<Longrightarrow> workers s ! i = Wk_select \<Longrightarrow>
     pool_step ops ID (Handoff i uid) s
       (s\<lparr>deliverer := D_loop ids, workers := (workers s)[i := Wk_lookup uid]\<rparr>)"
| step_w_stop: "i < length (workers s) \<Longrightarrow> workers s ! i = Wk_top \<Longrightarrow> w_ctx s i \<Longrightarrow>
     pool_step ops ID (Worker i) s (s\<lparr>workers := (workers s)[i := Wk_return]\<rparr>)"
| step_w_go: "i < length (workers s) \<Longrightarrow> workers s ! i = Wk_top \<Longrightarrow> \<not> w_ctx s i \<Longrightarrow>
     pool_step ops ID (Worker i) s (s\<lparr>workers := (workers s)[i := Wk_acquire]\<rparr>)"
| step_w_acquire: "i < length (workers s) \<Longrightarrow> workers s ! i = Wk_acquire \<Longrightarrow>
     sem_acquire ops (pool_sem (pool s)) = Some m \<Longrightarrow>
     pool_step ops ID (Worker i) s
       (s\<lparr>workers := (workers s)[i := Wk_select], pool := (pool s)\<lparr>pool_sem := m\<rparr>\<rparr>)"
| step_w_acquire_err: "i < length (workers s) \<Longrightarrow> workers s ! i = Wk_acquire \<Longrightarrow> w_ctx s i \<Longrightarrow>
     pool_step ops ID (Worker i) s (s\<lparr>workers := (workers s)[i := Wk_return]\<rparr>)"
| step_w_select_err: "i < length (workers s) \<Longrightarrow> workers s ! i = Wk_select \<Longrightarrow> w_ctx s i \<Longrightarrow>
     release_one ops (pool s) = Some p \<Longrightarrow>
     pool_step ops ID (Worker i) s (s\<lparr>workers := (workers s)[i := Wk_return], pool := p\<rparr>)"
| step_w_lookup: "i < length (workers s) \<Longrightarrow> workers s ! i = Wk_lookup uid \<Longrightarrow>
     get_item uid (pool s) = Some item \<Longrightarrow>
     pool_step ops ID (Worker i) s (s\<lparr>workers := (workers s)[i := Wk_work item]\<rparr>)"
| step_w_work: "i < length (workers s) \<Longrightarrow> workers s ! i = Wk_work item \<Longrightarrow>
     pool_step ops ID (Worker i) s (s\<lparr>workers := (workers s)[i := Wk_report item retry]\<rparr>)"
| step_w_retry: "i < length (workers s) \<Longrightarrow> workers s ! i = Wk_report item True \<Longrightarrow>
     RetryLater ops (ID item) when (pool s) = Some p \<Longrightarrow>
     pool_step ops ID (Worker i) s (s\<lparr>workers := (workers s)[i := Wk_top], pool := p\<rparr>)"
| step_w_complete: "i < length (workers s) \<Longrightarrow> workers s ! i = Wk_report item False \<Longrightarrow>
     Complete ops (ID item) (pool s) = Some p \<Longrightarrow>
     pool_step ops ID (Worker i) s (s\<lparr>workers := (workers s)[i := Wk_top], pool := p\<rparr>)"

definition pool_next ::
    "'sem sem_ops \<Rightarrow> ('i \<Rightarrow> 'k) \<Rightarrow> ('k, 'i, 'sem) psys \<Rightarrow> ('k, 'i, 'sem) psys \<Rightarrow> bool" where
  "pool_next ops ID s t \<longleftrightarrow> (\<exists>e. pool_step ops ID e s t)"

text \<open>A fresh pool of size \<open>n\<close> with any number of workers.\<close>

definition pool_init :: "'sem sem_ops \<Rightarrow> int \<Rightarrow> ('k, 'i, 'sem) psys \<Rightarrow> bool" where
  "pool_init ops n s \<longleftrightarrow> (\<exists>interval. pool s = NewPool ops n interval) \<and> deliverer s = D_select
     \<and> (\<exists>m. workers s = replicate m Wk_top) \<and> \<not> d_ctx s \<and> \<not> h_ctx s \<and> handler s = H_start \<and> w_ctx s = (\<lambda>_. False)"

text \<open>The panics of the pool's own goroutines.\<close>

definition pool_panics :: "'sem sem_ops \<Rightarrow> ('i \<Rightarrow> 'k) \<Rightarrow> ('k, 'i, 'sem) psys \<Rightarrow> bool" where
  "pool_panics ops ID s \<longleftrightarrow>
     (\<exists>uid ids. deliverer s = D_loop (uid # ids) \<and> deliver_check uid ids (pool s) = None)
     \<or> handler s = H_start \<and> retryInterval (pool s) \<le> 0
     \<or> (\<exists>ks now. handler s = H_loop \<and> iterates ks (poolItems (pool s)) \<and> retry_due ks now (pool s) = None)
     \<or> (\<exists>i < length (workers s).
           (\<exists>uid. workers s ! i = Wk_lookup uid \<and> get_item uid (pool s) = None)
         \<or> (workers s ! i = Wk_select \<and> w_ctx s i \<and> release_one ops (pool s) = None)
         \<or> (\<exists>item when. workers s ! i = Wk_report item True \<and> RetryLater ops (ID item) when (pool s) = None)
         \<or> (\<exists>item. workers s ! i = Wk_report item False \<and> Complete ops (ID item) (pool s) = None))"

end
