(* ===== verification/Cedar_Pool_Inv.thy ===== *)
theory Cedar_Pool_Inv
  imports Cedar_Pool
begin

text \<open>
  The invariant of the pool: every available id is in at most one place (the mailbox, the deliverer,
  a worker), ids in a place are available, and the semaphore is held once for each worker past
  \<^verbatim>\<open>Acquire\<close>. The operations of the pool are treated first, against an account \<open>away\<close> of the ids that
  the goroutines hold.
\<close>

section \<open>The pool and what is away from it\<close>

definition avail :: "'k \<Rightarrow> ('k, 'i, 'sem) pool \<Rightarrow> bool" where
  "avail k p \<longleftrightarrow> (\<exists>e. poolItems p k = Some e \<and> pi_state e = Available)"

definition queued :: "'k \<Rightarrow> ('k, 'i, 'sem) pool \<Rightarrow> nat" where
  "queued k p = count (mset (contents (itemsAvailable p))) k"

definition pool_ok :: "('i \<Rightarrow> 'k) \<Rightarrow> ('k, 'i, 'sem) pool \<Rightarrow> ('k \<Rightarrow> nat) \<Rightarrow> bool" where
  [go_inv]: "pool_ok ID p away \<longleftrightarrow>
     mb_ok (itemsAvailable p) \<and> mb_limit (itemsAvailable p) = 1000 \<and> finite (dom (poolItems p))
     \<and> (\<forall>k e. poolItems p k = Some e \<longrightarrow> ID (pi_item e) = k \<and> pi_state e \<noteq> InUse)
     \<and> (\<forall>k. queued k p + away k \<le> of_bool (avail k p))"

text \<open>Nothing available is missing; this needs room in the mailbox for all ids of the pool.\<close>

definition pool_all :: "('k, 'i, 'sem) pool \<Rightarrow> ('k \<Rightarrow> nat) \<Rightarrow> bool" where
  [go_inv]: "pool_all p away \<longleftrightarrow>
     (card (dom (poolItems p)) \<le> 1000 \<longrightarrow> (\<forall>k. avail k p \<longrightarrow> 0 < queued k p + away k))"

lemma pool_okD:
  assumes "pool_ok ID p away"
  shows "mb_ok (itemsAvailable p)" "mb_limit (itemsAvailable p) = 1000" "finite (dom (poolItems p))"
    "\<And>k e. poolItems p k = Some e \<Longrightarrow> ID (pi_item e) = k"
    "\<And>k e. poolItems p k = Some e \<Longrightarrow> pi_state e \<noteq> InUse"
    "\<And>k. queued k p + away k \<le> of_bool (avail k p)"
  using assms unfolding pool_ok_def by blast+

lemma count_window: "count (mset (window n xs)) k \<le> count (mset xs) k"
proof -
  have "mset (drop m xs) \<subseteq># mset xs" for m
    by (metis append_take_drop_id mset_append mset_subset_eq_add_right)
  then show ?thesis by (simp add: window_def mset_subset_eq_count)
qed

lemma contents_room:
  assumes ok: "pool_ok ID p away" and k: "\<not> avail k p" "k \<in> D" "dom (poolItems p) \<subseteq> D" "finite D" "card D \<le> 1000"
  shows "length (contents (itemsAvailable p)) < 1000"
proof -
  let ?q = "contents (itemsAvailable p)"
  have cnt: "count (mset ?q) j \<le> of_bool (avail j p)" for j
    using pool_okD(6) [OF ok, of j] by (simp add: queued_def)
  then have "distinct ?q"
    unfolding distinct_count_atmost_1
    by (metis (no_types, lifting) One_nat_def count_mset_0_iff le_Suc_eq le_trans le_zero_eq of_bool_less_eq_one)
  moreover have "set ?q \<subseteq> D - {k}"
  proof
    fix j assume "j \<in> set ?q"
    then have "0 < count (mset ?q) j" by simp
    with cnt [of j] have "avail j p" by (cases "avail j p") auto
    with k show "j \<in> D - {k}" by (auto simp: avail_def)
  qed
  then have "card (set ?q) < card D"
    using k by (intro psubset_card_mono) auto
  ultimately show ?thesis
    using k by (simp add: distinct_card)
qed

text \<open>An id becomes available and is delivered: the step that \<^verbatim>\<open>Add\<close>, \<^verbatim>\<open>ForceRetry\<close> and the retry handler share.\<close>

lemma deliver_new:
  assumes ok: "pool_ok ID p away"
    and k: "\<not> avail k p" "ID (pi_item e) = k" "pi_state e = Available"
    and p': "p' = p\<lparr>poolItems := (poolItems p)(k \<mapsto> e), itemsAvailable := Deliver k (itemsAvailable p)\<rparr>"
  shows "pool_ok ID p' away \<and> (pool_all p away \<longrightarrow> pool_all p' away)"
proof -
  note ok' = pool_okD [OF ok]
  have k0: "queued k p = 0" "away k = 0"
    using ok'(6) [of k] k by auto
  have cont: "contents (itemsAvailable p') = window 1000 (contents (itemsAvailable p) @ [k])"
    using ok'(1,2) p' by (simp add: contents_Deliver)
  have q: "queued j p' \<le> queued j p + of_bool (j = k)" for j
    using count_window [of 1000 "contents (itemsAvailable p) @ [k]" j]
    by (auto simp: queued_def cont split: if_splits)
  have av: "avail j p' \<longleftrightarrow> avail j p \<or> j = k" for j
    using k p' by (auto simp: avail_def)
  have cap: "queued j p' + away j \<le> of_bool (avail j p')" for j
    using ok'(6) [of j] q [of j] k0 by (cases "j = k") (auto simp: av)
  have "pool_ok ID p' away"
    unfolding pool_ok_def using ok' cap k p' by auto
  moreover have "pool_all p' away" if all: "pool_all p away"
    unfolding pool_all_def
  proof (intro impI allI)
    fix j assume small: "card (dom (poolItems p')) \<le> 1000" and j: "avail j p'"
    have dom: "dom (poolItems p) \<subseteq> dom (poolItems p')" "k \<in> dom (poolItems p')" "finite (dom (poolItems p'))"
      using p' ok'(3) by auto
    then have "length (contents (itemsAvailable p)) < 1000"
      using contents_room [OF ok k(1), of "dom (poolItems p')"] small by auto
    then have "queued j p' = queued j p + of_bool (j = k)"
      by (simp add: queued_def cont window_short)
    moreover have "card (dom (poolItems p)) \<le> 1000"
      using card_mono [OF dom(3) dom(1)] small by simp
    ultimately show "0 < queued j p' + away j"
      using all j by (auto simp: pool_all_def av)
  qed
  ultimately show ?thesis by blast
qed

lemma Add_ok:
  assumes "pool_ok ID p away"
  shows "pool_ok ID (Add ID item p) away \<and> (pool_all p away \<longrightarrow> pool_all (Add ID item p) away)"
proof (cases "poolItems p (ID item)")
  case None
  then show ?thesis
    using assms by (intro deliver_new [OF assms, of "ID item"]) (auto simp: Add_def avail_def)
qed (use assms in \<open>simp add: Add_def\<close>)

lemma make_available_Some:
  "make_available k p = Some p' \<longleftrightarrow> (\<exists>e. poolItems p k = Some e
     \<and> p' = p\<lparr>poolItems := (poolItems p)(k \<mapsto> e\<lparr>pi_state := Available, pi_retryWhen := 0\<rparr>),
              itemsAvailable := Deliver k (itemsAvailable p)\<rparr>)"
  by (auto simp: make_available_def setState_def split: option.splits)

lemma make_available_ok:
  assumes "pool_ok ID p away" and "\<not> avail k p" and "make_available k p = Some p'"
  shows "pool_ok ID p' away \<and> (pool_all p away \<longrightarrow> pool_all p' away)"
proof -
  from assms(3) obtain e where e: "poolItems p k = Some e"
    "p' = p\<lparr>poolItems := (poolItems p)(k \<mapsto> e\<lparr>pi_state := Available, pi_retryWhen := 0\<rparr>),
              itemsAvailable := Deliver k (itemsAvailable p)\<rparr>"
    by (auto simp: make_available_Some)
  with pool_okD(4) [OF assms(1) e(1)] show ?thesis
    by (intro deliver_new [OF assms(1,2) _ _ e(2)]) auto
qed

lemma ForceRetry_ok:
  assumes "pool_ok ID p away" and "ForceRetry k p = Some p'"
  shows "pool_ok ID p' away \<and> (pool_all p away \<longrightarrow> pool_all p' away)"
proof (cases "\<exists>e. poolItems p k = Some e \<and> pi_state e = InRetryPool")
  case True
  then have "\<not> avail k p" and "make_available k p = Some p'"
    using assms(2) by (auto simp: avail_def ForceRetry_def)
  with assms show ?thesis by (intro make_available_ok [of ID p away k p'])
next
  case False
  with assms show ?thesis
    by (auto simp: ForceRetry_def split: option.splits poolItemState.splits)
qed

definition due :: "'k \<Rightarrow> int \<Rightarrow> ('k, 'i, 'sem) pool \<Rightarrow> bool" where
  "due k now p \<longleftrightarrow> (\<exists>e. poolItems p k = Some e \<and> pi_state e = InRetryPool \<and> pi_retryWhen e < now)"

lemma retry_due_skip: "\<not> due k now p \<Longrightarrow> retry_due (k # ks) now p = retry_due ks now p"
  by (auto simp: due_def split: option.split)

lemma retry_due_take:
  "due k now p \<Longrightarrow> \<exists>p'. make_available k p = Some p' \<and> retry_due (k # ks) now p = retry_due ks now p'"
  by (auto simp: due_def make_available_def setState_def)

lemma retry_due_ok:
  "pool_ok ID p away \<Longrightarrow>
     \<exists>p'. retry_due ks now p = Some p' \<and> pool_ok ID p' away \<and> (pool_all p away \<longrightarrow> pool_all p' away)"
proof (induction ks arbitrary: p)
  case (Cons k ks)
  show ?case
  proof (cases "due k now p")
    case True
    then obtain p1 where p1: "make_available k p = Some p1" "retry_due (k # ks) now p = retry_due ks now p1"
      using retry_due_take [OF True, of ks] by auto
    have "\<not> avail k p" using True by (auto simp: avail_def due_def)
    then have "pool_ok ID p1 away \<and> (pool_all p away \<longrightarrow> pool_all p1 away)"
      using p1(1) by (rule make_available_ok [OF Cons.prems])
    then show ?thesis
      unfolding p1(2) using Cons.IH [of p1] by auto
  next
    case False
    from Cons.IH [OF Cons.prems] show ?thesis
      unfolding retry_due_skip [OF False] .
  qed
qed simp

lemma setState_away:
  assumes ok: "pool_ok ID p away" and away: "0 < away k" and st: "st = InRetryPool \<or> st = Done"
  shows "\<exists>p'. setState k st when p = Some p' \<and> pool_sem p' = pool_sem p
    \<and> itemsAvailable p' = itemsAvailable p \<and> (\<forall>j. map_option pi_item (poolItems p' j) = map_option pi_item (poolItems p j))
    \<and> pool_ok ID p' (away(k := away k - 1)) \<and> (pool_all p away \<longrightarrow> pool_all p' (away(k := away k - 1)))"
proof -
  note ok' = pool_okD [OF ok]
  have "avail k p"
    using ok'(6) [of k] away by (cases "avail k p") auto
  with ok'(6) [of k] away have here: "queued k p = 0" "away k = 1"
    by auto
  from \<open>avail k p\<close> obtain e where e: "poolItems p k = Some e"
    by (auto simp: avail_def)
  let ?p = "p\<lparr>poolItems := (poolItems p)(k \<mapsto> e\<lparr>pi_state := st, pi_retryWhen := when\<rparr>)\<rparr>"
  have av: "avail j ?p \<longleftrightarrow> avail j p \<and> j \<noteq> k" for j
    using st by (auto simp: avail_def)
  have qu: "queued j ?p = queued j p" for j
    by (simp add: queued_def)
  have cap: "queued j ?p + (away(k := away k - 1)) j \<le> of_bool (avail j ?p)" for j
    using ok'(6) [of j] here by (cases "j = k") (auto simp: av qu)
  have "pool_ok ID ?p (away(k := away k - 1))"
    unfolding pool_ok_def
  proof (intro conjI allI impI)
    fix j e' assume "poolItems ?p j = Some e'"
    then show "ID (pi_item e') = j" "pi_state e' \<noteq> InUse"
      using ok'(4,5) [of j] ok'(4,5) [OF e] st by (auto split: if_splits)
  qed (use ok'(1-3) cap in auto)
  moreover have "dom (poolItems ?p) = dom (poolItems p)" using e by auto
  then have "pool_all p away \<longrightarrow> pool_all ?p (away(k := away k - 1))"
    unfolding pool_all_def by (simp add: av qu)
  ultimately show ?thesis
    using e by (simp add: setState_def)
qed

section \<open>The whole system\<close>

fun held_by_d :: "'k \<Rightarrow> 'k dpc \<Rightarrow> nat" where
  "held_by_d k (D_loop ids) = count (mset ids) k"
| "held_by_d k (D_send j ids) = of_bool (j = k) + count (mset ids) k"
| "held_by_d k _ = 0"

fun held_by_w :: "('i \<Rightarrow> 'k) \<Rightarrow> 'k \<Rightarrow> ('k, 'i) wpc \<Rightarrow> nat" where
  "held_by_w ID k (Wk_lookup j) = of_bool (j = k)"
| "held_by_w ID k (Wk_work i) = of_bool (ID i = k)"
| "held_by_w ID k (Wk_report i _) = of_bool (ID i = k)"
| "held_by_w ID k _ = 0"

fun permits :: "('k, 'i) wpc \<Rightarrow> nat" where
  "permits Wk_select = 1"
| "permits (Wk_lookup _) = 1"
| "permits (Wk_work _) = 1"
| "permits (Wk_report _ _) = 1"
| "permits _ = 0"

fun work_item :: "('k, 'i) wpc \<Rightarrow> 'i option" where
  "work_item (Wk_work i) = Some i"
| "work_item (Wk_report i _) = Some i"
| "work_item _ = None"

definition away :: "('i \<Rightarrow> 'k) \<Rightarrow> 'k dpc \<Rightarrow> ('k, 'i) wpc list \<Rightarrow> 'k \<Rightarrow> nat" where
  "away ID d ws k = held_by_d k d + sum_list (map (held_by_w ID k) ws)"

definition items_ok :: "('i \<Rightarrow> 'k) \<Rightarrow> ('k, 'i, 'sem) pool \<Rightarrow> ('k, 'i) wpc list \<Rightarrow> bool" where
  "items_ok ID p ws \<longleftrightarrow>
     (\<forall>w \<in> set ws. \<forall>i. work_item w = Some i \<longrightarrow> map_option pi_item (poolItems p (ID i)) = Some i)"

definition wake_ok :: "('k, 'i, 'sem) pool \<Rightarrow> 'k dpc \<Rightarrow> bool" where
  "wake_ok p d \<longleftrightarrow> (contents (itemsAvailable p) \<noteq> [] \<longrightarrow>
     mb_notify (itemsAvailable p) \<or> d = D_retrieve \<or> d = D_return)"

definition psys_inv :: "('sem \<Rightarrow> nat) \<Rightarrow> ('i \<Rightarrow> 'k) \<Rightarrow> ('k, 'i, 'sem) psys \<Rightarrow> bool" where
  [go_inv]: "psys_inv held ID s \<longleftrightarrow>
     pool_ok ID (pool s) (away ID (deliverer s) (workers s))
     \<and> (deliverer s \<noteq> D_return \<longrightarrow> pool_all (pool s) (away ID (deliverer s) (workers s)))
     \<and> items_ok ID (pool s) (workers s)
     \<and> held (pool_sem (pool s)) = sum_list (map permits (workers s))
     \<and> wake_ok (pool s) (deliverer s)"

lemma sum_list_update_add:
  "i < length ws \<Longrightarrow> sum_list (map f (ws[i := w])) + f (ws ! i) = sum_list (map f ws) + (f w :: nat)"
proof (induction ws arbitrary: i)
  case (Cons v ws)
  then show ?case by (cases i) auto
qed simp

lemma away_worker:
  assumes "i < length ws"
  shows "away ID d (ws[i := w]) k + held_by_w ID k (ws ! i) = away ID d ws k + held_by_w ID k w"
  using sum_list_update_add [OF assms, of "held_by_w ID k" w] by (simp add: away_def)

lemma away_worker_same:
  assumes "i < length ws" and "\<And>k. held_by_w ID k w = held_by_w ID k (ws ! i)"
  shows "away ID d (ws[i := w]) = away ID d ws"
proof
  fix k show "away ID d (ws[i := w]) k = away ID d ws k"
    using away_worker [OF assms(1), of ID d w k] assms(2) [of k] by simp
qed

lemma permits_worker:
  "i < length ws \<Longrightarrow> sum_list (map permits (ws[i := w])) + permits (ws ! i) = sum_list (map permits ws) + permits w"
  by (rule sum_list_update_add)

lemma items_ok_update:
  assumes "items_ok ID p ws" and "\<And>i. work_item w = Some i \<Longrightarrow> map_option pi_item (poolItems p (ID i)) = Some i"
  shows "items_ok ID p (ws[j := w])"
  using assms by (auto simp: items_ok_def dest!: set_update_subset_insert [THEN subsetD])


lemma psys_invD:
  assumes "psys_inv held ID s"
  shows "pool_ok ID (pool s) (away ID (deliverer s) (workers s))"
    "deliverer s \<noteq> D_return \<Longrightarrow> pool_all (pool s) (away ID (deliverer s) (workers s))"
    "items_ok ID (pool s) (workers s)"
    "held (pool_sem (pool s)) = sum_list (map permits (workers s))"
    "wake_ok (pool s) (deliverer s)"
  using assms unfolding psys_inv_def by blast+

lemma items_ok_pool:
  assumes "items_ok ID p ws" and "\<And>k i. map_option pi_item (poolItems p k) = Some i \<Longrightarrow> map_option pi_item (poolItems p' k) = Some i"
  shows "items_ok ID p' ws"
  using assms unfolding items_ok_def by blast

text \<open>A worker moves without touching the pool.\<close>

lemma worker_moves:
  assumes inv: "psys_inv held ID s" and i: "i < length (workers s)"
    and same: "\<And>k. held_by_w ID k w = held_by_w ID k (workers s ! i)" "permits w = permits (workers s ! i)"
    and item: "\<And>j. work_item w = Some j \<Longrightarrow> map_option pi_item (poolItems (pool s) (ID j)) = Some j"
  shows "psys_inv held ID (s\<lparr>workers := (workers s)[i := w]\<rparr>)"
proof -
  note inv' = psys_invD [OF inv]
  have a: "away ID (deliverer s) ((workers s)[i := w]) = away ID (deliverer s) (workers s)"
    using i same(1) by (rule away_worker_same)
  have "sum_list (map permits ((workers s)[i := w])) = sum_list (map permits (workers s))"
    using permits_worker [OF i, of w] same(2) by simp
  with a inv' items_ok_update [OF inv'(3) item, of w i] show ?thesis
    unfolding psys_inv_def by simp
qed

lemma worker_acquires:
  assumes sem: "semaphore ops n held" and inv: "psys_inv held ID s"
    and i: "i < length (workers s)" "workers s ! i = Wk_acquire"
    and m: "sem_acquire ops (pool_sem (pool s)) = Some m"
  shows "psys_inv held ID (s\<lparr>workers := (workers s)[i := Wk_select], pool := (pool s)\<lparr>pool_sem := m\<rparr>\<rparr>)"
proof -
  note inv' = psys_invD [OF inv]
  have a: "away ID (deliverer s) ((workers s)[i := Wk_select]) = away ID (deliverer s) (workers s)"
    using i by (intro away_worker_same) auto
  have h: "held m = held (pool_sem (pool s)) + 1"
    using sem m unfolding semaphore_def by blast
  have "held m = sum_list (map permits ((workers s)[i := Wk_select]))"
    using permits_worker [OF i(1), of Wk_select] i(2) inv'(4) h by simp
  with a inv' show ?thesis
    unfolding psys_inv_def
    by (auto simp: pool_ok_def pool_all_def avail_def queued_def wake_ok_def
      intro!: items_ok_update elim!: items_ok_pool)
qed

lemma release_one_Some:
  assumes "semaphore ops n held" and "0 < held (pool_sem p)"
  shows "\<exists>m. release_one ops p = Some (p\<lparr>pool_sem := m\<rparr>) \<and> held m = held (pool_sem p) - 1"
proof -
  from assms obtain m where m: "sem_release ops (pool_sem p) = Some m"
    unfolding semaphore_def by blast
  moreover from m assms have "held m = held (pool_sem p) - 1"
    unfolding semaphore_def by blast
  ultimately show ?thesis by (intro exI [of _ m]) (simp add: release_one_def)
qed

lemma permits_pos:
  assumes "psys_inv held ID s" and "i < length (workers s)" and "permits (workers s ! i) = 1"
  shows "0 < held (pool_sem (pool s))"
proof -
  have "permits (workers s ! i) \<le> sum_list (map permits (workers s))"
    using assms(2) by (intro member_le_sum_list) auto
  with assms psys_invD(4) [OF assms(1)] show ?thesis by simp
qed

lemma worker_gives_up:
  assumes sem: "semaphore ops n held" and inv: "psys_inv held ID s"
    and i: "i < length (workers s)" "workers s ! i = Wk_select"
    and p: "release_one ops (pool s) = Some p"
  shows "psys_inv held ID (s\<lparr>workers := (workers s)[i := Wk_return], pool := p\<rparr>)"
proof -
  note inv' = psys_invD [OF inv]
  have "0 < held (pool_sem (pool s))"
    using permits_pos [OF inv i(1)] i(2) by simp
  with release_one_Some [OF sem this] p obtain m where m: "p = (pool s)\<lparr>pool_sem := m\<rparr>"
    and h: "held m = held (pool_sem (pool s)) - 1" by auto
  have a: "away ID (deliverer s) ((workers s)[i := Wk_return]) = away ID (deliverer s) (workers s)"
    using i by (intro away_worker_same) auto
  have "held m = sum_list (map permits ((workers s)[i := Wk_return]))"
    using permits_worker [OF i(1), of Wk_return] i(2) inv'(4) h by simp
  with a inv' show ?thesis
    unfolding psys_inv_def m
    by (auto simp: pool_ok_def pool_all_def avail_def queued_def wake_ok_def
      intro!: items_ok_update elim!: items_ok_pool)
qed

text \<open>A worker hands its item back: to the retry pool, or for good.\<close>

lemma worker_reports:
  assumes sem: "semaphore ops n held" and inv: "psys_inv held ID s"
    and i: "i < length (workers s)" "workers s ! i = Wk_report item b"
    and st: "st = InRetryPool \<or> st = Done"
  shows "\<exists>p p'. setState (ID item) st when (pool s) = Some p' \<and> release_one ops p' = Some p
    \<and> psys_inv held ID (s\<lparr>workers := (workers s)[i := Wk_top], pool := p\<rparr>)"
proof -
  note inv' = psys_invD [OF inv]
  let ?a = "away ID (deliverer s) (workers s)" and ?k = "ID item"
  have a: "away ID (deliverer s) ((workers s)[i := Wk_top]) = ?a(?k := ?a ?k - 1)"
  proof
    fix k show "away ID (deliverer s) ((workers s)[i := Wk_top]) k = (?a(?k := ?a ?k - 1)) k"
      using away_worker [OF i(1), of ID "deliverer s" Wk_top k] i(2) by auto
  qed
  have pos: "0 < ?a ?k"
    using away_worker [OF i(1), of ID "deliverer s" Wk_top ?k] i(2) by simp
  from setState_away [OF inv'(1) pos st, of "when"] obtain p' where p':
    "setState ?k st when (pool s) = Some p'" "pool_sem p' = pool_sem (pool s)"
    "itemsAvailable p' = itemsAvailable (pool s)"
    "\<And>j. map_option pi_item (poolItems p' j) = map_option pi_item (poolItems (pool s) j)"
    "pool_ok ID p' (?a(?k := ?a ?k - 1))" "pool_all (pool s) ?a \<longrightarrow> pool_all p' (?a(?k := ?a ?k - 1))"
    by auto
  have "0 < held (pool_sem p')"
    using permits_pos [OF inv i(1)] i(2) p'(2) by simp
  from release_one_Some [OF sem this] obtain m where m: "release_one ops p' = Some (p'\<lparr>pool_sem := m\<rparr>)"
    "held m = held (pool_sem (pool s)) - 1" using p'(2) by auto
  have "held m = sum_list (map permits ((workers s)[i := Wk_top]))"
    using permits_worker [OF i(1), of Wk_top] i(2) inv'(4) m(2) by simp
  moreover have "items_ok ID p' ((workers s)[i := Wk_top])"
    by (intro items_ok_update items_ok_pool [OF inv'(3)]) (simp_all add: p'(4))
  ultimately have "psys_inv held ID (s\<lparr>workers := (workers s)[i := Wk_top], pool := p'\<lparr>pool_sem := m\<rparr>\<rparr>)"
    using a p'(3,5,6) inv'(2,5)
    unfolding psys_inv_def
    by (auto simp: pool_ok_def pool_all_def avail_def queued_def wake_ok_def items_ok_def)
  with p'(1) m(1) show ?thesis by blast
qed


text \<open>The operations of clients and of the retry handler change only the pool's items and mailbox.\<close>

definition only_items :: "('k, 'i, 'sem) pool \<Rightarrow> ('k, 'i, 'sem) pool \<Rightarrow> bool" where
  "only_items p p' \<longleftrightarrow> pool_sem p' = pool_sem p
     \<and> (\<forall>k i. map_option pi_item (poolItems p k) = Some i \<longrightarrow> map_option pi_item (poolItems p' k) = Some i)
     \<and> (mb_notify (itemsAvailable p') \<or> itemsAvailable p' = itemsAvailable p)"

lemma only_items_refl [simp]: "only_items p p"
  by (simp add: only_items_def)

lemma only_items_trans: "only_items p q \<Longrightarrow> only_items q r \<Longrightarrow> only_items p r"
  unfolding only_items_def by metis

lemma only_items_Add: "only_items p (Add ID item p)"
  by (auto simp: Add_def only_items_def split: option.splits)

lemma only_items_make_available: "make_available k p = Some p' \<Longrightarrow> only_items p p'"
  by (auto simp: make_available_Some only_items_def)

lemma only_items_ForceRetry: "ForceRetry k p = Some p' \<Longrightarrow> only_items p p'"
  by (auto simp: ForceRetry_def split: option.splits poolItemState.splits dest: only_items_make_available)

lemma only_items_retry_due: "retry_due ks now p = Some p' \<Longrightarrow> only_items p p'"
proof (induction ks arbitrary: p)
  case (Cons k ks)
  show ?case
  proof (cases "due k now p")
    case True
    then obtain p1 where "make_available k p = Some p1" "retry_due (k # ks) now p = retry_due ks now p1"
      using retry_due_take [OF True, of ks] by auto
    with Cons show ?thesis
      by (metis only_items_make_available only_items_trans)
  qed (use Cons retry_due_skip [of k now p ks] in auto)
qed simp

lemma items_step:
  assumes inv: "psys_inv held ID s" and only: "only_items (pool s) p"
    and ok: "\<And>away. pool_ok ID (pool s) away \<Longrightarrow>
               pool_ok ID p away \<and> (pool_all (pool s) away \<longrightarrow> pool_all p away)"
  shows "psys_inv held ID (s\<lparr>pool := p\<rparr>)"
proof -
  note inv' = psys_invD [OF inv]
  have "items_ok ID p (workers s)"
    using only by (intro items_ok_pool [OF inv'(3)]) (auto simp: only_items_def)
  moreover have "wake_ok p (deliverer s)"
    using only inv'(5) by (auto simp: only_items_def wake_ok_def)
  ultimately show ?thesis
    using ok [OF inv'(1)] inv'(2,4) only unfolding psys_inv_def only_items_def by simp
qed

text \<open>The deliverer moves; \<open>d'\<close> holds no more than \<open>d\<close>, and no less unless it has returned.\<close>

lemma deliverer_moves:
  assumes inv: "psys_inv held ID s"
    and less: "\<And>k. held_by_d k d \<le> held_by_d k (deliverer s)"
    and same: "d \<noteq> D_return \<Longrightarrow> deliverer s \<noteq> D_return \<and> (\<forall>k. avail k (pool s) \<longrightarrow> held_by_d k d = held_by_d k (deliverer s))"
    and wake: "wake_ok (pool s) d"
  shows "psys_inv held ID (s\<lparr>deliverer := d\<rparr>)"
proof -
  note inv' = psys_invD [OF inv]
  have le: "away ID d (workers s) k \<le> away ID (deliverer s) (workers s) k" for k
    using less [of k] by (simp add: away_def)
  have "pool_ok ID (pool s) (away ID d (workers s))"
    unfolding pool_ok_def
  proof (intro conjI allI impI)
    fix k show "queued k (pool s) + away ID d (workers s) k \<le> of_bool (avail k (pool s))"
      using pool_okD(6) [OF inv'(1), of k] le [of k] by linarith
  qed (use pool_okD [OF inv'(1)] in auto)
  moreover have "d \<noteq> D_return \<Longrightarrow> pool_all (pool s) (away ID d (workers s))"
    using same inv'(2) by (auto simp: pool_all_def away_def)
  ultimately show ?thesis
    using inv' wake unfolding psys_inv_def by simp
qed

lemma deliver_notify:
  assumes inv: "psys_inv held ID s" and d: "deliverer s = D_select"
    and m: "Notify (itemsAvailable (pool s)) = Some m"
  shows "psys_inv held ID (s\<lparr>deliverer := D_retrieve, pool := (pool s)\<lparr>itemsAvailable := m\<rparr>\<rparr>)"
proof -
  have "contents m = contents (itemsAvailable (pool s))" "mb_limit m = mb_limit (itemsAvailable (pool s))"
    "mb_ok m = mb_ok (itemsAvailable (pool s))"
    using m by (auto simp: Notify_def contents_def mb_limit_def mb_ok_def split: if_splits)
  with inv d show ?thesis
    by (simp add: psys_inv_def pool_ok_def pool_all_def away_def avail_def queued_def items_ok_def wake_ok_def)
qed

lemma deliver_retrieve:
  assumes inv: "psys_inv held ID s" and d: "deliverer s = D_retrieve"
    and m: "RetrieveAll (itemsAvailable (pool s)) = (ids, m)"
  shows "psys_inv held ID (s\<lparr>deliverer := D_loop ids, pool := (pool s)\<lparr>itemsAvailable := m\<rparr>\<rparr>)"
proof -
  have m': "ids = contents (itemsAvailable (pool s))" "m = snd (RetrieveAll (itemsAvailable (pool s)))"
    using m RetrieveAll_contents [of "itemsAvailable (pool s)"] by simp_all
  from inv d show ?thesis
    unfolding m'
    by (simp add: psys_inv_def pool_ok_def pool_all_def away_def avail_def queued_def items_ok_def wake_ok_def)
qed

lemma deliver_next:
  assumes inv: "psys_inv held ID s" and d: "deliverer s = D_loop (uid # ids)"
  shows "deliver_check uid ids (pool s) = Some (D_send uid ids)"
    and "psys_inv held ID (s\<lparr>deliverer := D_send uid ids\<rparr>)"
proof -
  have "0 < away ID (deliverer s) (workers s) uid"
    using d by (simp add: away_def)
  with pool_okD(6) [OF psys_invD(1) [OF inv], of uid] have "avail uid (pool s)"
    by (cases "avail uid (pool s)") auto
  then show "deliver_check uid ids (pool s) = Some (D_send uid ids)"
    by (auto simp: avail_def deliver_check_def)
  show "psys_inv held ID (s\<lparr>deliverer := D_send uid ids\<rparr>)"
    using d psys_invD(5) [OF inv] by (intro deliverer_moves [OF inv]) (auto simp: wake_ok_def)
qed

lemma hand_off:
  assumes inv: "psys_inv held ID s" and d: "deliverer s = D_send uid ids"
    and i: "i < length (workers s)" "workers s ! i = Wk_select"
  shows "psys_inv held ID (s\<lparr>deliverer := D_loop ids, workers := (workers s)[i := Wk_lookup uid]\<rparr>)"
proof -
  note inv' = psys_invD [OF inv]
  have a: "away ID (D_loop ids) ((workers s)[i := Wk_lookup uid]) = away ID (deliverer s) (workers s)"
  proof
    fix k show "away ID (D_loop ids) ((workers s)[i := Wk_lookup uid]) k = away ID (deliverer s) (workers s) k"
      using away_worker [OF i(1), of ID "D_loop ids" "Wk_lookup uid" k] d i(2) by (simp add: away_def)
  qed
  have "sum_list (map permits ((workers s)[i := Wk_lookup uid])) = sum_list (map permits (workers s))"
    using permits_worker [OF i(1), of "Wk_lookup uid"] i(2) by simp
  moreover have "items_ok ID (pool s) ((workers s)[i := Wk_lookup uid])"
    using inv'(3) by (intro items_ok_update) auto
  ultimately show ?thesis
    using a inv' d unfolding psys_inv_def by (simp add: wake_ok_def)
qed

lemma lookup_finds:
  assumes inv: "psys_inv held ID s" and i: "i < length (workers s)" "workers s ! i = Wk_lookup uid"
  shows "\<exists>item. get_item uid (pool s) = Some item \<and> ID item = uid
    \<and> map_option pi_item (poolItems (pool s) uid) = Some item"
proof -
  note inv' = psys_invD [OF inv]
  have "0 < away ID (deliverer s) (workers s) uid"
    using away_worker [OF i(1), of ID "deliverer s" Wk_top uid] i(2) by simp
  with pool_okD(6) [OF inv'(1), of uid] have "avail uid (pool s)"
    by (cases "avail uid (pool s)") auto
  then obtain e where "poolItems (pool s) uid = Some e" "pi_state e = Available"
    by (auto simp: avail_def)
  with pool_okD(4) [OF inv'(1), of uid] show ?thesis
    by (auto simp: get_item_def)
qed

section \<open>Every step keeps the invariant\<close>

lemma pool_step_inv:
  assumes "pool_step ops ID e s t" and sem: "semaphore ops n held" and inv: "psys_inv held ID s"
  shows "psys_inv held ID t"
  using assms(1)
proof cases
  case (step_add item)
  then show ?thesis
    using Add_ok [of ID "pool s" _ item] by (auto intro!: items_step [OF inv] only_items_Add)
next
  case (step_force uid p)
  then show ?thesis
    using ForceRetry_ok [of ID "pool s" _ uid p]
    by (auto intro!: items_step [OF inv] intro: only_items_ForceRetry)
next
  case (step_cancel d h w)
  then show ?thesis using inv by (simp add: psys_inv_def)
next
  case step_h_start
  then show ?thesis using inv by (simp add: psys_inv_def)
next
  case step_h_stop
  then show ?thesis using inv by (simp add: psys_inv_def)
next
  case (step_tick ks now p)
  then show ?thesis
    using retry_due_ok [of ID "pool s" _ ks now]
    by (fastforce intro!: items_step [OF inv] intro: only_items_retry_due)
next
  case (step_d_done uid ids)
  then show ?thesis by (auto intro!: deliverer_moves [OF inv] simp: wake_ok_def)
next
  case (step_d_notify m)
  then show ?thesis using deliver_notify [OF inv] by simp
next
  case (step_d_retrieve ids m)
  then show ?thesis using deliver_retrieve [OF inv] by simp
next
  case (step_d_next uid ids d)
  then show ?thesis using deliver_next [OF inv] by simp
next
  case step_d_again
  then show ?thesis
    using psys_invD(5) [OF inv] by (auto intro!: deliverer_moves [OF inv] simp: wake_ok_def)
next
  case (step_handoff uid ids i)
  then show ?thesis using hand_off [OF inv] by simp
next
  case (step_w_stop i)
  then show ?thesis by (auto intro!: worker_moves [OF inv])
next
  case (step_w_go i)
  then show ?thesis by (auto intro!: worker_moves [OF inv])
next
  case (step_w_acquire i m)
  then show ?thesis using worker_acquires [OF sem inv] by simp
next
  case (step_w_acquire_err i)
  then show ?thesis by (auto intro!: worker_moves [OF inv])
next
  case (step_w_select_err i p)
  then show ?thesis using worker_gives_up [OF sem inv] by simp
next
  case (step_w_lookup i uid item)
  with lookup_finds [OF inv, of i uid] have "ID item = uid" "map_option pi_item (poolItems (pool s) uid) = Some item"
    by auto
  with step_w_lookup show ?thesis
    by (auto intro!: worker_moves [OF inv])
next
  case (step_w_work i item retry)
  then have "Wk_work item \<in> set (workers s)" by (metis nth_mem)
  with psys_invD(3) [OF inv] have "map_option pi_item (poolItems (pool s) (ID item)) = Some item"
    by (auto simp: items_ok_def)
  with step_w_work show ?thesis by (auto intro!: worker_moves [OF inv])
next
  case (step_w_retry i item "when" p)
  then show ?thesis
    using worker_reports [OF sem inv, of i item True InRetryPool "when"] by (auto simp: RetryLater_def)
next
  case (step_w_complete i item p)
  then show ?thesis
    using worker_reports [OF sem inv, of i item False Done 0] by (auto simp: Complete_def)
qed

lemma pool_init_inv:
  assumes "semaphore ops n held" and "pool_init ops n s"
  shows "psys_inv held ID s"
proof -
  have "sum_list (map f (replicate m Wk_top)) = (m :: nat) * f Wk_top" for f m
    by (induction m) auto
  with assms show ?thesis
    by (auto simp: pool_init_def psys_inv_def NewPool_def pool_ok_def pool_all_def away_def avail_def
      queued_def items_ok_def wake_ok_def mb_limit_def NewMailbox_def contents_def mb_ok_def semaphore_def)
qed

interpretation pool_sys: invariant_system
    "\<lambda>s. semaphore ops n held \<and> pool_init ops n s" "pool_next ops ID"
    "\<lambda>s. semaphore ops n held \<and> psys_inv held ID s"
  for ops :: "'sem sem_ops" and n :: int and held :: "'sem \<Rightarrow> nat" and ID :: "'i \<Rightarrow> 'k"
  by unfold_locales (auto simp: pool_next_def intro: pool_init_inv pool_step_inv)

end
