(* ===== verification/Cedar_Pool_Runs.thy ===== *)
theory Cedar_Pool_Runs
  imports Cedar_Pool_Inv
begin

text \<open>
  Concrete runs of the pool: an executor that follows a list of moves, sound for the step relation, and
  a semaphore that counts, for which it runs.
\<close>

definition capped :: "int \<Rightarrow> nat sem_ops" where
  "capped n = \<lparr>sem_new = (\<lambda>_. 0),
     sem_acquire = (\<lambda>h. if int h < n then Some (h + 1) else None),
     sem_release = (\<lambda>h. if 0 < h then Some (h - 1) else None)\<rparr>"

lemma capped_semaphore: "semaphore (capped n) n (\<lambda>h. h)"
  by (auto simp: semaphore_def capped_def)

text \<open>A move; a worker that has worked answers \<open>Some when\<close> to be retried then, \<open>None\<close> when it is done.\<close>

datatype ('k, 'i) move = M_add 'i | M_handler | M_deliver | M_hand nat | M_work nat "int option"

definition worker_move ::
    "'sem sem_ops \<Rightarrow> ('i \<Rightarrow> 'k) \<Rightarrow> nat \<Rightarrow> int option \<Rightarrow> ('k, 'i, 'sem) psys \<Rightarrow> ('k, 'i, 'sem) psys option" where
  "worker_move ops ID i answer s =
     (let go = (\<lambda>w p. Some (s\<lparr>workers := (workers s)[i := w], pool := p\<rparr>)) in
      case workers s ! i of
        Wk_top \<Rightarrow> if w_ctx s i then None else go Wk_acquire (pool s)
      | Wk_acquire \<Rightarrow>
          (case sem_acquire ops (pool_sem (pool s)) of
             None \<Rightarrow> None | Some m \<Rightarrow> go Wk_select ((pool s)\<lparr>pool_sem := m\<rparr>))
      | Wk_lookup uid \<Rightarrow>
          (case get_item uid (pool s) of None \<Rightarrow> None | Some item \<Rightarrow> go (Wk_work item) (pool s))
      | Wk_work item \<Rightarrow> go (Wk_report item (answer \<noteq> None)) (pool s)
      | Wk_report item retry \<Rightarrow>
          if retry then (case RetryLater ops (ID item) (case answer of None \<Rightarrow> 0 | Some w \<Rightarrow> w) (pool s) of
                           None \<Rightarrow> None | Some p \<Rightarrow> go Wk_top p)
          else (case Complete ops (ID item) (pool s) of None \<Rightarrow> None | Some p \<Rightarrow> go Wk_top p)
      | _ \<Rightarrow> None)"

fun move_step ::
    "'sem sem_ops \<Rightarrow> ('i \<Rightarrow> 'k) \<Rightarrow> ('k, 'i) move \<Rightarrow> ('k, 'i, 'sem) psys \<Rightarrow> ('k, 'i, 'sem) psys option" where
  "move_step ops ID (M_add item) s = Some (s\<lparr>pool := Add ID item (pool s)\<rparr>)"
| "move_step ops ID M_handler s =
     (if handler s = H_start \<and> 0 < retryInterval (pool s) then Some (s\<lparr>handler := H_loop\<rparr>) else None)"
| "move_step ops ID M_deliver s =
     (case deliverer s of
        D_select \<Rightarrow> (case Notify (itemsAvailable (pool s)) of
            None \<Rightarrow> None
          | Some m \<Rightarrow> Some (s\<lparr>deliverer := D_retrieve, pool := (pool s)\<lparr>itemsAvailable := m\<rparr>\<rparr>))
      | D_retrieve \<Rightarrow> (case RetrieveAll (itemsAvailable (pool s)) of
            (ids, m) \<Rightarrow> Some (s\<lparr>deliverer := D_loop ids, pool := (pool s)\<lparr>itemsAvailable := m\<rparr>\<rparr>))
      | D_loop [] \<Rightarrow> Some (s\<lparr>deliverer := D_select\<rparr>)
      | D_loop (uid # ids) \<Rightarrow> (case deliver_check uid ids (pool s) of
            None \<Rightarrow> None | Some d \<Rightarrow> Some (s\<lparr>deliverer := d\<rparr>))
      | _ \<Rightarrow> None)"
| "move_step ops ID (M_hand i) s =
     (case deliverer s of
        D_send uid ids \<Rightarrow> (case workers s ! i of
            Wk_select \<Rightarrow> if i < length (workers s)
              then Some (s\<lparr>deliverer := D_loop ids, workers := (workers s)[i := Wk_lookup uid]\<rparr>) else None
          | _ \<Rightarrow> None)
      | _ \<Rightarrow> None)"
| "move_step ops ID (M_work i answer) s =
     (if i < length (workers s) then worker_move ops ID i answer s else None)"

fun moves :: "'sem sem_ops \<Rightarrow> ('i \<Rightarrow> 'k) \<Rightarrow> ('k, 'i) move list \<Rightarrow> ('k, 'i, 'sem) psys \<Rightarrow> ('k, 'i, 'sem) psys option" where
  "moves ops ID [] s = Some s"
| "moves ops ID (m # ms) s = (case move_step ops ID m s of None \<Rightarrow> None | Some t \<Rightarrow> moves ops ID ms t)"

lemma worker_move_step:
  assumes "worker_move ops ID i answer s = Some t" and i: "i < length (workers s)"
  shows "\<exists>e. pool_step ops ID e s t"
proof (cases "workers s ! i")
  case Wk_top
  with assms step_w_go [OF i Wk_top, of ops ID] show ?thesis
    by (auto simp: worker_move_def split: if_splits)
next
  case Wk_acquire
  with assms step_w_acquire [OF i Wk_acquire, of ops _ ID] show ?thesis
    by (auto simp: worker_move_def split: option.splits)
next
  case (Wk_lookup uid)
  with assms step_w_lookup [OF i Wk_lookup, of _ ops ID] show ?thesis
    by (auto simp: worker_move_def split: option.splits)
next
  case (Wk_work item)
  with assms step_w_work [OF i Wk_work, of ops ID] show ?thesis
    by (auto simp: worker_move_def)
next
  case (Wk_report item b)
  with assms step_w_retry [OF i, of item ops ID] step_w_complete [OF i, of item ops ID] show ?thesis
    by (cases b) (auto simp: worker_move_def split: option.splits)
qed (use assms in \<open>simp_all add: worker_move_def\<close>)

lemma deliver_move_step:
  assumes "move_step ops ID M_deliver s = Some t"
  shows "\<exists>e. pool_step ops ID e s t"
proof (cases "deliverer s")
  case D_select
  with assms step_d_notify [OF D_select, of _ ops ID] show ?thesis by (auto split: option.splits)
next
  case D_retrieve
  with assms step_d_retrieve [OF D_retrieve, of _ _ ops ID] show ?thesis by (auto split: prod.splits)
next
  case (D_loop ids)
  then show ?thesis
  proof (cases ids)
    case Nil
    with assms D_loop step_d_again [of s ops ID] show ?thesis by auto
  next
    case (Cons uid ids')
    with assms D_loop step_d_next [of s uid ids' _ ops ID] show ?thesis by (auto split: option.splits)
  qed
qed (use assms in simp_all)

lemma move_step_sound: "move_step ops ID m s = Some t \<Longrightarrow> pool_next ops ID s t"
proof (cases m)
  case (M_add item)
  moreover assume "move_step ops ID m s = Some t"
  ultimately show ?thesis using step_add [of ops ID item s] by (auto simp: pool_next_def)
next
  case M_handler
  moreover assume "move_step ops ID m s = Some t"
  ultimately show ?thesis using step_h_start [of s ops ID] by (auto simp: pool_next_def split: if_splits)
next
  case M_deliver
  moreover assume "move_step ops ID m s = Some t"
  ultimately show ?thesis unfolding pool_next_def using deliver_move_step by blast
next
  case (M_hand i)
  moreover assume "move_step ops ID m s = Some t"
  ultimately show ?thesis
    using step_handoff [of s _ _ i ops ID] by (auto simp: pool_next_def split: dpc.splits wpc.splits if_splits)
next
  case (M_work i answer)
  moreover assume "move_step ops ID m s = Some t"
  ultimately show ?thesis
    unfolding pool_next_def using worker_move_step by (auto split: if_splits)
qed

lemma moves_reachable:
  "moves ops ID ms s = Some t \<Longrightarrow> reachable init (pool_next ops ID) s \<Longrightarrow> reachable init (pool_next ops ID) t"
proof (induction ms arbitrary: s)
  case (Cons m ms)
  then obtain u where u: "move_step ops ID m s = Some u" "moves ops ID ms u = Some t"
    by (auto split: option.splits)
  with Cons.IH [OF u(2)] Cons.prems(2) show ?case
    by (auto intro: reachable_step dest: move_step_sound)
qed simp

lemma moves_steps: "moves ops ID ms s = Some t \<Longrightarrow> (pool_next ops ID)\<^sup>*\<^sup>* s t"
proof (induction ms arbitrary: s)
  case (Cons m ms)
  then obtain u where "move_step ops ID m s = Some u" "moves ops ID ms u = Some t"
    by (auto split: option.splits)
  with Cons.IH [of u] show ?case
    by (auto intro: converse_rtranclp_into_rtranclp dest: move_step_sound)
qed simp

text \<open>Only \<^verbatim>\<open>Add\<close> makes an item known.\<close>

lemma worker_move_items:
  "worker_move ops ID i answer s = Some t \<Longrightarrow> dom (poolItems (pool t)) = dom (poolItems (pool s))"
  by (auto simp: worker_move_def Let_def RetryLater_def Complete_def setState_def release_one_def
      split: wpc.splits option.splits if_splits)

lemma move_step_items:
  "move_step ops ID m s = Some t \<Longrightarrow>
     dom (poolItems (pool t)) \<subseteq> dom (poolItems (pool s)) \<union> {ID item |item. m = M_add item}"
  by (cases m) (auto simp: Add_def split: if_splits dpc.splits wpc.splits list.splits option.splits prod.splits
      dest!: worker_move_items)

lemma moves_items:
  "moves ops ID ms s = Some t \<Longrightarrow> dom (poolItems (pool t)) \<subseteq> dom (poolItems (pool s)) \<union> {ID item |item. M_add item \<in> set ms}"
proof (induction ms arbitrary: s)
  case (Cons m ms)
  then obtain u where u: "move_step ops ID m s = Some u" "moves ops ID ms u = Some t"
    by (auto split: option.splits)
  from Cons.IH [OF u(2)] move_step_items [OF u(1)] show ?case by fastforce
qed simp

lemma NewPoolWorker_init: "pool_init ops n (NewPoolWorker ops n interval)"
  by (auto simp: pool_init_def NewPoolWorker_def)

text \<open>Two items, two workers, both working, with the retry handler in its loop; then the first is finished and the second is to be retried at 7.\<close>

definition both_working :: "(nat, nat) move list" where
  "both_working = [M_handler, M_add 5, M_add 6, M_deliver, M_deliver, M_deliver,
     M_work 0 None, M_work 0 None, M_work 1 None, M_work 1 None,
     M_hand 0, M_deliver, M_hand 1, M_work 0 None, M_work 1 None]"

definition both_reported :: "(nat, nat) move list" where
  "both_reported = [M_work 0 None, M_work 0 None, M_work 1 (Some 7), M_work 1 (Some 7)]"

definition two_workers :: "(nat, nat, nat) psys" where
  "two_workers = NewPoolWorker (capped 2) 2 1"

definition working :: "(nat, nat, nat) psys" where
  "working = the (moves (capped 2) (\<lambda>i. i) both_working two_workers)"

definition reported :: "(nat, nat, nat) psys" where
  "reported = the (moves (capped 2) (\<lambda>i. i) both_reported working)"

lemma some_the: "\<not> Option.is_none x \<Longrightarrow> x = Some (the x)"
  by (cases x) auto

lemma working_moves: "moves (capped 2) (\<lambda>i. i) both_working two_workers = Some working"
  unfolding working_def by (rule some_the) code_simp

lemma reported_moves: "moves (capped 2) (\<lambda>i. i) both_reported working = Some reported"
  unfolding reported_def by (rule some_the) code_simp

lemma working_reachable: "reachable (pool_init (capped 2) 2) (pool_next (capped 2) (\<lambda>i. i)) working"
  using working_moves by (rule moves_reachable) (auto intro: reachable_init NewPoolWorker_init simp: two_workers_def)

lemma reported_reachable: "reachable (pool_init (capped 2) 2) (pool_next (capped 2) (\<lambda>i. i)) reported"
  using reported_moves working_reachable by (rule moves_reachable)

end
