(* ===== verification/Cedar_Pool_Props.thy ===== *)
theory Cedar_Pool_Props
  imports Cedar_Pool_Runs
begin

text \<open>
  What the pool promises: its goroutines never panic, no item is worked on twice at the same time, the
  semaphore bounds the busy workers, an available item is on its way to a worker as long as the mailbox
  has room, items wait for their retry time, and finished items are never worked on again. The last
  properties show what happens without that room, and what \<^verbatim>\<open>NumItemsPending\<close> counts.
\<close>

section \<open>Reachable states\<close>

lemma reachable_psys_inv:
  assumes "semaphore ops n held" and "reachable (pool_init ops n) (pool_next ops ID) s"
  shows "psys_inv held ID s"
proof -
  have "reachable (\<lambda>s. semaphore ops n held \<and> pool_init ops n s) (pool_next ops ID) s"
    using assms by (intro reachable_weaken [OF assms(2)]) simp
  from pool_sys.reachable_inv [OF this] show ?thesis by simp
qed

lemma psys_steps_inv:
  assumes "semaphore ops n held" and "psys_inv held ID s" and "(pool_next ops ID)\<^sup>*\<^sup>* s t"
  shows "psys_inv held ID t"
  using pool_sys.steps_inv [OF assms(3)] assms(1,2) by blast

section \<open>Safety\<close>

lemma held_once:
  assumes inv: "psys_inv held ID s" and ij: "i < length (workers s)" "j < length (workers s)" "i \<noteq> j"
    and a: "work_item (workers s ! i) = Some a" and b: "work_item (workers s ! j) = Some b"
  shows "ID a \<noteq> ID b"
proof
  assume same: "ID a = ID b"
  let ?h = "\<lambda>w. held_by_w ID (ID a) w"
  have h: "?h (workers s ! i) = 1" "?h (workers s ! j) = 1"
    using a b same by (cases "workers s ! i"; cases "workers s ! j"; simp)+
  have le: "?h ((workers s)[i := Wk_top] ! j) \<le> sum_list (map ?h ((workers s)[i := Wk_top]))"
    using ij by (intro member_le_sum_list) (auto simp del: nth_list_update_neq intro!: imageI nth_mem)
  then have "1 \<le> sum_list (map ?h ((workers s)[i := Wk_top]))"
    using ij h by simp
  with sum_list_update_add [OF ij(1), of ?h Wk_top] h have "2 \<le> sum_list (map ?h (workers s))"
    by simp
  then have "2 \<le> away ID (deliverer s) (workers s) (ID a)"
    by (simp add: away_def)
  moreover have "of_bool (avail (ID a) (pool s)) \<le> (1 :: nat)"
    by simp
  ultimately show False
    using pool_okD(6) [OF psys_invD(1) [OF inv], of "ID a"] by linarith
qed

lemma worker_item_avail:
  assumes inv: "psys_inv held ID s" and i: "i < length (workers s)" and h: "0 < held_by_w ID k (workers s ! i)"
  shows "avail k (pool s)" "queued k (pool s) = 0"
proof -
  have "0 < away ID (deliverer s) (workers s) k"
    using away_worker [OF i, of ID "deliverer s" Wk_top k] h by simp
  with pool_okD(6) [OF psys_invD(1) [OF inv], of k] show "avail k (pool s)" "queued k (pool s) = 0"
    by (cases "avail k (pool s)"; simp)+
qed

text \<open>
  C4: The only panic of the pool's goroutines is that of \<^verbatim>\<open>time.NewTicker\<close> in the retry handler of a pool whose retry interval is
  not positive. Apart from it no goroutine of the pool panics, whatever clients, workers, cancellations and the clock do.
\<close>

theorem pool_never_panics:
  assumes "semaphore ops n held"
    and "reachable (pool_init ops n) (pool_next ops ID) s"
  shows "pool_panics ops ID s \<longleftrightarrow> handler s = H_start \<and> retryInterval (pool s) \<le> 0"
proof -
  have inv: "psys_inv held ID s"
    using assms by (rule reachable_psys_inv)
  have "retry_due ks now (pool s) \<noteq> None" for ks now
    using retry_due_ok [OF psys_invD(1) [OF inv], of ks now] by auto
  moreover have "deliver_check uid ids (pool s) \<noteq> None" if "deliverer s = D_loop (uid # ids)" for uid ids
    using deliver_next(1) [OF inv that] by simp
  moreover have "get_item uid (pool s) \<noteq> None"
    if "i < length (workers s)" "workers s ! i = Wk_lookup uid" for i uid
    using lookup_finds [OF inv that] by auto
  moreover have "release_one ops (pool s) \<noteq> None"
    if "i < length (workers s)" "workers s ! i = Wk_select" for i
    using release_one_Some [OF assms(1) permits_pos [OF inv that(1)]] that(2) by auto
  moreover have "RetryLater ops (ID item) when (pool s) \<noteq> None"
    if "i < length (workers s)" "workers s ! i = Wk_report item True" for i item "when"
    using worker_reports [OF assms(1) inv that, of InRetryPool "when"] by (auto simp: RetryLater_def)
  moreover have "Complete ops (ID item) (pool s) \<noteq> None"
    if "i < length (workers s)" "workers s ! i = Wk_report item False" for i item
    using worker_reports [OF assms(1) inv that, of Done 0] by (auto simp: Complete_def)
  ultimately show ?thesis
    unfolding pool_panics_def by blast
qed

theorem pool_never_panics_witness:
  "\<not> pool_panics (capped 2) (\<lambda>i. i) reported \<and> pool_panics (capped 2) (\<lambda>i :: nat. i) (NewPoolWorker (capped 2) 2 0)"
proof -
  have h: "handler reported = H_loop" by code_simp
  have "reachable (pool_init (capped 2) 2) (pool_next (capped 2) (\<lambda>i :: nat. i)) (NewPoolWorker (capped 2) 2 0)"
    by (intro reachable_init NewPoolWorker_init)
  with h pool_never_panics [OF capped_semaphore reported_reachable] pool_never_panics [OF capped_semaphore this]
  show ?thesis
    by (simp add: NewPoolWorker_def NewPool_def)
qed

text \<open>C5: Two workers never work on items with the same id at the same time.\<close>

theorem no_item_worked_twice:
  assumes "semaphore ops n held"
    and "reachable (pool_init ops n) (pool_next ops ID) s"
    and "i < length (workers s)" and "j < length (workers s)" and "i \<noteq> j"
    and "work_item (workers s ! i) = Some a" and "work_item (workers s ! j) = Some b"
  shows "ID a \<noteq> ID b"
  using reachable_psys_inv [OF assms(1,2)] assms(3-7) by (rule held_once)

theorem no_item_worked_twice_witness:
  "work_item (workers working ! 0) = Some 5 \<and> work_item (workers working ! 1) = Some 6 \<and> (5 :: nat) \<noteq> 6"
proof -
  have w: "0 < length (workers working)" "1 < length (workers working)" "(0 :: nat) \<noteq> 1"
    "work_item (workers working ! 0) = Some 5" "work_item (workers working ! 1) = Some 6"
    by code_simp+
  from no_item_worked_twice [OF capped_semaphore working_reachable w] w(4,5) show ?thesis by blast
qed

definition busy :: "('k, 'i, 'sem) psys \<Rightarrow> nat" where
  "busy s = length (filter (\<lambda>w. permits w = 1) (workers s))"

lemma sum_permits: "sum_list (map permits ws) = length (filter (\<lambda>w. permits w = 1) ws)"
proof (induction ws)
  case (Cons w ws)
  have "permits w = 0 \<or> permits w = 1" by (cases w) auto
  with Cons show ?case by auto
qed simp

lemma busy_permits: "busy s = sum_list (map permits (workers s))"
  by (simp only: sum_permits busy_def)

lemma held_grows:
  assumes sem: "semaphore ops n held" and "pool_step ops ID e s t"
  shows "held (pool_sem (pool t)) \<le> held (pool_sem (pool s)) \<or> int (held (pool_sem (pool t))) \<le> n"
  using assms(2)
proof cases
  case (step_w_acquire i m)
  then have "int (held (pool_sem (pool s))) < n" "held m = held (pool_sem (pool s)) + 1"
    using sem unfolding semaphore_def by (metis option.distinct(1), blast)
  with step_w_acquire show ?thesis by simp
next
  case (step_force uid p)
  then show ?thesis using only_items_ForceRetry [of uid "pool s" p] by (simp add: only_items_def)
next
  case (step_tick ks now p)
  then show ?thesis using only_items_retry_due [of ks now "pool s" p] by (simp add: only_items_def)
next
  case (step_add item)
  then show ?thesis using only_items_Add [of "pool s" ID item] by (simp add: only_items_def)
next
  case (step_w_select_err i p)
  then obtain m where "sem_release ops (pool_sem (pool s)) = Some m" "p = (pool s)\<lparr>pool_sem := m\<rparr>"
    by (auto simp: release_one_def split: option.splits)
  with sem step_w_select_err show ?thesis by (auto simp: semaphore_def)
next
  case (step_w_retry i item "when" p)
  then obtain m where "sem_release ops (pool_sem (pool s)) = Some m" "pool_sem p = m"
    by (auto simp: RetryLater_def setState_def release_one_def split: option.splits)
  with sem step_w_retry show ?thesis by (auto simp: semaphore_def)
next
  case (step_w_complete i item p)
  then obtain m where "sem_release ops (pool_sem (pool s)) = Some m" "pool_sem p = m"
    by (auto simp: Complete_def setState_def release_one_def split: option.splits)
  with sem step_w_complete show ?thesis by (auto simp: semaphore_def)
qed simp_all

lemma held_bounded:
  assumes "semaphore ops n held" and "reachable (pool_init ops n) (pool_next ops ID) s"
  shows "int (held (pool_sem (pool s))) \<le> max 0 n"
  using assms(2)
proof induction
  case (reachable_init s)
  then show ?case
    using assms(1) by (auto simp: pool_init_def NewPool_def semaphore_def)
next
  case (reachable_step s t)
  then show ?case
    using held_grows [OF assms(1)] by (fastforce simp: pool_next_def)
qed

text \<open>
  C18: The workers between \<^verbatim>\<open>Acquire\<close> and their report are exactly those the semaphore counts, on every
  path through \<^verbatim>\<open>Get\<close>, \<^verbatim>\<open>RetryLater\<close> and \<^verbatim>\<open>Complete\<close>, so there are never more than \<^verbatim>\<open>concurrency\<close>.
\<close>

theorem workers_within_concurrency:
  assumes "semaphore ops n held"
    and "reachable (pool_init ops n) (pool_next ops ID) s"
  shows "held (pool_sem (pool s)) = busy s \<and> int (busy s) \<le> max 0 n"
  using psys_invD(4) [OF reachable_psys_inv [OF assms]] held_bounded [OF assms] by (simp add: busy_permits)

theorem workers_within_concurrency_witness:
  "pool_sem (pool working) = busy working \<and> int (busy working) \<le> max 0 2 \<and> busy working = 2"
proof -
  have "busy working = 2" by code_simp
  with workers_within_concurrency [OF capped_semaphore working_reachable] show ?thesis by simp
qed


section \<open>Items on their way\<close>

text \<open>
  C19: As long as the deliverer runs and the pool holds at most 1000 items (the mailbox's bound), an
  available item is in exactly one place: the mailbox, the deliverer's hands, or a worker's; an item
  that is not available is in none.
\<close>

theorem available_item_in_one_place:
  assumes "semaphore ops n held"
    and "reachable (pool_init ops n) (pool_next ops ID) s"
    and "deliverer s \<noteq> D_return" and "card (dom (poolItems (pool s))) \<le> 1000"
  shows "queued k (pool s) + held_by_d k (deliverer s) + sum_list (map (held_by_w ID k) (workers s))
    = of_bool (avail k (pool s))"
proof -
  note inv' = psys_invD [OF reachable_psys_inv [OF assms(1,2)]]
  have "queued k (pool s) + away ID (deliverer s) (workers s) k \<le> of_bool (avail k (pool s))"
    using pool_okD(6) [OF inv'(1)] .
  moreover have "avail k (pool s) \<Longrightarrow> 0 < queued k (pool s) + away ID (deliverer s) (workers s) k"
    using inv'(2) [OF assms(3)] assms(4) by (simp add: pool_all_def)
  ultimately show ?thesis
    by (cases "avail k (pool s)") (auto simp: away_def)
qed

definition one_added :: "(nat, nat, nat) psys" where
  "one_added = two_workers\<lparr>pool := Add (\<lambda>i. i) 5 (pool two_workers)\<rparr>"

lemma one_added_reachable: "reachable (pool_init (capped 2) 2) (pool_next (capped 2) (\<lambda>i. i)) one_added"
proof -
  have "moves (capped 2) (\<lambda>i. i) [M_add 5] two_workers = Some one_added"
    by (simp add: one_added_def)
  then show ?thesis
    by (rule moves_reachable) (auto intro: reachable_init NewPoolWorker_init simp: two_workers_def)
qed

lemma one_added_items: "dom (poolItems (pool one_added)) = {5}"
  by (simp add: one_added_def two_workers_def NewPoolWorker_def NewPool_def Add_def)

theorem available_item_in_one_place_witness:
  "deliverer one_added \<noteq> D_return \<and> card (dom (poolItems (pool one_added))) \<le> 1000
    \<and> queued 5 (pool one_added) + held_by_d 5 (deliverer one_added)
        + sum_list (map (held_by_w (\<lambda>i. i) 5) (workers one_added)) = 1"
proof -
  have d: "deliverer one_added \<noteq> D_return" "card (dom (poolItems (pool one_added))) \<le> 1000"
    by (code_simp, simp add: one_added_items)
  have "avail 5 (pool one_added)"
    by (simp add: avail_def one_added_def two_workers_def NewPoolWorker_def NewPool_def Add_def)
  with available_item_in_one_place [OF capped_semaphore one_added_reachable d, of 5] d show ?thesis by simp
qed

text \<open>The steps of the pool's deliverer and of its workers: what goes on without clients and clock.\<close>

definition internal :: "('k, 'i) event \<Rightarrow> bool" where
  "internal e = (case e of Deliverer \<Rightarrow> True | Handoff _ _ \<Rightarrow> True | Worker _ \<Rightarrow> True | _ \<Rightarrow> False)"

definition pool_works ::
    "'sem sem_ops \<Rightarrow> ('i \<Rightarrow> 'k) \<Rightarrow> ('k, 'i, 'sem) psys \<Rightarrow> ('k, 'i, 'sem) psys \<Rightarrow> bool" where
  "pool_works ops ID s t \<longleftrightarrow> (\<exists>e. internal e \<and> pool_step ops ID e s t)"

fun d_weight :: "'k dpc \<Rightarrow> nat" where
  "d_weight D_select = 0"
| "d_weight D_retrieve = 2"
| "d_weight (D_loop ids) = 1 + 9 * length ids"
| "d_weight (D_send uid ids) = 9 + 9 * length ids"
| "d_weight D_return = 0"

fun w_weight :: "('k, 'i) wpc \<Rightarrow> nat" where
  "w_weight Wk_top = 3"
| "w_weight Wk_acquire = 2"
| "w_weight Wk_select = 1"
| "w_weight (Wk_lookup _) = 6"
| "w_weight (Wk_work _) = 5"
| "w_weight (Wk_report _ _) = 4"
| "w_weight Wk_return = 0"

definition weight :: "('k, 'i, 'sem) psys \<Rightarrow> nat" where
  "weight s = 10 * length (contents (itemsAvailable (pool s))) + 3 * of_bool (mb_notify (itemsAvailable (pool s)))
     + d_weight (deliverer s) + (if deliverer s = D_return then 0 else 1) + sum_list (map w_weight (workers s))"

lemma w_weight_update:
  "i < length ws \<Longrightarrow> w_weight w < w_weight (ws ! i) \<Longrightarrow>
     sum_list (map w_weight (ws[i := w])) < sum_list (map w_weight ws)"
  using sum_list_update_add [of i ws w_weight w] by simp

lemma same_mailbox:
  "release_one ops p = Some p' \<Longrightarrow> itemsAvailable p' = itemsAvailable p"
  "setState k st when p = Some p' \<Longrightarrow> itemsAvailable p' = itemsAvailable p"
  by (auto simp: release_one_def setState_def split: option.splits)

lemma works_weight:
  assumes "pool_step ops ID e s t" and "internal e"
  shows "weight t < weight s"
  using assms(1)
proof cases
  case (step_d_done uid ids)
  then show ?thesis by (auto simp: weight_def)
next
  case (step_d_notify m)
  then show ?thesis by (auto simp: weight_def Notify_def contents_def split: if_splits)
next
  case (step_d_retrieve ids m)
  have m: "ids = contents (itemsAvailable (pool s))" "m = snd (RetrieveAll (itemsAvailable (pool s)))"
    using RetrieveAll_contents [of "itemsAvailable (pool s)"] step_d_retrieve(4) by simp_all
  from step_d_retrieve(2,3) show ?thesis unfolding m by (simp add: weight_def)
next
  case (step_d_next uid ids d)
  then have "d = D_loop ids \<or> d = D_send uid ids"
    by (auto simp: deliver_check_def split: option.splits if_splits)
  with step_d_next show ?thesis by (auto simp: weight_def)
next
  case (step_handoff uid ids i)
  then show ?thesis
    using sum_list_update_add [of i "workers s" w_weight "Wk_lookup uid"] by (simp add: weight_def)
next
  case (step_w_select_err i p)
  then show ?thesis
    using same_mailbox(1) [of ops "pool s" p] w_weight_update [of i "workers s" Wk_return] by (simp add: weight_def)
next
  case (step_w_retry i item "when" p)
  then have "itemsAvailable p = itemsAvailable (pool s)"
    by (auto simp: RetryLater_def same_mailbox split: option.splits)
  with step_w_retry show ?thesis
    using w_weight_update [of i "workers s" Wk_top] by (simp add: weight_def)
next
  case (step_w_complete i item p)
  then have "itemsAvailable p = itemsAvailable (pool s)"
    by (auto simp: Complete_def same_mailbox split: option.splits)
  with step_w_complete show ?thesis
    using w_weight_update [of i "workers s" Wk_top] by (simp add: weight_def)
next
  case step_d_again
  then show ?thesis by (simp add: weight_def)
next
  case (step_w_stop i)
  then show ?thesis using w_weight_update [of i "workers s" Wk_return] by (simp add: weight_def)
next
  case (step_w_go i)
  then show ?thesis using w_weight_update [of i "workers s" Wk_acquire] by (simp add: weight_def)
next
  case (step_w_acquire i m)
  then show ?thesis using w_weight_update [of i "workers s" Wk_select] by (simp add: weight_def)
next
  case (step_w_acquire_err i)
  then show ?thesis using w_weight_update [of i "workers s" Wk_return] by (simp add: weight_def)
next
  case (step_w_lookup i uid item)
  then show ?thesis using w_weight_update [of i "workers s" "Wk_work item"] by (simp add: weight_def)
next
  case (step_w_work i item retry)
  then show ?thesis using w_weight_update [of i "workers s" "Wk_report item retry"] by (simp add: weight_def)
qed (use assms(2) in \<open>simp_all add: internal_def\<close>)

text \<open>
  The deliverer and the workers come to rest: without new items, forced retries or ticks of the clock,
  no run of theirs goes on for ever, whatever the workers' \<^verbatim>\<open>Work\<close> answers.
\<close>

theorem pool_comes_to_rest:
  "\<not> (\<exists>run. \<forall>i. pool_works ops ID (run i) (run (Suc i)))"
proof
  assume "\<exists>run. \<forall>i. pool_works ops ID (run i) (run (Suc i))"
  then obtain run where run: "\<And>i. pool_works ops ID (run i) (run (Suc i))" by blast
  have "weight (run (Suc i)) < weight (run i)" for i
    using run [of i] works_weight unfolding pool_works_def by blast
  then show False
    using wf_no_infinite_down_chainE [OF wf_measure [of weight], of run] by auto
qed

lemma busy_worker_steps:
  assumes sem: "semaphore ops n held" and inv: "psys_inv held ID s" and i: "i < length (workers s)"
    and w: "permits (workers s ! i) = 1" "workers s ! i \<noteq> Wk_select"
  shows "\<exists>t. pool_step ops ID (Worker i) s t"
proof (cases "workers s ! i")
  case (Wk_lookup uid)
  then obtain item where "get_item uid (pool s) = Some item"
    using lookup_finds [OF inv i] by blast
  with i Wk_lookup show ?thesis by (blast intro: step_w_lookup)
next
  case (Wk_work item)
  with i show ?thesis by (blast intro: step_w_work)
next
  case (Wk_report item b)
  show ?thesis
  proof (cases b)
    case True
    then obtain p where "RetryLater ops (ID item) 0 (pool s) = Some p"
      using worker_reports [OF sem inv i Wk_report, of InRetryPool 0] by (auto simp: RetryLater_def)
    with Wk_report True show ?thesis
      using step_w_retry [OF i, of item ops ID 0 p] by auto
  next
    case False
    then obtain p where "Complete ops (ID item) (pool s) = Some p"
      using worker_reports [OF sem inv i Wk_report, of Done 0] by (auto simp: Complete_def)
    with Wk_report False show ?thesis
      using step_w_complete [OF i, of item ops ID p] by auto
  qed
qed (use w in auto)

lemma deliverer_steps:
  assumes inv: "psys_inv held ID s" and d: "deliverer s \<noteq> D_return"
    and i: "i < length (workers s)" "workers s ! i = Wk_select"
  shows "(\<exists>e t. internal e \<and> pool_step ops ID e s t)
    \<or> deliverer s = D_select \<and> contents (itemsAvailable (pool s)) = []"
proof (cases "deliverer s")
  case D_select
  show ?thesis
  proof (cases "contents (itemsAvailable (pool s)) = []")
    case False
    then have "mb_notify (itemsAvailable (pool s))"
      using psys_invD(5) [OF inv] D_select by (auto simp: wake_ok_def)
    then obtain m where "Notify (itemsAvailable (pool s)) = Some m"
      by (auto simp: Notify_def)
    with D_select have "pool_step ops ID Deliverer s
        (s\<lparr>deliverer := D_retrieve, pool := (pool s)\<lparr>itemsAvailable := m\<rparr>\<rparr>)"
      by (intro step_d_notify)
    then show ?thesis by (auto simp: internal_def)
  qed (use D_select in simp)
next
  case D_retrieve
  then have "pool_step ops ID Deliverer s (s\<lparr>deliverer := D_loop (fst (RetrieveAll (itemsAvailable (pool s)))),
      pool := (pool s)\<lparr>itemsAvailable := snd (RetrieveAll (itemsAvailable (pool s)))\<rparr>\<rparr>)"
    by (intro step_d_retrieve) (simp_all add: prod_eq_iff)
  then show ?thesis by (auto simp: internal_def)
next
  case (D_loop ids)
  have "\<exists>t. pool_step ops ID Deliverer s t"
  proof (cases ids)
    case (Cons uid ids')
    with D_loop deliver_next(1) [OF inv, of uid ids'] show ?thesis by (blast intro: step_d_next)
  qed (use D_loop in \<open>blast intro: step_d_again\<close>)
  then show ?thesis by (auto simp: internal_def)
next
  case (D_send uid ids)
  then have "\<exists>t. pool_step ops ID (Handoff i uid) s t"
    using i by (blast intro: step_handoff)
  then show ?thesis by (auto simp: internal_def)
qed (use d in simp)

lemma held_by_busy: "0 < held_by_w ID k w \<Longrightarrow> permits w = 1 \<and> w \<noteq> Wk_select"
  by (cases w) auto

text \<open>Where nothing can move, the workers that hold a permit are at their receive, and one of them is there.\<close>

lemma stuck_workers:
  assumes sem: "semaphore ops n held" and n: "0 < n" and inv: "psys_inv held ID s"
    and i: "i < length (workers s)" "workers s ! i \<noteq> Wk_return" "\<not> w_ctx s i"
    and rest: "\<nexists>t. pool_works ops ID s t"
  shows "\<And>j. j < length (workers s) \<Longrightarrow> permits (workers s ! j) = 1 \<Longrightarrow> workers s ! j = Wk_select"
    and "\<exists>j < length (workers s). permits (workers s ! j) = 1"
proof -
  have stuck: "\<not> pool_step ops ID (Worker j) s t" for j t
    using rest by (auto simp: pool_works_def internal_def)
  show "workers s ! j = Wk_select" if j: "j < length (workers s)" "permits (workers s ! j) = 1" for j
    using busy_worker_steps [OF sem inv j] stuck [of j] by auto
  show "\<exists>j < length (workers s). permits (workers s ! j) = 1"
  proof (rule ccontr)
    assume none: "\<not> ?thesis"
    then have w: "workers s ! i = Wk_top \<or> workers s ! i = Wk_acquire"
      using i(1,2) by (cases "workers s ! i") auto
    have "held (pool_sem (pool s)) = 0"
      using none psys_invD(4) [OF inv] sum_permits [of "workers s"]
      by (auto simp: filter_empty_conv in_set_conv_nth)
    moreover have "int (held (pool_sem (pool s))) < n \<longleftrightarrow> sem_acquire ops (pool_sem (pool s)) \<noteq> None"
      using sem unfolding semaphore_def by blast
    ultimately have "sem_acquire ops (pool_sem (pool s)) \<noteq> None" using n by auto
    with w have "\<exists>t. pool_step ops ID (Worker i) s t"
      using i(1,3) by (blast intro: step_w_go step_w_acquire)
    then show False using stuck by blast
  qed
qed

text \<open>
  C6: When they have come to rest, no item is left that waits to be worked on: with at least one worker whose context is
  not done, a running deliverer and at most 1000 items, a pool in which neither deliverer nor workers
  can move has no available item left. No wake-up is lost between \<^verbatim>\<open>Notify\<close> and \<^verbatim>\<open>RetrieveAll\<close>.
\<close>

theorem pool_rests_only_when_empty:
  assumes "semaphore ops n held" and "0 < n"
    and "reachable (pool_init ops n) (pool_next ops ID) s"
    and "deliverer s \<noteq> D_return" and "card (dom (poolItems (pool s))) \<le> 1000"
    and "i < length (workers s)" and "workers s ! i \<noteq> Wk_return" and "\<not> w_ctx s i"
    and "\<nexists>t. pool_works ops ID s t"
  shows "\<not> avail k (pool s)"
proof
  assume k: "avail k (pool s)"
  have inv: "psys_inv held ID s" using assms(1,3) by (rule reachable_psys_inv)
  have stuck: "\<not> pool_step ops ID e s t" if "internal e" for e t
    using assms(9) that unfolding pool_works_def by blast
  note workers = stuck_workers [OF assms(1,2) inv assms(6-9)]
  obtain j where j: "j < length (workers s)" "workers s ! j = Wk_select" using workers by blast
  from deliverer_steps [OF inv assms(4) j, of ops] stuck
  have d: "deliverer s = D_select" "contents (itemsAvailable (pool s)) = []" by blast+
  have "queued k (pool s) + held_by_d k (deliverer s) + sum_list (map (held_by_w ID k) (workers s)) = 1"
    using psys_invD(2) [OF inv assms(4)] pool_okD(6) [OF psys_invD(1) [OF inv], of k] assms(5) k
    by (auto simp: pool_all_def away_def)
  then have "sum_list (map (held_by_w ID k) (workers s)) \<noteq> 0"
    using d by (simp add: queued_def)
  then obtain m where m: "m < length (workers s)" "0 < held_by_w ID k (workers s ! m)"
    by (auto simp: in_set_conv_nth)
  with held_by_busy [OF m(2)] workers(1) [OF m(1)] show False by simp
qed


text \<open>Both workers are waiting again: item 5 is done, item 6 waits for its retry.\<close>

definition rest_moves :: "(nat, nat) move list" where
  "rest_moves = [M_work 0 None, M_work 0 None, M_work 1 None, M_work 1 None, M_deliver]"

definition resting :: "(nat, nat, nat) psys" where
  "resting = the (moves (capped 2) (\<lambda>i. i) rest_moves reported)"

lemma resting_moves: "moves (capped 2) (\<lambda>i. i) rest_moves reported = Some resting"
  unfolding resting_def by (rule some_the) code_simp

lemma resting_reachable: "reachable (pool_init (capped 2) 2) (pool_next (capped 2) (\<lambda>i. i)) resting"
  using resting_moves reported_reachable by (rule moves_reachable)

lemma resting_state:
  "workers resting = [Wk_select, Wk_select]" "deliverer resting = D_select" "\<not> w_ctx resting i" "\<not> d_ctx resting"
  "Notify (itemsAvailable (pool resting)) = None" "map_option pi_state (poolItems (pool resting) 5) = Some Done"
  "map_option pi_state (poolItems (pool resting) 6) = Some InRetryPool"
  by code_simp+

lemma resting_rests: "\<nexists>t. pool_works (capped 2) (\<lambda>i. i) resting t"
proof
  assume "\<exists>t. pool_works (capped 2) (\<lambda>i. i) resting t"
  then obtain e t where "internal e" "pool_step (capped 2) (\<lambda>i. i) e resting t"
    by (auto simp: pool_works_def)
  from this(2,1) show False
    by cases (auto simp: internal_def resting_state nth_Cons' split: if_splits)
qed

theorem pool_rests_only_when_empty_witness:
  "map_option pi_state (poolItems (pool resting) 5) = Some Done \<and> map_option pi_state (poolItems (pool resting) 6) = Some InRetryPool
   \<and> \<not> avail 5 (pool resting) \<and> \<not> avail 6 (pool resting)"
proof -
  have "k = 5 \<or> k = 6" if "k \<in> dom (poolItems (pool resting))" for k
  proof -
    from subsetD [OF moves_items [OF resting_moves] that] have "k \<in> dom (poolItems (pool reported))"
      by (simp add: rest_moves_def)
    from subsetD [OF moves_items [OF reported_moves] this] have "k \<in> dom (poolItems (pool working))"
      by (simp add: both_reported_def)
    from subsetD [OF moves_items [OF working_moves] this] show ?thesis
      by (auto simp: both_working_def two_workers_def NewPoolWorker_def NewPool_def)
  qed
  then have "dom (poolItems (pool resting)) \<subseteq> {5, 6}" by blast
  then have "card (dom (poolItems (pool resting))) \<le> card {5, 6 :: nat}" by (intro card_mono) simp
  then have "card (dom (poolItems (pool resting))) \<le> 1000" by simp
  then have "\<not> avail k (pool resting)" for k
    using pool_rests_only_when_empty [OF capped_semaphore _ resting_reachable _ _ _ _ _ resting_rests, of 0 k]
    by (simp add: resting_state)
  then show ?thesis by (simp add: resting_state)
qed

section \<open>Retries\<close>

lemma retry_due_result:
  assumes "distinct ks" and "set ks \<subseteq> dom (poolItems p)" and "mb_ok (itemsAvailable p)"
  shows "\<exists>p'. retry_due ks now p = Some p' \<and> pool_sem p' = pool_sem p
    \<and> poolItems p' = (\<lambda>k. if k \<in> set ks \<and> due k now p
         then map_option (\<lambda>e. e\<lparr>pi_state := Available, pi_retryWhen := 0\<rparr>) (poolItems p k) else poolItems p k)
    \<and> contents (itemsAvailable p')
        = window (mb_limit (itemsAvailable p)) (contents (itemsAvailable p) @ filter (\<lambda>k. due k now p) ks)"
  using assms
proof (induction ks arbitrary: p)
  case Nil
  then show ?case
    using mb.deliver_all [of "itemsAvailable p" "[]"] by simp
next
  case (Cons k ks)
  show ?case
  proof (cases "due k now p")
    case False
    then have "retry_due (k # ks) now p = retry_due ks now p" by (rule retry_due_skip)
    moreover obtain p' where "retry_due ks now p = Some p' \<and> pool_sem p' = pool_sem p
      \<and> poolItems p' = (\<lambda>j. if j \<in> set ks \<and> due j now p
           then map_option (\<lambda>e. e\<lparr>pi_state := Available, pi_retryWhen := 0\<rparr>) (poolItems p j) else poolItems p j)
      \<and> contents (itemsAvailable p')
          = window (mb_limit (itemsAvailable p)) (contents (itemsAvailable p) @ filter (\<lambda>k. due k now p) ks)"
      using Cons.IH [of p] Cons.prems by auto
    ultimately show ?thesis
      using False by (intro exI [of _ p']) auto
  next
    case True
    then obtain p1 where p1: "make_available k p = Some p1" "retry_due (k # ks) now p = retry_due ks now p1"
      using retry_due_take [OF True, of ks] by auto
    then obtain e where e: "poolItems p k = Some e"
      "p1 = p\<lparr>poolItems := (poolItems p)(k \<mapsto> e\<lparr>pi_state := Available, pi_retryWhen := 0\<rparr>),
              itemsAvailable := Deliver k (itemsAvailable p)\<rparr>"
      by (auto simp: make_available_Some)
    have due: "due j now p1 = due j now p" if "j \<noteq> k" for j
      using that by (simp add: due_def e)
    have "filter (\<lambda>j. due j now p1) ks = filter (\<lambda>j. due j now p) ks"
      using Cons.prems(1) by (intro filter_cong refl) (metis due distinct.simps(2))
    moreover have "set ks \<subseteq> dom (poolItems p1)" "mb_ok (itemsAvailable p1)"
      using Cons.prems e by auto
    with Cons.IH [of p1] Cons.prems(1) obtain p' where "retry_due ks now p1 = Some p' \<and> pool_sem p' = pool_sem p1
      \<and> poolItems p' = (\<lambda>j. if j \<in> set ks \<and> due j now p1
           then map_option (\<lambda>e. e\<lparr>pi_state := Available, pi_retryWhen := 0\<rparr>) (poolItems p1 j) else poolItems p1 j)
      \<and> contents (itemsAvailable p')
          = window (mb_limit (itemsAvailable p1)) (contents (itemsAvailable p1) @ filter (\<lambda>k. due k now p1) ks)"
      by auto
    ultimately show ?thesis
      using True due p1(2) e Cons.prems(1,3)
      by (intro exI [of _ p']) (auto simp: contents_Deliver window_append_window fun_eq_iff)
  qed
qed

text \<open>
  One tick of the retry handler makes exactly the due items available, whatever the order in which the
  map is iterated, leaves every other item as it is, and delivers the ids of the due ones, in that order,
  behind what the mailbox held.
\<close>

theorem retry_tick_releases_due:
  assumes "iterates ks (poolItems p)" and "mb_ok (itemsAvailable p)"
  shows "\<exists>p'. retry_due ks now p = Some p'
    \<and> poolItems p' = (\<lambda>k. if due k now p
         then map_option (\<lambda>e. e\<lparr>pi_state := Available, pi_retryWhen := 0\<rparr>) (poolItems p k) else poolItems p k)
    \<and> contents (itemsAvailable p')
        = window (mb_limit (itemsAvailable p)) (contents (itemsAvailable p) @ filter (\<lambda>k. due k now p) ks)"
proof -
  have ks: "distinct ks" "set ks = dom (poolItems p)"
    using assms(1) by (auto simp: iterates_def)
  have "k \<in> set ks \<and> due k now p \<longleftrightarrow> due k now p" for k
    using ks(2) by (auto simp: due_def)
  with retry_due_result [OF ks(1) _ assms(2), of now] ks(2) show ?thesis by auto
qed


definition retry_pool :: "(int, int, unit) pool" where
  "retry_pool = \<lparr>itemsAvailable = NewMailbox 1000, pool_sem = (), retryInterval = 0,
      poolItems = [1 \<mapsto> \<lparr>pi_item = 1, pi_state = InRetryPool, pi_retryWhen = 3\<rparr>,
                   2 \<mapsto> \<lparr>pi_item = 2, pi_state = InRetryPool, pi_retryWhen = 9\<rparr>]\<rparr>"

theorem retry_tick_releases_due_witness:
  "\<exists>p'. retry_due [1, 2] 5 retry_pool = Some p' \<and> poolItems p' 2 = poolItems retry_pool 2
    \<and> contents (itemsAvailable p') = [1]"
proof -
  have "iterates [1, 2] (poolItems retry_pool)" "mb_ok (itemsAvailable retry_pool)"
    by (auto simp: iterates_def retry_pool_def)
  note tick = retry_tick_releases_due [OF this, of 5]
  have "due 1 5 retry_pool" "\<not> due 2 5 retry_pool" "contents (itemsAvailable retry_pool) = []"
    "mb_limit (itemsAvailable retry_pool) = 1000"
    by (simp_all add: due_def retry_pool_def mb_limit_def NewMailbox_def contents_def)
  with tick show ?thesis by (auto simp: window_short)
qed

section \<open>The life of an item\<close>

text \<open>The moves of one entry that the code allows, for the event that makes them.\<close>

definition entry_step :: "('k, 'i) event \<Rightarrow> 'k \<Rightarrow> ('k, 'i) wpc list \<Rightarrow> ('i \<Rightarrow> 'k) \<Rightarrow> 'i poolItem \<Rightarrow> 'i poolItem \<Rightarrow> bool" where
  "entry_step e k ws ID en en' \<longleftrightarrow>
     (pi_state en = InRetryPool \<and> pi_state en' = Available
        \<and> (e = Client_force k \<or> (\<exists>now. e = Handler now \<and> pi_retryWhen en < now)))
     \<or> (pi_state en = Available
        \<and> (\<exists>i item b. e = Worker i \<and> i < length ws \<and> ws ! i = Wk_report item b \<and> ID item = k
             \<and> pi_state en' = (if b then InRetryPool else Done)))"

lemma setState_item:
  assumes "setState j st when p = Some p'" and "poolItems p k = Some en"
  shows "\<exists>en'. poolItems p' k = Some en' \<and> pi_item en' = pi_item en
    \<and> (if j = k then pi_state en' = st else en' = en)"
  using assms by (cases "j = k") (auto simp: setState_def split: option.splits)

lemma release_one_items: "release_one ops p = Some p' \<Longrightarrow> poolItems p' = poolItems p"
  by (auto simp: release_one_def split: option.splits)

lemma force_entry:
  assumes "ForceRetry j p = Some p'" and "poolItems p k = Some en"
  shows "\<exists>en'. poolItems p' k = Some en' \<and> pi_item en' = pi_item en
    \<and> (en' = en \<or> j = k \<and> pi_state en = InRetryPool \<and> pi_state en' = Available)"
  using assms
  by (auto simp: ForceRetry_def make_available_Some split: option.splits poolItemState.splits)

lemma tick_entry:
  assumes "iterates ks (poolItems p)" and "retry_due ks now p = Some p'" and "mb_ok (itemsAvailable p)"
    and "poolItems p k = Some en"
  shows "\<exists>en'. poolItems p' k = Some en' \<and> pi_item en' = pi_item en
    \<and> (en' = en \<or> pi_state en = InRetryPool \<and> pi_retryWhen en < now \<and> pi_state en' = Available)"
proof -
  have "distinct ks" "set ks \<subseteq> dom (poolItems p)"
    using assms(1) by (auto simp: iterates_def)
  from retry_due_result [OF this assms(3), of now] assms(2)
  have "poolItems p' = (\<lambda>k. if k \<in> set ks \<and> due k now p
         then map_option (\<lambda>e. e\<lparr>pi_state := Available, pi_retryWhen := 0\<rparr>) (poolItems p k) else poolItems p k)"
    by auto
  with assms(4) show ?thesis by (auto simp: due_def)
qed

lemma report_entry:
  assumes inv: "psys_inv held ID s" and i: "i < length (workers s)" "workers s ! i = Wk_report item b"
    and p: "setState (ID item) st when (pool s) = Some p'" and k: "poolItems (pool s) k = Some en"
  shows "\<exists>en'. poolItems p' k = Some en' \<and> pi_item en' = pi_item en
    \<and> (en' = en \<or> ID item = k \<and> pi_state en = Available \<and> pi_state en' = st)"
proof -
  have "avail (ID item) (pool s)"
    using worker_item_avail(1) [OF inv i(1), of "ID item"] i(2) by simp
  with setState_item [OF p k] k show ?thesis by (auto simp: avail_def split: if_splits)
qed

lemma entry_moves:
  assumes "pool_step ops ID e s t" and inv: "psys_inv held ID s" and k: "poolItems (pool s) k = Some en"
  shows "\<exists>en'. poolItems (pool t) k = Some en' \<and> pi_item en' = pi_item en
    \<and> (en' = en \<or> entry_step e k (workers s) ID en en')"
  using assms(1)
proof cases
  case (step_add item)
  with k show ?thesis by (auto simp: Add_def split: option.splits)
next
  case (step_force uid p)
  with force_entry [OF step_force(3) k] show ?thesis by (auto simp: entry_step_def)
next
  case (step_tick ks now p)
  have "mb_ok (itemsAvailable (pool s))"
    using pool_okD(1) [OF psys_invD(1) [OF inv]] .
  from tick_entry [OF step_tick(4,5) this k] step_tick(1,2) show ?thesis by (auto simp: entry_step_def)
next
  case (step_w_select_err i p)
  with k show ?thesis by (auto dest: release_one_items)
next
  case (step_w_retry i item "when" p)
  then obtain p' where p': "setState (ID item) InRetryPool when (pool s) = Some p'" "release_one ops p' = Some p"
    by (auto simp: RetryLater_def split: option.splits)
  from report_entry [OF inv step_w_retry(3,4) p'(1) k] release_one_items [OF p'(2)] step_w_retry(1-4) show ?thesis
    by (auto simp: entry_step_def)
next
  case (step_w_complete i item p)
  then obtain p' where p': "setState (ID item) Done 0 (pool s) = Some p'" "release_one ops p' = Some p"
    by (auto simp: Complete_def split: option.splits)
  from report_entry [OF inv step_w_complete(3,4) p'(1) k] release_one_items [OF p'(2)] step_w_complete(1-4) show ?thesis
    by (auto simp: entry_step_def)
qed (use k in auto)

text \<open>
  An item that waits for its retry is left alone until a tick of the clock later than its time, or a
  client's \<^verbatim>\<open>ForceRetry\<close> of its id, makes it available; and no step removes an item or exchanges it.
\<close>

theorem waiting_item_waits:
  assumes "semaphore ops n held"
    and "reachable (pool_init ops n) (pool_next ops ID) s"
    and "pool_step ops ID e s t" and "poolItems (pool s) k = Some en"
  shows "\<exists>en'. poolItems (pool t) k = Some en' \<and> pi_item en' = pi_item en
    \<and> (pi_state en = InRetryPool \<and> en' \<noteq> en \<longrightarrow>
         pi_state en' = Available \<and> (e = Client_force k \<or> (\<exists>now. e = Handler now \<and> pi_retryWhen en < now)))"
  using entry_moves [OF assms(3) reachable_psys_inv [OF assms(1,2)] assms(4)]
  by (auto simp: entry_step_def)

theorem waiting_item_waits_witness:
  "\<exists>en en' t. poolItems (pool reported) 6 = Some en \<and> pi_state en = InRetryPool \<and> pi_retryWhen en = 7
    \<and> pool_step (capped 2) (\<lambda>i. i) (Client_force 6) reported t
    \<and> poolItems (pool t) 6 = Some en' \<and> pi_item en' = pi_item en"
proof -
  have "pi_state (the (poolItems (pool reported) 6)) = InRetryPool"
    "pi_retryWhen (the (poolItems (pool reported) 6)) = 7" "\<not> Option.is_none (poolItems (pool reported) 6)"
    by code_simp+
  then obtain en where en: "poolItems (pool reported) 6 = Some en" "pi_state en = InRetryPool" "pi_retryWhen en = 7"
    by (auto simp: Option.is_none_def)
  then obtain p where "ForceRetry 6 (pool reported) = Some p"
    by (auto simp: ForceRetry_def make_available_Some)
  then have st: "pool_step (capped 2) (\<lambda>i. i) (Client_force 6) reported (reported\<lparr>pool := p\<rparr>)"
    by (rule step_force)
  from waiting_item_waits [OF capped_semaphore reported_reachable st en(1)] en st show ?thesis by blast
qed

definition finished :: "'k \<Rightarrow> ('k, 'i, 'sem) psys \<Rightarrow> bool" where
  "finished k s \<longleftrightarrow> (\<exists>e. poolItems (pool s) k = Some e \<and> pi_state e = Done)"

lemma finished_steps:
  assumes "(pool_next ops ID)\<^sup>*\<^sup>* s t" and "semaphore ops n held" and "psys_inv held ID s" and "finished k s"
  shows "finished k t"
  using assms(1)
proof (induction rule: rtranclp_induct)
  case (step u v)
  have "psys_inv held ID u"
    using assms(2,3) step.hyps(1) by (rule psys_steps_inv)
  with step.hyps(2) step.IH show ?case
    unfolding finished_def pool_next_def
    by (fastforce dest: entry_moves simp: entry_step_def)
qed (rule assms(4))

text \<open>
  C21: A completed item stays completed, however often it is added again or its retry is forced: no worker, nor
  the deliverer, nor the mailbox ever holds its id again.
\<close>

theorem completed_item_never_reworked:
  assumes "semaphore ops n held"
    and "reachable (pool_init ops n) (pool_next ops ID) s"
    and "finished k s" and "(pool_next ops ID)\<^sup>*\<^sup>* s t"
  shows "finished k t \<and> queued k (pool t) = 0 \<and> held_by_d k (deliverer t) = 0
    \<and> (\<forall>w \<in> set (workers t). held_by_w ID k w = 0)"
proof -
  have s: "psys_inv held ID s" using assms(1,2) by (rule reachable_psys_inv)
  have t: "psys_inv held ID t" using assms(1) s assms(4) by (rule psys_steps_inv)
  have fin: "finished k t" using assms(4,1) s assms(3) by (rule finished_steps)
  then have "\<not> avail k (pool t)" by (auto simp: finished_def avail_def)
  with pool_okD(6) [OF psys_invD(1) [OF t], of k] fin show ?thesis by (simp add: away_def)
qed

theorem completed_item_never_reworked_witness:
  "finished 5 reported \<and> queued 5 (pool reported) = 0 \<and> held_by_w (\<lambda>i. i) 5 (workers reported ! 0) = 0"
proof -
  have "pi_state (the (poolItems (pool reported) 5)) = Done" "\<not> Option.is_none (poolItems (pool reported) 5)"
    by code_simp+
  then have fin: "finished 5 reported"
    by (auto simp: finished_def Option.is_none_def)
  have "0 < length (workers reported)" by code_simp
  then have "workers reported ! 0 \<in> set (workers reported)" by (rule nth_mem)
  with completed_item_never_reworked [OF capped_semaphore reported_reachable fin rtranclp.rtrancl_refl] fin
  show ?thesis by blast
qed

section \<open>Without room in the mailbox\<close>

text \<open>How often an id is in some place: the mailbox, the deliverer's hands, a worker's.\<close>

definition places :: "('i \<Rightarrow> 'k) \<Rightarrow> 'k \<Rightarrow> ('k, 'i, 'sem) psys \<Rightarrow> nat" where
  "places ID k s = queued k (pool s) + away ID (deliverer s) (workers s) k"

lemma queued_Deliver:
  "mb_ok (itemsAvailable p) \<Longrightarrow> itemsAvailable p' = Deliver j (itemsAvailable p) \<Longrightarrow> j \<noteq> k \<Longrightarrow> queued k p' \<le> queued k p"
  using count_window [of "mb_limit (itemsAvailable p)" "contents (itemsAvailable p) @ [j]" k]
  by (simp add: queued_def contents_Deliver)

lemma places_worker:
  assumes "i < length (workers s)" and "held_by_w ID k w \<le> held_by_w ID k (workers s ! i)"
    and "itemsAvailable p = itemsAvailable (pool s)"
  shows "places ID k (s\<lparr>workers := (workers s)[i := w], pool := p\<rparr>) \<le> places ID k s"
  using away_worker [OF assms(1), of ID "deliverer s" w k] assms(2,3) by (simp add: places_def queued_def)

lemma places_step:
  assumes "pool_step ops ID e s t" and inv: "psys_inv held ID s" and k: "avail k (pool s)"
  shows "places ID k t \<le> places ID k s"
  using assms(1)
proof cases
  case (step_add item)
  have "mb_ok (itemsAvailable (pool s))" using pool_okD(1) [OF psys_invD(1) [OF inv]] .
  with k step_add show ?thesis
    by (auto simp: places_def Add_def avail_def intro!: queued_Deliver split: option.splits)
next
  case (step_force uid p)
  have ok: "mb_ok (itemsAvailable (pool s))" using pool_okD(1) [OF psys_invD(1) [OF inv]] .
  have "queued k p \<le> queued k (pool s)"
  proof (cases "\<exists>e. poolItems (pool s) uid = Some e \<and> pi_state e = InRetryPool")
    case True
    then have "uid \<noteq> k" using k by (auto simp: avail_def)
    with True ok step_force(3) show ?thesis
      by (auto simp: ForceRetry_def make_available_Some intro!: queued_Deliver)
  qed (use step_force(3) in \<open>auto simp: ForceRetry_def split: option.splits poolItemState.splits\<close>)
  with step_force show ?thesis by (simp add: places_def)
next
  case (step_tick ks now p)
  have ks: "distinct ks" "set ks \<subseteq> dom (poolItems (pool s))"
    using step_tick(4) by (auto simp: iterates_def)
  have ok: "mb_ok (itemsAvailable (pool s))" using pool_okD(1) [OF psys_invD(1) [OF inv]] .
  have "\<not> due k now (pool s)" using k by (auto simp: due_def avail_def)
  then have "queued k p \<le> queued k (pool s)"
    using retry_due_result [OF ks ok, of now] step_tick(5)
      count_window [of "mb_limit (itemsAvailable (pool s))"
        "contents (itemsAvailable (pool s)) @ filter (\<lambda>k. due k now (pool s)) ks" k]
    by (auto simp: queued_def)
  with step_tick show ?thesis by (simp add: places_def)
next
  case (step_d_notify m)
  then have "contents m = contents (itemsAvailable (pool s))"
    by (auto simp: Notify_def contents_def split: if_splits)
  with step_d_notify show ?thesis by (simp add: places_def queued_def away_def)
next
  case (step_d_retrieve ids m)
  have m: "ids = contents (itemsAvailable (pool s))" "m = snd (RetrieveAll (itemsAvailable (pool s)))"
    using RetrieveAll_contents [of "itemsAvailable (pool s)"] step_d_retrieve(4) by simp_all
  from step_d_retrieve(2,3) show ?thesis unfolding m by (simp add: places_def queued_def away_def)
next
  case (step_d_next uid ids d)
  then have "d = D_loop ids \<or> d = D_send uid ids"
    by (auto simp: deliver_check_def split: option.splits if_splits)
  with step_d_next show ?thesis by (auto simp: places_def away_def)
next
  case (step_handoff uid ids i)
  then show ?thesis
    using away_worker [of i "workers s" ID "D_loop ids" "Wk_lookup uid" k] by (simp add: places_def away_def)
next
  case (step_w_acquire i m)
  then show ?thesis using places_worker [of i s ID k Wk_select "(pool s)\<lparr>pool_sem := m\<rparr>"] by simp
next
  case (step_w_select_err i p)
  then show ?thesis using places_worker [of i s ID k Wk_return p] same_mailbox(1) [of ops "pool s" p] by simp
next
  case (step_w_lookup i uid item)
  with lookup_finds [OF inv, of i uid] places_worker [of i s ID k "Wk_work item" "pool s"] show ?thesis by simp
next
  case (step_w_retry i item "when" p)
  then have "itemsAvailable p = itemsAvailable (pool s)"
    by (auto simp: RetryLater_def same_mailbox split: option.splits)
  with step_w_retry places_worker [of i s ID k Wk_top p] show ?thesis by simp
next
  case (step_w_complete i item p)
  then have "itemsAvailable p = itemsAvailable (pool s)"
    by (auto simp: Complete_def same_mailbox split: option.splits)
  with step_w_complete places_worker [of i s ID k Wk_top p] show ?thesis by simp
next
  case (step_w_stop i)
  then show ?thesis using places_worker [of i s ID k Wk_return "pool s"] by simp
next
  case (step_w_go i)
  then show ?thesis using places_worker [of i s ID k Wk_acquire "pool s"] by simp
next
  case (step_w_acquire_err i)
  then show ?thesis using places_worker [of i s ID k Wk_return "pool s"] by simp
next
  case (step_w_work i item retry)
  then show ?thesis using places_worker [of i s ID k "Wk_report item retry" "pool s"] by simp
qed (auto simp: places_def away_def)

lemma lost_step:
  assumes e: "pool_step ops ID e s t" and inv: "psys_inv held ID s" and k: "avail k (pool s)" "places ID k s = 0"
  shows "avail k (pool t) \<and> places ID k t = 0"
proof -
  from k(1) obtain en where en: "poolItems (pool s) k = Some en" "pi_state en = Available"
    by (auto simp: avail_def)
  have "held_by_w ID k (workers s ! i) = 0" if "i < length (workers s)" for i
    using k(2) that by (auto simp: places_def away_def)
  then have "\<not> (\<exists>i item b. i < length (workers s) \<and> workers s ! i = Wk_report item b \<and> ID item = k)"
    by fastforce
  then have "\<not> entry_step e k (workers s) ID en en'" for en'
    using en(2) by (auto simp: entry_step_def)
  with entry_moves [OF e inv en(1)] en(2) have "avail k (pool t)"
    by (auto simp: avail_def)
  with places_step [OF e inv k(1)] k(2) show ?thesis by simp
qed

lemma lost_steps:
  assumes "(pool_next ops ID)\<^sup>*\<^sup>* s t" and "semaphore ops n held" and "psys_inv held ID s"
    and "avail k (pool s)" and "places ID k s = 0"
  shows "avail k (pool t) \<and> places ID k t = 0"
  using assms(1)
proof (induction rule: rtranclp_induct)
  case (step u v)
  have "psys_inv held ID u" using assms(2,3) step.hyps(1) by (rule psys_steps_inv)
  with step show ?case by (auto simp: pool_next_def dest: lost_step)
qed (use assms(4,5) in simp)

lemma fold_Add:
  assumes "distinct (map ID xs)" and "\<forall>x \<in> set xs. poolItems p (ID x) = None"
  shows "itemsAvailable (fold (Add ID) xs p) = fold Deliver (map ID xs) (itemsAvailable p)
    \<and> (\<forall>x \<in> set xs. avail (ID x) (fold (Add ID) xs p))
    \<and> (\<forall>k. avail k p \<longrightarrow> avail k (fold (Add ID) xs p))"
  using assms
proof (induction xs arbitrary: p)
  case (Cons x xs)
  have none: "\<forall>y \<in> set xs. poolItems (Add ID x p) (ID y) = None"
    using Cons.prems by (auto simp: Add_def) (metis imageI)
  have a: "itemsAvailable (Add ID x p) = Deliver (ID x) (itemsAvailable p)" "avail (ID x) (Add ID x p)"
    "\<And>k. avail k p \<Longrightarrow> avail k (Add ID x p)"
    using Cons.prems by (auto simp: Add_def avail_def)
  with Cons.IH [OF _ none] Cons.prems(1) show ?case by auto
qed simp

lemma adds_reachable:
  "reachable init (pool_next ops ID) s \<Longrightarrow> reachable init (pool_next ops ID) (s\<lparr>pool := fold (Add ID) xs (pool s)\<rparr>)"
proof (induction xs arbitrary: s)
  case (Cons x xs)
  have "reachable init (pool_next ops ID) (s\<lparr>pool := Add ID x (pool s)\<rparr>)"
    using Cons.prems by (rule reachable_step) (auto simp: pool_next_def intro: step_add)
  from Cons.IH [OF this] show ?case by simp
qed simp

text \<open>
  C22: The bound of the mailbox is a bound of the pool: of 1001 distinct items added before the deliverer
  runs, the first is dropped from the mailbox, and although it stays available no worker ever gets it,
  whatever happens afterwards.
\<close>

theorem overflow_loses_item:
  assumes "semaphore ops n held" and "distinct (map ID (x # xs))" and "length xs = 1000"
    and "s = NewPoolWorker ops n interval"
    and "(pool_next ops ID)\<^sup>*\<^sup>* (s\<lparr>pool := fold (Add ID) (x # xs) (pool s)\<rparr>) t"
  shows "avail (ID x) (pool t) \<and> (\<forall>w \<in> set (workers t). held_by_w ID (ID x) w = 0)"
proof -
  let ?s = "s\<lparr>pool := fold (Add ID) (x # xs) (pool s)\<rparr>"
  have "reachable (pool_init ops n) (pool_next ops ID) s"
    using NewPoolWorker_init unfolding assms(4) by (rule reachable_init)
  from reachable_psys_inv [OF assms(1) adds_reachable [OF this]]
  have inv: "psys_inv held ID ?s" .
  have fresh: "\<forall>y \<in> set (x # xs). poolItems (pool s) (ID y) = None" "mb_ok (itemsAvailable (pool s))"
    "contents (itemsAvailable (pool s)) = []" "mb_limit (itemsAvailable (pool s)) = 1000"
    by (simp_all add: assms(4) NewPoolWorker_def NewPool_def mb_limit_def NewMailbox_def contents_def mb_ok_def)
  note adds = fold_Add [OF assms(2) fresh(1)]
  have "contents (itemsAvailable (pool ?s)) = window 1000 (ID x # map ID xs)"
    using adds mb.deliver_all [OF fresh(2), of "map ID (x # xs)"] fresh(3,4) by simp
  then have "contents (itemsAvailable (pool ?s)) = map ID xs"
    using assms(3) by (simp add: window_def)
  then have "queued (ID x) (pool ?s) = 0"
    unfolding queued_def using assms(2) by (simp add: count_eq_zero_iff del: count_mset_0_iff)
  moreover have "away ID (deliverer ?s) (workers ?s) (ID x) = 0"
    by (simp add: assms(4) NewPoolWorker_def away_def)
  ultimately have "places ID (ID x) ?s = 0" by (simp add: places_def)
  moreover have "avail (ID x) (pool ?s)" using adds by simp
  ultimately have "avail (ID x) (pool t) \<and> places ID (ID x) t = 0"
    using lost_steps [OF assms(5,1) inv] by blast
  then show ?thesis by (simp add: places_def away_def)
qed

theorem overflow_loses_item_witness:
  "avail 0 (pool ((NewPoolWorker (capped 2) 2 1)\<lparr>pool := fold (Add (\<lambda>i. i)) (0 # [1..<1001])
      (pool (NewPoolWorker (capped 2) 2 1))\<rparr>))"
proof -
  have "distinct (map (\<lambda>i. i) (0 # [1..<1001]))" "length [1..<1001] = 1000" by simp_all
  from overflow_loses_item [OF capped_semaphore this refl rtranclp.rtrancl_refl, of 2 1] show ?thesis by blast
qed

section \<open>What the pool counts\<close>

text \<open>
  \<^verbatim>\<open>NumItemsPending\<close> counts every item that is not done, in whatever order the map is iterated. The
  state \<^verbatim>\<open>InUse\<close> is never set, so this includes the items that workers are working on.
\<close>

theorem NumItemsPending_counts_unfinished:
  assumes "semaphore ops n held"
    and "reachable (pool_init ops n) (pool_next ops ID) s"
    and "iterates ks (poolItems (pool s))"
  shows "NumItemsPending ks (pool s)
    = int (card {k. \<exists>e. poolItems (pool s) k = Some e \<and> pi_state e \<noteq> Done})"
proof -
  let ?m = "poolItems (pool s)"
  have use: "pi_state e \<noteq> InUse" if "?m k = Some e" for k e
    using pool_okD(5) [OF psys_invD(1) [OF reachable_psys_inv [OF assms(1,2)]] that] .
  have "fold (\<lambda>k n. case ?m k of None \<Rightarrow> n | Some item \<Rightarrow>
      if pi_state item = Available \<or> pi_state item = InRetryPool then n + 1 else n) js c
    = c + int (length (filter (\<lambda>k. \<exists>e. ?m k = Some e \<and> pi_state e \<noteq> Done) js))" for js c
  proof (induction js arbitrary: c)
    case (Cons j js)
    have "pi_state e = Available \<or> pi_state e = InRetryPool \<longleftrightarrow> pi_state e \<noteq> Done" if "?m j = Some e" for e
      using use [OF that] by (cases "pi_state e") auto
    with Cons show ?case by (auto split: option.splits)
  qed simp
  then have "NumItemsPending ks (pool s) = int (length (filter (\<lambda>k. \<exists>e. ?m k = Some e \<and> pi_state e \<noteq> Done) ks))"
    by (simp add: NumItemsPending_def)
  also have "\<dots> = int (card (set (filter (\<lambda>k. \<exists>e. ?m k = Some e \<and> pi_state e \<noteq> Done) ks)))"
    using assms(3) by (simp add: iterates_def distinct_card del: set_filter)
  also have "set (filter (\<lambda>k. \<exists>e. ?m k = Some e \<and> pi_state e \<noteq> Done) ks)
      = {k. \<exists>e. ?m k = Some e \<and> pi_state e \<noteq> Done}"
    using assms(3) by (auto simp: iterates_def)
  finally show ?thesis .
qed

theorem NumItemsPending_counts_unfinished_witness:
  "NumItemsPending [5] (pool one_added) = int (card {k. \<exists>e. poolItems (pool one_added) k = Some e \<and> pi_state e \<noteq> Done})"
  by (rule NumItemsPending_counts_unfinished [OF capped_semaphore one_added_reachable])
    (simp add: iterates_def one_added_items)

end
