(* ===== verification/Cedar_BufMap.thy ===== *)
theory Cedar_BufMap
  imports Cedar_Prelude
begin

text \<open>
  The hash table of \<^verbatim>\<open>bufs/map.go\<close>: a Go map from 64-bit hashes to entries, with linear probing for
  colliding keys. The hash function \<open>H\<close> (\<^verbatim>\<open>maphash\<close> with a seed chosen at run time) and the entries'
  \<^verbatim>\<open>MapKey()\<close> are arguments; nothing is assumed of either. The probing loop ends only at a free slot or
  at the key, so it is a partial function, and that it returns is proved.
\<close>

section \<open>The operations\<close>

record 'e bufmap =
  hashMap :: "uint64 \<rightharpoonup> 'e"

definition NewBufMap :: "'e bufmap" where
  "NewBufMap = \<lparr>hashMap = Map.empty\<rparr>"

text \<open>The loop of \<^verbatim>\<open>get\<close>; \<open>None\<close> as a whole means that it does not return.\<close>

partial_function (option) probe ::
    "('e \<Rightarrow> bytes) \<Rightarrow> (uint64 \<rightharpoonup> 'e) \<Rightarrow> bytes \<Rightarrow> uint64 \<Rightarrow> ('e option \<times> uint64) option" where
  "probe MapKey m key atHash =
     (case m atHash of
        None \<Rightarrow> Some (None, atHash)
      | Some entry \<Rightarrow>
          if MapKey entry = key then Some (Some entry, atHash)
          else probe MapKey m key (atHash + 1))"

definition get_slot ::
    "(bytes \<Rightarrow> uint64) \<Rightarrow> ('e \<Rightarrow> bytes) \<Rightarrow> bytes \<Rightarrow> 'e bufmap \<Rightarrow> ('e option \<times> uint64) option" where
  "get_slot H MapKey key m = probe MapKey (hashMap m) key (H key)"

definition Get :: "(bytes \<Rightarrow> uint64) \<Rightarrow> ('e \<Rightarrow> bytes) \<Rightarrow> bytes \<Rightarrow> 'e bufmap \<Rightarrow> 'e option option" where
  "Get H MapKey key m =
     (case get_slot H MapKey key m of None \<Rightarrow> None | Some (existing, _) \<Rightarrow> Some existing)"

definition Put ::
    "(bytes \<Rightarrow> uint64) \<Rightarrow> ('e \<Rightarrow> bytes) \<Rightarrow> 'e \<Rightarrow> 'e bufmap \<Rightarrow> ('e option \<times> 'e bufmap) option" where
  "Put H MapKey entry m =
     (case get_slot H MapKey (MapKey entry) m of
        None \<Rightarrow> None
      | Some (existing, atHash) \<Rightarrow> Some (existing, m\<lparr>hashMap := (hashMap m)(atHash \<mapsto> entry)\<rparr>))"

definition Remove ::
    "(bytes \<Rightarrow> uint64) \<Rightarrow> ('e \<Rightarrow> bytes) \<Rightarrow> bytes \<Rightarrow> 'e bufmap \<Rightarrow> ('e option \<times> 'e bufmap) option" where
  "Remove H MapKey key m =
     (case get_slot H MapKey key m of
        None \<Rightarrow> None
      | Some (existing, atHash) \<Rightarrow>
          Some (existing, if existing \<noteq> None then m\<lparr>hashMap := (hashMap m)(atHash := None)\<rparr> else m))"

lemmas bufmap_ops [go_ops] = NewBufMap_def get_slot_def Get_def Put_def Remove_def

section \<open>Where probing stops\<close>

definition stops :: "('e \<Rightarrow> bytes) \<Rightarrow> (uint64 \<rightharpoonup> 'e) \<Rightarrow> bytes \<Rightarrow> uint64 \<Rightarrow> bool" where
  "stops MapKey m key h \<longleftrightarrow> (case m h of None \<Rightarrow> True | Some e \<Rightarrow> MapKey e = key)"

lemma stops_free: "m h = None \<Longrightarrow> stops MapKey m key h"
  and stops_key: "m h = Some e \<Longrightarrow> MapKey e = key \<Longrightarrow> stops MapKey m key h"
  by (simp_all add: stops_def)

lemma probe_stops:
  "stops MapKey m key (h + of_nat n) \<Longrightarrow> \<forall>i < n. \<not> stops MapKey m key (h + of_nat i) \<Longrightarrow>
     probe MapKey m key h = Some (m (h + of_nat n), h + of_nat n)"
proof (induction n arbitrary: h)
  case 0
  then show ?case
    by (subst probe.simps) (auto simp: stops_def split: option.splits)
next
  case (Suc n)
  have "probe MapKey m key h = probe MapKey m key (h + 1)"
    using Suc.prems(2) by (subst probe.simps) (auto simp: stops_def split: option.splits)
  also have "\<dots> = Some (m (h + 1 + of_nat n), h + 1 + of_nat n)"
  proof (rule Suc.IH)
    show "stops MapKey m key (h + 1 + of_nat n)"
      using Suc.prems(1) by (simp add: add.assoc)
    show "\<forall>i<n. \<not> stops MapKey m key (h + 1 + of_nat i)"
    proof (intro allI impI)
      fix i assume "i < n"
      with Suc.prems(2) have "\<not> stops MapKey m key (h + of_nat (Suc i))" by blast
      then show "\<not> stops MapKey m key (h + 1 + of_nat i)" by (simp add: add.assoc)
    qed
  qed
  finally show ?case by (simp add: add.assoc)
qed

lemma probe_result:
  assumes "probe MapKey m key h = Some r"
  shows "snd r = h + of_nat (unat (snd r - h)) \<and> fst r = m (snd r) \<and> stops MapKey m key (snd r)"
proof -
  have "fst r = m (snd r) \<and> stops MapKey m key (snd r)"
    by (rule probe.raw_induct [OF _ assms, where P = "\<lambda>MapKey m key h r. fst r = m (snd r) \<and> stops MapKey m key (snd r)"])
      (auto simp: stops_free stops_key split: option.splits if_splits)
  then show ?thesis by simp
qed

lemma probe_returns:
  assumes "m f = None"
  shows "\<exists>n. probe MapKey m key h = Some (m (h + of_nat n), h + of_nat n)
    \<and> stops MapKey m key (h + of_nat n) \<and> (\<forall>i < n. \<not> stops MapKey m key (h + of_nat i))"
proof -
  let ?S = "\<lambda>n. stops MapKey m key (h + of_nat n)"
  have "h + of_nat (unat (f - h)) = f" by simp
  then have ex: "\<exists>n. ?S n"
    using assms by (intro exI [of _ "unat (f - h)"]) (simp add: stops_def)
  have "?S (LEAST n. ?S n)" "\<forall>i < (LEAST n. ?S n). \<not> ?S i"
    using LeastI_ex [OF ex] not_less_Least [of _ ?S] by blast+
  then show ?thesis using probe_stops by blast
qed

section \<open>The invariant\<close>

text \<open>Every entry lies on the probe sequence of its key, before a free slot and before any other entry of its key.\<close>

definition chained :: "(bytes \<Rightarrow> uint64) \<Rightarrow> ('e \<Rightarrow> bytes) \<Rightarrow> (uint64 \<rightharpoonup> 'e) \<Rightarrow> bool" where
  [go_inv]: "chained H MapKey m \<longleftrightarrow>
     (\<forall>h e. m h = Some e \<longrightarrow>
        (\<exists>n. h = H (MapKey e) + of_nat n \<and> (\<forall>i < n. \<not> stops MapKey m (MapKey e) (H (MapKey e) + of_nat i))))"

lemma chained_probe:
  assumes "chained H MapKey m" and "m h = Some e"
  shows "probe MapKey m (MapKey e) (H (MapKey e)) = Some (Some e, h)"
proof -
  from assms obtain n where n: "h = H (MapKey e) + of_nat n"
    "\<forall>i < n. \<not> stops MapKey m (MapKey e) (H (MapKey e) + of_nat i)"
    unfolding chained_def by blast
  have "stops MapKey m (MapKey e) (H (MapKey e) + of_nat n)"
    using assms(2) n(1) by (simp add: stops_def)
  from probe_stops [OF this n(2)] assms(2) n(1) show ?thesis by simp
qed

lemma chained_unique:
  assumes "chained H MapKey m" and "m h = Some e" and "m h' = Some e'" and "MapKey e = MapKey e'"
  shows "h = h' \<and> e = e'"
  using chained_probe [OF assms(1,2), unfolded assms(4)] chained_probe [OF assms(1,3)] by simp

lemma chained_update:
  assumes ch: "chained H MapKey m" and pr: "probe MapKey m (MapKey e) (H (MapKey e)) = Some (x, h)"
    and n: "h = H (MapKey e) + of_nat n" "\<forall>i < n. \<not> stops MapKey m (MapKey e) (H (MapKey e) + of_nat i)"
  shows "chained H MapKey (m(h \<mapsto> e))"
  unfolding chained_def
proof (intro allI impI)
  have st: "stops MapKey m (MapKey e) h" and x: "x = m h"
    using probe_result [OF pr] by auto
  have keep: "\<not> stops MapKey (m(h \<mapsto> e)) k j" if "\<not> stops MapKey m k j" "j = h \<Longrightarrow> MapKey e \<noteq> k" for k j
    using that by (auto simp: stops_def)
  fix h' e' assume he: "(m(h \<mapsto> e)) h' = Some e'"
  show "\<exists>n. h' = H (MapKey e') + of_nat n \<and>
      (\<forall>i<n. \<not> stops MapKey (m(h \<mapsto> e)) (MapKey e') (H (MapKey e') + of_nat i))"
  proof (cases "h' = h")
    case True
    with he have [simp]: "e' = e" by simp
    have "\<not> stops MapKey (m(h \<mapsto> e)) (MapKey e) (H (MapKey e) + of_nat i)" if "i < n" for i
    proof (rule keep)
      show ns: "\<not> stops MapKey m (MapKey e) (H (MapKey e) + of_nat i)" using n(2) that by blast
      assume "H (MapKey e) + of_nat i = h"
      with ns st show "MapKey e \<noteq> MapKey e" by simp
    qed
    with n(1) True show ?thesis by auto
  next
    case False
    with he have m': "m h' = Some e'" by simp
    then obtain n' where n': "h' = H (MapKey e') + of_nat n'"
      "\<forall>i < n'. \<not> stops MapKey m (MapKey e') (H (MapKey e') + of_nat i)"
      using ch unfolding chained_def by blast
    have "MapKey e \<noteq> MapKey e'"
      using chained_probe [OF ch m'] pr False by auto
    then have "\<forall>i < n'. \<not> stops MapKey (m(h \<mapsto> e)) (MapKey e') (H (MapKey e') + of_nat i)"
      using n'(2) keep by blast
    with n'(1) show ?thesis by blast
  qed
qed


section \<open>The interface of a store with keys\<close>

datatype 'e store_op = Store_put 'e | Store_get bytes

fun store_run ::
    "('e \<Rightarrow> 'm \<Rightarrow> ('e option \<times> 'm) option) \<Rightarrow> (bytes \<Rightarrow> 'm \<Rightarrow> 'e option option)
      \<Rightarrow> 'e store_op list \<Rightarrow> 'm \<Rightarrow> 'e option list option" where
  "store_run put get [] m = Some []"
| "store_run put get (Store_put e # ops) m =
     (case put e m of None \<Rightarrow> None | Some (r, m') \<Rightarrow> map_option ((#) r) (store_run put get ops m'))"
| "store_run put get (Store_get k # ops) m =
     (case get k m of None \<Rightarrow> None | Some r \<Rightarrow> map_option ((#) r) (store_run put get ops m))"

text \<open>The specification: a map, whose answers to the same operations cannot fail.\<close>

fun map_run :: "('e \<Rightarrow> bytes) \<Rightarrow> 'e store_op list \<Rightarrow> (bytes \<rightharpoonup> 'e) \<Rightarrow> 'e option list" where
  "map_run key [] a = []"
| "map_run key (Store_put e # ops) a = a (key e) # map_run key ops (a(key e \<mapsto> e))"
| "map_run key (Store_get k # ops) a = a k # map_run key ops a"

locale keyed_store =
  fixes put :: "'e \<Rightarrow> 'm \<Rightarrow> ('e option \<times> 'm) option"
    and get :: "bytes \<Rightarrow> 'm \<Rightarrow> 'e option option"
    and look :: "'m \<Rightarrow> bytes \<Rightarrow> 'e option"
    and key :: "'e \<Rightarrow> bytes"
    and ok :: "'m \<Rightarrow> bool"
    and free :: "'m \<Rightarrow> nat"
  assumes get_look: "ok m \<Longrightarrow> 0 < free m \<Longrightarrow> get k m = Some (look m k)"
    and put_look: "ok m \<Longrightarrow> 0 < free m \<Longrightarrow>
      \<exists>m'. put e m = Some (look m (key e), m') \<and> ok m' \<and> look m' = (look m)(key e \<mapsto> e) \<and> free m \<le> free m' + 1"
begin

lemma run_refines:
  "ok m \<Longrightarrow> length ops \<le> free m \<Longrightarrow> store_run put get ops m = Some (map_run key ops (look m))"
proof (induction ops arbitrary: m)
  case (Cons x ops)
  show ?case
  proof (cases x)
    case (Store_put e)
    from put_look [of m e] Cons.prems obtain m' where
      "put e m = Some (look m (key e), m')" "ok m'" "look m' = (look m)(key e \<mapsto> e)" "free m \<le> free m' + 1"
      by auto
    with Cons.IH [of m'] Cons.prems Store_put show ?thesis by (simp add: fun_upd_def)
  next
    case (Store_get k)
    with Cons get_look [of m k] show ?thesis by simp
  qed
qed simp

end

section \<open>The hash table is such a store\<close>

definition look :: "(bytes \<Rightarrow> uint64) \<Rightarrow> ('e \<Rightarrow> bytes) \<Rightarrow> 'e bufmap \<Rightarrow> bytes \<Rightarrow> 'e option" where
  "look H MapKey m key = (case Get H MapKey key m of None \<Rightarrow> None | Some r \<Rightarrow> r)"

definition free_slots :: "'e bufmap \<Rightarrow> nat" where
  "free_slots m = card {h. hashMap m h = None}"

lemma look_iff:
  assumes "chained H MapKey (hashMap m)"
  shows "look H MapKey m k = Some e \<longleftrightarrow> (\<exists>h. hashMap m h = Some e \<and> MapKey e = k)"
proof
  assume "look H MapKey m k = Some e"
  then obtain h where "probe MapKey (hashMap m) k (H k) = Some (Some e, h)"
    by (auto simp: look_def Get_def get_slot_def split: option.splits)
  from probe_result [OF this] show "\<exists>h. hashMap m h = Some e \<and> MapKey e = k"
    by (auto simp: stops_def split: option.splits)
next
  assume "\<exists>h. hashMap m h = Some e \<and> MapKey e = k"
  then obtain h where "hashMap m h = Some e" "MapKey e = k" by blast
  with chained_probe [OF assms, of h e] show "look H MapKey m k = Some e"
    by (simp add: look_def Get_def get_slot_def)
qed

lemma free_slots_probe:
  assumes "0 < free_slots m"
  shows "\<exists>n. probe MapKey (hashMap m) k h = Some (hashMap m (h + of_nat n), h + of_nat n)
    \<and> (\<forall>i < n. \<not> stops MapKey (hashMap m) k (h + of_nat i))"
proof -
  from assms obtain f where "hashMap m f = None"
    by (auto simp: free_slots_def card_gt_0_iff)
  from probe_returns [where m = "hashMap m", OF this] show ?thesis by blast
qed

lemma Get_look:
  assumes "0 < free_slots m"
  shows "Get H MapKey k m = Some (look H MapKey m k)"
  using free_slots_probe [OF assms, of MapKey k "H k"] by (auto simp: look_def Get_def get_slot_def)

lemma free_slots_put: "hashMap m' = (hashMap m)(h \<mapsto> e) \<Longrightarrow> free_slots m \<le> free_slots m' + 1"
proof -
  assume "hashMap m' = (hashMap m)(h \<mapsto> e)"
  then have "{h. hashMap m h = None} \<subseteq> insert h {h. hashMap m' h = None}" by auto
  then have "card {h. hashMap m h = None} \<le> card (insert h {h. hashMap m' h = None})"
    by (intro card_mono) auto
  also have "\<dots> \<le> Suc (card {h. hashMap m' h = None})" by (rule card_insert_le_m1) auto
  finally show ?thesis by (simp add: free_slots_def)
qed

lemma Put_look:
  assumes ok: "chained H MapKey (hashMap m)" and "0 < free_slots m"
  shows "\<exists>m'. Put H MapKey e m = Some (look H MapKey m (MapKey e), m') \<and> chained H MapKey (hashMap m')
    \<and> look H MapKey m' = (look H MapKey m)(MapKey e \<mapsto> e) \<and> free_slots m \<le> free_slots m' + 1"
proof -
  from free_slots_probe [OF assms(2), of MapKey "MapKey e" "H (MapKey e)"] obtain n h where
    n: "h = H (MapKey e) + of_nat n" "\<forall>i < n. \<not> stops MapKey (hashMap m) (MapKey e) (H (MapKey e) + of_nat i)"
    and pr: "probe MapKey (hashMap m) (MapKey e) (H (MapKey e)) = Some (hashMap m h, h)" by blast
  let ?m = "m\<lparr>hashMap := (hashMap m)(h \<mapsto> e)\<rparr>"
  have ok': "chained H MapKey (hashMap ?m)"
    using chained_update [OF ok pr n] by simp
  have put: "Put H MapKey e m = Some (look H MapKey m (MapKey e), ?m)"
    using pr by (simp add: Put_def look_def Get_def get_slot_def)
  have "stops MapKey (hashMap m) (MapKey e) h"
    using probe_result [OF pr] by simp
  then have old: "hashMap m h = Some e' \<Longrightarrow> MapKey e' = MapKey e" for e'
    by (simp add: stops_def)
  have "look H MapKey ?m k = Some x \<longleftrightarrow> ((look H MapKey m)(MapKey e \<mapsto> e)) k = Some x" for k x
  proof (cases "k = MapKey e")
    case True
    have "look H MapKey ?m k = Some e"
      using True unfolding look_iff [OF ok'] by auto
    with True show ?thesis by simp
  next
    case False
    then have "hashMap ?m j = Some x \<and> MapKey x = k \<longleftrightarrow> hashMap m j = Some x \<and> MapKey x = k" for j
      using old by (cases "j = h") auto
    with False show ?thesis
      by (simp only: look_iff [OF ok'] look_iff [OF ok] fun_upd_apply if_False)
  qed
  then have "look H MapKey ?m = (look H MapKey m)(MapKey e \<mapsto> e)"
    by (intro ext option_eqI)
  with put ok' free_slots_put [of ?m m h e] show ?thesis by auto
qed

interpretation bm: keyed_store "Put H MapKey" "Get H MapKey" "look H MapKey" MapKey
    "\<lambda>m. chained H MapKey (hashMap m)" free_slots
  for H :: "bytes \<Rightarrow> uint64" and MapKey :: "'e \<Rightarrow> bytes"
  by unfold_locales (rule Get_look, assumption, rule Put_look)

lemma NewBufMap_fresh:
  "chained H MapKey (hashMap NewBufMap)" "look H MapKey NewBufMap = Map.empty"
proof -
  show ch: "chained H MapKey (hashMap NewBufMap)" by (simp add: chained_def NewBufMap_def)
  have "look H MapKey NewBufMap k = None" for k
    using look_iff [OF ch, of k] by (cases "look H MapKey NewBufMap k") (auto simp: NewBufMap_def)
  then show "look H MapKey NewBufMap = Map.empty" by auto
qed

lemma NewBufMap_free: "free_slots (NewBufMap :: 'e bufmap) = 2 ^ 64"
  by (simp add: free_slots_def NewBufMap_def card_word)

text \<open>
  C8: For every hash function, colliding or not, any sequence of up to 2^64 calls of \<^verbatim>\<open>Put\<close> and
  \<^verbatim>\<open>Get\<close> on a new map returns, and returns what a map from keys to entries would: \<^verbatim>\<open>Put\<close> the entry it
  replaces, \<^verbatim>\<open>Get\<close> the entry put last with that key.
\<close>

theorem bufmap_refines_map:
  fixes MapKey :: "'e \<Rightarrow> bytes"
  assumes "length ops \<le> 2 ^ 64"
  shows "store_run (Put H MapKey) (Get H MapKey) ops NewBufMap = Some (map_run MapKey ops Map.empty)"
  using bm.run_refines [where H = H and MapKey = MapKey and m = NewBufMap and ops = ops] assms
    NewBufMap_fresh [of H MapKey] NewBufMap_free [where 'e = 'e]
  by simp

theorem bufmap_refines_map_witness:
  "store_run (Put (\<lambda>_. 7) fst) (Get (\<lambda>_. 7) fst)
     [Store_put ([1], 10), Store_put ([2], 20), Store_put ([1], 11), Store_get [1], Store_get [2], Store_get [3]]
     NewBufMap = Some [None, None, Some ([1], 10), Some ([1], 11), Some ([2], 20 :: int), None]"
  by (subst bufmap_refines_map) simp_all


section \<open>Removing\<close>

lemma chained_remove:
  assumes ch: "chained H MapKey m" and next_free: "m (h + 1) = None"
  shows "chained H MapKey (m(h := None))"
  unfolding chained_def
proof (intro allI impI)
  fix h' e assume "(m(h := None)) h' = Some e"
  then have m': "m h' = Some e" "h' \<noteq> h" by (auto split: if_splits)
  then obtain n where n: "h' = H (MapKey e) + of_nat n"
    "\<forall>i < n. \<not> stops MapKey m (MapKey e) (H (MapKey e) + of_nat i)"
    using ch unfolding chained_def by blast
  have "\<not> stops MapKey (m(h := None)) (MapKey e) (H (MapKey e) + of_nat i)" if i: "i < n" for i
  proof -
    have "H (MapKey e) + of_nat i \<noteq> h"
    proof
      assume "H (MapKey e) + of_nat i = h"
      then have "m (H (MapKey e) + of_nat (Suc i)) = None"
        using next_free by (simp add: ac_simps)
      then have "stops MapKey m (MapKey e) (H (MapKey e) + of_nat (Suc i))" by (rule stops_free)
      with n(2) i have "Suc i = n" using Suc_lessI by blast
      with n(1) m'(1) \<open>m (H (MapKey e) + of_nat (Suc i)) = None\<close> show False by simp
    qed
    with n(2) i show ?thesis by (simp add: stops_def)
  qed
  with n(1) show "\<exists>n. h' = H (MapKey e) + of_nat n \<and>
      (\<forall>i<n. \<not> stops MapKey (m(h := None)) (MapKey e) (H (MapKey e) + of_nat i))" by blast
qed

text \<open>
  \<^verbatim>\<open>Remove\<close> of an absent key changes nothing, and of a key at the end of its chain (the next slot is free)
  removes exactly that key and returns its entry; both keep the table's invariant.
\<close>

theorem Remove_at_chain_end:
  assumes "chained H MapKey (hashMap m)" and "0 < free_slots m"
    and "\<And>h e. hashMap m h = Some e \<Longrightarrow> MapKey e = k \<Longrightarrow> hashMap m (h + 1) = None"
  shows "\<exists>m'. Remove H MapKey k m = Some (look H MapKey m k, m') \<and> chained H MapKey (hashMap m')
    \<and> (\<forall>j. Get H MapKey j m' = Some (if j = k then None else look H MapKey m j))"
proof (cases "look H MapKey m k")
  case None
  then have "Remove H MapKey k m = Some (None, m)"
    using Get_look [OF assms(2), of H MapKey k] by (auto simp: Remove_def Get_def split: option.splits)
  with None assms(1) Get_look [OF assms(2), of H MapKey] show ?thesis by auto
next
  case (Some e)
  with look_iff [OF assms(1)] obtain h where h: "hashMap m h = Some e" "MapKey e = k" by blast
  let ?m = "m\<lparr>hashMap := (hashMap m)(h := None)\<rparr>"
  have rem: "Remove H MapKey k m = Some (Some e, ?m)"
    using chained_probe [OF assms(1) h(1)] h(2) by (simp add: Remove_def get_slot_def)
  have ch: "chained H MapKey (hashMap ?m)"
    using chained_remove [OF assms(1) assms(3) [OF h]] by simp
  have "{h. hashMap m h = None} \<subseteq> {h. hashMap ?m h = None}" by auto
  then have "free_slots m \<le> free_slots ?m"
    unfolding free_slots_def by (intro card_mono) auto
  then have get: "Get H MapKey j ?m = Some (look H MapKey ?m j)" for j
    using assms(2) by (intro Get_look) simp
  have "look H MapKey ?m j = Some x \<longleftrightarrow> (if j = k then None else look H MapKey m j) = Some x" for j x
  proof -
    have "hashMap ?m i = Some x \<and> MapKey x = j \<longleftrightarrow> j \<noteq> k \<and> hashMap m i = Some x \<and> MapKey x = j" for i
    proof (cases "i = h")
      case True
      with h show ?thesis by auto
    next
      case False
      then have "hashMap m i = Some x \<Longrightarrow> MapKey x \<noteq> k"
        using chained_unique [OF assms(1) h(1), of i x] h(2) by blast
      with False show ?thesis by auto
    qed
    then have "look H MapKey ?m j = Some x \<longleftrightarrow> j \<noteq> k \<and> look H MapKey m j = Some x"
      unfolding look_iff [OF ch] look_iff [OF assms(1)] by blast
    then show ?thesis by simp
  qed
  then have "look H MapKey ?m j = (if j = k then None else look H MapKey m j)" for j
    by (intro option_eqI)
  with rem ch get Some show ?thesis by auto
qed

theorem Remove_at_chain_end_witness:
  "\<exists>m'. Remove (\<lambda>_. 7) fst [1] \<lparr>hashMap = [7 \<mapsto> ([1], 10 :: int)]\<rparr>
      = Some (look (\<lambda>_. 7) fst \<lparr>hashMap = [7 \<mapsto> ([1], 10)]\<rparr> [1], m')"
proof -
  let ?m = "\<lparr>hashMap = [7 \<mapsto> ([1], 10 :: int)]\<rparr> :: (bytes \<times> int) bufmap"
  have "chained (\<lambda>_. 7) fst (hashMap ?m)"
    by (auto simp: chained_def intro!: exI [of _ 0] split: if_splits)
  moreover have "0 < free_slots ?m"
  proof -
    have "8 \<in> {h. hashMap ?m h = None}" by simp
    then show ?thesis unfolding free_slots_def by (intro card_gt_0_iff [THEN iffD2] conjI finite) blast
  qed
  moreover have "hashMap ?m h = Some e \<Longrightarrow> fst e = [1] \<Longrightarrow> hashMap ?m (h + 1) = None" for h e
    by (auto split: if_splits)
  ultimately show ?thesis
    using Remove_at_chain_end [of "\<lambda>_. 7" fst ?m "[1]"] by blast
qed

text \<open>
  C23: \<^verbatim>\<open>Remove\<close> breaks the chains that go through the freed slot. Of two colliding entries \<open>a\<close> and \<open>b\<close>, removing
  \<open>a\<close> makes \<open>b\<close> unreachable although it was never removed; putting \<open>b\<close> again reports that nothing was replaced,
  and after it has been removed and \<open>a\<close> put back, the stale entry of \<open>b\<close> reappears.
\<close>

theorem Remove_breaks_chain:
  assumes "H (MapKey a) = H (MapKey b)" and "MapKey a \<noteq> MapKey b"
  shows "\<exists>m1 m2 m3 m4 m5 m6.
    Put H MapKey a NewBufMap = Some (None, m1) \<and> Put H MapKey b m1 = Some (None, m2)
    \<and> Get H MapKey (MapKey b) m2 = Some (Some b)
    \<and> Remove H MapKey (MapKey a) m2 = Some (Some a, m3) \<and> Get H MapKey (MapKey b) m3 = Some None
    \<and> Put H MapKey b m3 = Some (None, m4) \<and> Remove H MapKey (MapKey b) m4 = Some (Some b, m5)
    \<and> Put H MapKey a m5 = Some (None, m6) \<and> Get H MapKey (MapKey b) m6 = Some (Some b)"
  using assms by (simp add: bufmap_ops probe.simps)

theorem Remove_breaks_chain_witness:
  "\<exists>m1 m2 m3. Put (\<lambda>_. 7) (\<lambda>k. k) [1] NewBufMap = Some (None, m1) \<and> Put (\<lambda>_. 7) (\<lambda>k. k) [2] m1 = Some (None, m2)
    \<and> Remove (\<lambda>_. 7) (\<lambda>k. k) [1] m2 = Some (Some [1], m3) \<and> Get (\<lambda>_. 7) (\<lambda>k. k) [2] m3 = Some None"
  using Remove_breaks_chain [of "\<lambda>_. 7" "\<lambda>k. k" "[1]" "[2]"] by auto

end
