(* ===== verification/Cedar_Encoding.thy ===== *)
theory Cedar_Encoding
  imports Cedar_Prelude
begin

text \<open>
  The text encodings of \<^verbatim>\<open>bufs/encoding.go\<close>: hexadecimal with a \<^verbatim>\<open>0x\<close> prefix (\<^verbatim>\<open>Bytes\<close>), base 32 with the
  geohash alphabet, and what they use of Go's \<^verbatim>\<open>encoding/hex\<close> and \<^verbatim>\<open>encoding/base32\<close>. Texts are byte lists.
\<close>

unbundle bit_operations_syntax

section \<open>The interface of a text encoding\<close>

locale text_codec =
  fixes encode :: "bytes \<Rightarrow> bytes"
    and decode :: "bytes \<Rightarrow> bytes option"
    and alphabet :: "byte set"
  assumes decode_encode: "decode (encode xs) = Some xs"
    and encode_alphabet: "set (encode xs) \<subseteq> alphabet"
begin

lemma encode_inject: "encode xs = encode ys \<longleftrightarrow> xs = ys"
  by (metis decode_encode option.inject)

end

text \<open>A character as the byte Go compares it with.\<close>

definition byte_of :: "char \<Rightarrow> byte" where
  "byte_of c = of_nat (of_char c)"

definition text_of :: "string \<Rightarrow> bytes" where
  "text_of s = map byte_of s"

section \<open>Hexadecimal\<close>

definition hextable :: bytes where
  "hextable = text_of ''0123456789abcdef''"

definition hex_encode :: "bytes \<Rightarrow> bytes" where
  "hex_encode xs = concat (map (\<lambda>b. [hextable ! unat (drop_bit 4 b), hextable ! unat (b AND 0x0F)]) xs)"

definition from_hex_char :: "byte \<Rightarrow> byte option" where
  "from_hex_char c =
     (if byte_of CHR ''0'' \<le> c \<and> c \<le> byte_of CHR ''9'' then Some (c - byte_of CHR ''0'')
      else if byte_of CHR ''a'' \<le> c \<and> c \<le> byte_of CHR ''f'' then Some (c - byte_of CHR ''a'' + 10)
      else if byte_of CHR ''A'' \<le> c \<and> c \<le> byte_of CHR ''F'' then Some (c - byte_of CHR ''A'' + 10)
      else None)"

text \<open>
  The errors of \<^verbatim>\<open>hex.Decode\<close>, those of \<^verbatim>\<open>encoding/json\<close>, and the package's own \<^verbatim>\<open>encodingErr\<close>.
\<close>

datatype enc_error =
  InvalidByteError byte | ErrLength | EncodingErr string | UnmarshalTypeError string

fun hex_decode :: "bytes \<Rightarrow> enc_error + bytes" where
  "hex_decode [] = Inr []"
| "hex_decode [a] = (case from_hex_char a of None \<Rightarrow> Inl (InvalidByteError a) | Some _ \<Rightarrow> Inl ErrLength)"
| "hex_decode (a # b # xs) =
     (case from_hex_char a of
        None \<Rightarrow> Inl (InvalidByteError a)
      | Some h \<Rightarrow>
          (case from_hex_char b of
             None \<Rightarrow> Inl (InvalidByteError b)
           | Some l \<Rightarrow>
               (case hex_decode xs of
                  Inl e \<Rightarrow> Inl e
                | Inr ys \<Rightarrow> Inr ((push_bit 4 h OR l) # ys))))"

definition MarshalText :: "bytes \<Rightarrow> bytes" where
  "MarshalText b = text_of ''0x'' @ hex_encode b"

text \<open>\<^verbatim>\<open>Bytes.String\<close>.\<close>

definition Bytes_String :: "bytes \<Rightarrow> bytes" where
  "Bytes_String b = text_of ''0x'' @ hex_encode b"

definition isString :: "bytes \<Rightarrow> bool" where
  "isString input \<longleftrightarrow>
     length input \<ge> 2 \<and> input ! 0 = byte_of CHR 0x22 \<and> input ! (length input - 1) = byte_of CHR 0x22"

text \<open>\<^verbatim>\<open>ErrSyntax\<close>, which nothing returns, and the text of an \<^verbatim>\<open>encodingErr\<close>.\<close>

definition ErrSyntax :: enc_error where
  "ErrSyntax = EncodingErr ''invalid hex string''"

definition encodingErr_Error :: "enc_error \<Rightarrow> string option" where
  "encodingErr_Error err = (case err of EncodingErr msg \<Rightarrow> Some msg | _ \<Rightarrow> None)"

definition wrapTypeError :: "enc_error + 'a \<Rightarrow> enc_error + 'a" where
  "wrapTypeError r = (case r of Inl (EncodingErr msg) \<Rightarrow> Inl (UnmarshalTypeError msg) | _ \<Rightarrow> r)"

definition errNonString :: enc_error where
  "errNonString = UnmarshalTypeError ''non-string''"

definition checkText :: "bytes \<Rightarrow> enc_error + bytes" where
  "checkText ins =
     (let N = length ins
      in if N = 0 then Inr []
         else if N \<ge> 2 \<and> ins ! 0 = byte_of CHR ''0'' \<and> (ins ! 1 = byte_of CHR ''x'' \<or> ins ! 1 = byte_of CHR ''X'')
         then Inr (drop 2 ins)
         else Inr ins)"

text \<open>\<open>Inl\<close> is the returned error, with the receiver unchanged; \<open>Inr\<close> the receiver's new value.\<close>

definition UnmarshalText :: "bytes \<Rightarrow> enc_error + bytes" where
  "UnmarshalText input = (case checkText input of Inl e \<Rightarrow> Inl e | Inr raw \<Rightarrow> hex_decode raw)"

definition UnmarshalJSON :: "bytes \<Rightarrow> enc_error + bytes" where
  "UnmarshalJSON ins =
     (if \<not> isString ins then Inl errNonString
      else wrapTypeError (UnmarshalText (take (length ins - 2) (drop 1 ins))))"

lemmas hex_ops [go_ops] =
  MarshalText_def Bytes_String_def isString_def wrapTypeError_def errNonString_def checkText_def
  UnmarshalText_def UnmarshalJSON_def

lemma unat_byte: "unat (b :: byte) < 256"
proof -
  have "unat b < 2 ^ LENGTH(8)" by (rule unsigned_less)
  then show ?thesis by simp
qed

lemma unat_drop_byte: "unat (drop_bit 4 (b :: byte)) < 16"
proof -
  have "unat (drop_bit 4 b) = unat b div 16" unfolding unat_drop_bit_eq by (simp add: drop_bit_eq_div)
  with unat_byte [of b] show ?thesis by linarith
qed

lemma unat_low_byte: "unat ((b :: byte) AND 0x0F) < 16"
proof -
  have "b AND 0x0F = take_bit 4 b" by (simp add: take_bit_eq_mask mask_eq_exp_minus_1)
  then show ?thesis
    by (simp add: unsigned_take_bit_eq) (simp add: take_bit_eq_mod)
qed

lemma hextable_chars: "i < 16 \<Longrightarrow> from_hex_char (hextable ! i) = Some (word_of_nat i)"
proof -
  have "list_all (\<lambda>i. from_hex_char (hextable ! i) = Some (word_of_nat i)) [0..<16]" by code_simp
  moreover assume "i < 16"
  ultimately show ?thesis by (simp add: list_all_iff del: upt_Suc)
qed

lemma join_nibbles: "push_bit 4 (drop_bit 4 b) OR (b AND 0x0F) = (b :: byte)"
proof -
  have "b AND 0x0F = take_bit 4 b" by (simp add: take_bit_eq_mask mask_eq_exp_minus_1)
  then show ?thesis by (auto intro!: bit_eqI simp: bit_simps)
qed

lemma hex_nibbles:
  "from_hex_char (hextable ! unat (drop_bit 4 b)) = Some (drop_bit 4 b)
    \<and> from_hex_char (hextable ! unat (b AND 0x0F)) = Some (b AND 0x0F)"
  using hextable_chars [OF unat_drop_byte [of b]] hextable_chars [OF unat_low_byte [of b]]
  by simp

lemma hex_decode_encode: "hex_decode (hex_encode xs) = Inr xs"
proof (induction xs)
  case (Cons b xs)
  with hex_nibbles [of b] join_nibbles [of b] show ?case by (simp add: hex_encode_def)
qed (simp add: hex_encode_def)


section \<open>Hexadecimal: properties\<close>

fun hex_value :: "enc_error + bytes \<Rightarrow> bytes option" where
  "hex_value (Inl _) = None"
| "hex_value (Inr b) = Some b"

lemma checkText_prefix: "checkText (text_of ''0x'' @ t) = Inr t"
  by (simp add: checkText_def text_of_def byte_of_def)

lemma UnmarshalText_MarshalText: "UnmarshalText (MarshalText b) = Inr b"
  by (simp add: UnmarshalText_def MarshalText_def checkText_prefix hex_decode_encode)

lemma set_hex_encode: "set (hex_encode xs) \<subseteq> set hextable"
proof -
  have "length hextable = 16" by code_simp
  then show ?thesis
    by (auto simp: hex_encode_def intro!: nth_mem unat_drop_byte unat_low_byte)
qed

interpretation hex: text_codec MarshalText "\<lambda>t. hex_value (UnmarshalText t)" "insert (byte_of CHR ''x'') (set hextable)"
proof
  fix xs :: bytes
  show "hex_value (UnmarshalText (MarshalText xs)) = Some xs"
    by (simp add: UnmarshalText_MarshalText)
  have "byte_of CHR ''0'' \<in> set hextable" by code_simp
  then show "set (MarshalText xs) \<subseteq> insert (byte_of CHR ''x'') (set hextable)"
    using set_hex_encode [of xs] by (auto simp: MarshalText_def text_of_def)
qed

text \<open>
  C24: \<^verbatim>\<open>MarshalText\<close> and \<^verbatim>\<open>UnmarshalText\<close> are inverse, also inside a JSON string, and the text is twice as long as
  the bytes plus two; so different bytes have different texts.
\<close>

theorem hex_text_roundtrip:
  "UnmarshalText (MarshalText b) = Inr b
    \<and> UnmarshalJSON (byte_of CHR 0x22 # MarshalText b @ [byte_of CHR 0x22]) = Inr b
    \<and> length (MarshalText b) = 2 * length b + 2
    \<and> (MarshalText b = MarshalText c \<longleftrightarrow> b = c)"
proof -
  have "length (hex_encode b) = 2 * length b"
    by (induction b) (simp_all add: hex_encode_def)
  then have "length (MarshalText b) = 2 * length b + 2"
    by (simp add: MarshalText_def text_of_def)
  moreover have "UnmarshalJSON (byte_of CHR 0x22 # MarshalText b @ [byte_of CHR 0x22]) = Inr b"
    using UnmarshalText_MarshalText [of b]
    by (simp add: UnmarshalJSON_def isString_def wrapTypeError_def nth_append)
  ultimately show ?thesis
    using UnmarshalText_MarshalText [of b] hex.encode_inject [of b c] by simp
qed

definition hex_digit :: "byte \<Rightarrow> bool" where
  "hex_digit c \<longleftrightarrow> from_hex_char c \<noteq> None"

lemma hex_decode_ok: "(\<exists>b. hex_decode t = Inr b) \<longleftrightarrow> even (length t) \<and> list_all hex_digit t"
  by (induction t rule: induct_list012) (auto simp: hex_digit_def split: option.splits sum.splits)

lemma hex_decode_error: "hex_decode t = Inl e \<Longrightarrow> e = ErrLength \<or> (\<exists>c. e = InvalidByteError c \<and> c \<in> set t \<and> \<not> hex_digit c)"
  by (induction t rule: induct_list012) (auto simp: hex_digit_def split: option.splits sum.splits)

text \<open>
  A JSON value is accepted exactly if it is a string of an even number of hexadecimal digits, upper or lower case, with
  or without the prefix. A string that is refused for its digits or its length gives the bare error of \<^verbatim>\<open>encoding/hex\<close>:
  only a value that is no string gives the \<^verbatim>\<open>json.UnmarshalTypeError\<close> that \<^verbatim>\<open>wrapTypeError\<close> is there to make.
\<close>

theorem UnmarshalJSON_accepts:
  assumes "checkText (take (length t - 2) (drop 1 t)) = Inr raw"
  shows "((\<exists>b. UnmarshalJSON t = Inr b) \<longleftrightarrow> isString t \<and> even (length raw) \<and> list_all hex_digit raw)
    \<and> (UnmarshalJSON t = Inl e \<longrightarrow>
        (if isString t then e = ErrLength \<or> (\<exists>c \<in> set raw. e = InvalidByteError c \<and> \<not> hex_digit c)
         else e = UnmarshalTypeError ''non-string''))"
proof (cases "isString t")
  case True
  then have "UnmarshalJSON t = wrapTypeError (hex_decode raw)"
    using assms by (simp add: UnmarshalJSON_def UnmarshalText_def)
  moreover have "wrapTypeError (hex_decode raw) = hex_decode raw"
    using hex_decode_error [of raw] by (auto simp: wrapTypeError_def split: sum.splits enc_error.splits)
  ultimately show ?thesis
    using True hex_decode_ok [of raw] hex_decode_error [of raw e] by auto
qed (simp add: UnmarshalJSON_def errNonString_def)

theorem UnmarshalJSON_accepts_witness:
  "(\<exists>b. UnmarshalJSON (byte_of CHR 0x22 # text_of ''0Xa5F'' @ [byte_of CHR 0x22]) = Inr b)
    \<longleftrightarrow> isString (byte_of CHR 0x22 # text_of ''0Xa5F'' @ [byte_of CHR 0x22]) \<and> even (length (text_of ''a5F''))
        \<and> list_all hex_digit (text_of ''a5F'')"
proof -
  have "checkText (take (length (byte_of CHR 0x22 # text_of ''0Xa5F'' @ [byte_of CHR 0x22]) - 2)
      (drop 1 (byte_of CHR 0x22 # text_of ''0Xa5F'' @ [byte_of CHR 0x22]))) = Inr (text_of ''a5F'')"
    by code_simp
  from UnmarshalJSON_accepts [OF this] show ?thesis by blast
qed

end
