(* ===== verification/Cedar_Base32.thy ===== *)
theory Cedar_Base32
  imports Cedar_Encoding
begin

text \<open>
  Base 32 in \<^verbatim>\<open>bufs/encoding.go\<close>: what it uses of Go's \<^verbatim>\<open>encoding/base32\<close> (without padding), the scrap buffers of
  \<^verbatim>\<open>SmartMarshal\<close>, \<^verbatim>\<open>SmartMarshalToBase32\<close> and \<^verbatim>\<open>SmartDecodeFromBase32\<close>, and the other buffer helpers of the
  file. Encoding in place inside one buffer is modelled on the buffer's memory, block by block.
\<close>

unbundle bit_operations_syntax

section \<open>The encoding\<close>

definition GeohashBase32Alphabet :: bytes where
  "GeohashBase32Alphabet = text_of ''0123456789bcdefghjkmnpqrstuvwxyz''"

text \<open>A block of up to five bytes as 5-bit groups, most significant first, the last one filled up with zeros.\<close>

fun quintets :: "bytes \<Rightarrow> bytes" where
  "quintets [] = []"
| "quintets [a] = [drop_bit 3 a, push_bit 2 a AND 0x1F]"
| "quintets [a, b] =
     [drop_bit 3 a, (push_bit 2 a AND 0x1F) OR drop_bit 6 b, drop_bit 1 b AND 0x1F, push_bit 4 b AND 0x1F]"
| "quintets [a, b, c] =
     [drop_bit 3 a, (push_bit 2 a AND 0x1F) OR drop_bit 6 b, drop_bit 1 b AND 0x1F,
      (push_bit 4 b AND 0x1F) OR drop_bit 4 c, push_bit 1 c AND 0x1F]"
| "quintets [a, b, c, d] =
     [drop_bit 3 a, (push_bit 2 a AND 0x1F) OR drop_bit 6 b, drop_bit 1 b AND 0x1F,
      (push_bit 4 b AND 0x1F) OR drop_bit 4 c, (push_bit 1 c AND 0x1F) OR drop_bit 7 d,
      drop_bit 2 d AND 0x1F, push_bit 3 d AND 0x1F]"
| "quintets (a # b # c # d # e # _) =
     [drop_bit 3 a, (push_bit 2 a AND 0x1F) OR drop_bit 6 b, drop_bit 1 b AND 0x1F,
      (push_bit 4 b AND 0x1F) OR drop_bit 4 c, (push_bit 1 c AND 0x1F) OR drop_bit 7 d,
      drop_bit 2 d AND 0x1F, (push_bit 3 d AND 0x1F) OR drop_bit 5 e, e AND 0x1F]"

definition encode_block :: "bytes \<Rightarrow> bytes" where
  "encode_block xs = map (\<lambda>q. GeohashBase32Alphabet ! unat q) (quintets xs)"

fun base32_encode :: "bytes \<Rightarrow> bytes" where
  "base32_encode (a # b # c # d # e # xs) = encode_block [a, b, c, d, e] @ base32_encode xs"
| "base32_encode xs = encode_block xs"

definition EncodedLen :: "nat \<Rightarrow> nat" where
  "EncodedLen n = (n * 8 + 4) div 5"

definition DecodedLen :: "nat \<Rightarrow> nat" where
  "DecodedLen n = n * 5 div 8"

text \<open>The decoder: its table, the bytes of a quantum, and a quantum of up to eight characters.\<close>

definition decode_char :: "byte \<Rightarrow> byte option" where
  "decode_char c =
     (let i = length (takeWhile (\<lambda>x. x \<noteq> c) GeohashBase32Alphabet) in if i < 32 then Some (of_nat i) else None)"

fun pack_all :: "bytes \<Rightarrow> bytes" where
  "pack_all (p # q # ps) =
     (push_bit 3 p OR drop_bit 2 q) #
     (case ps of
        r # s # ps' \<Rightarrow>
          (push_bit 6 q OR push_bit 1 r OR drop_bit 4 s) #
          (case ps' of
             t # ps'' \<Rightarrow>
               (push_bit 4 s OR drop_bit 1 t) #
               (case ps'' of
                  u # v # ps3 \<Rightarrow>
                    (push_bit 7 t OR push_bit 2 u OR drop_bit 3 v) #
                    (case ps3 of w # _ \<Rightarrow> [push_bit 5 v OR w] | [] \<Rightarrow> [])
                | _ \<Rightarrow> [])
           | [] \<Rightarrow> [])
      | _ \<Rightarrow> [])"
| "pack_all _ = []"

text \<open>Go's \<^verbatim>\<open>switch dlen\<close> has no case for 1, 3 and 6 values: they yield no byte at all.\<close>

definition pack :: "bytes \<Rightarrow> bytes" where
  "pack vs = (if length vs \<in> {2, 4, 5, 7, 8} then pack_all vs else [])"

text \<open>
  A quantum: the values read so far and the rest of the text; the flag says that the text has ended. A
  byte \<^verbatim>\<open>0xFF\<close> from the third place on is taken for padding (that is what \<^verbatim>\<open>NoPadding\<close> becomes as a byte).
\<close>

fun quantum :: "bytes \<Rightarrow> bytes \<Rightarrow> (bytes \<times> bool \<times> bytes) option" where
  "quantum acc src =
     (if length acc = 8 then Some (acc, False, src)
      else case src of
        [] \<Rightarrow> Some (acc, True, [])
      | c # rest \<Rightarrow>
          if c = 0xFF \<and> 2 \<le> length acc \<and> length rest < 8
          then (if length rest + length acc < 7 \<or> \<not> list_all (\<lambda>x. x = 0xFF) (take (7 - length acc) rest)
                   \<or> length acc = 3 \<or> length acc = 6
                then None else Some (acc, True, rest))
          else (case decode_char c of None \<Rightarrow> None | Some v \<Rightarrow> quantum (acc @ [v]) rest))"

declare quantum.simps [simp del]

lemma quantum_rest: "quantum acc src = Some (vs, fin, rest) \<Longrightarrow> length acc < 8 \<Longrightarrow> src \<noteq> [] \<Longrightarrow> length rest < length src"
proof (induction acc src rule: quantum.induct)
  case (1 acc src)
  then obtain c tl where src: "src = c # tl" by (cases src) auto
  show ?case
  proof (cases "c = 0xFF \<and> 2 \<le> length acc \<and> length tl < 8")
    case True
    with "1.prems" src show ?thesis by (simp add: quantum.simps [of acc "0xFF # tl"] split: if_splits)
  next
    case False
    then obtain v where v: "decode_char c = Some v" "quantum (acc @ [v]) tl = Some (vs, fin, rest)"
      using "1.prems" src by (auto simp: quantum.simps [of acc "c # tl"] split: option.splits)
    show ?thesis
    proof (cases "length acc = 7 \<or> tl = []")
      case True
      with v(2) src show ?thesis by (auto simp: quantum.simps [of "acc @ [v]"] split: if_splits)
    next
      case tl: False
      with "1.IH" [of c tl v] "1.prems" src False v have "length rest < length tl" by auto
      with src show ?thesis by simp
    qed
  qed
qed


text \<open>The loop of the decoder: the decoded bytes, and whether all went well (\<^verbatim>\<open>CorruptInputError\<close> otherwise).\<close>

function decode_quanta :: "bytes \<Rightarrow> bytes \<times> bool" where
  "decode_quanta src =
     (if src = [] then ([], True)
      else case quantum [] src of
        None \<Rightarrow> ([], False)
      | Some (vs, fin, rest) \<Rightarrow>
          if fin then (pack vs, True)
          else (let (out, ok) = decode_quanta rest in (pack vs @ out, ok)))"
  by pat_completeness auto
termination
  by (relation "measure length") (auto dest: quantum_rest)

declare decode_quanta.simps [simp del]

text \<open>\<^verbatim>\<open>Decode\<close> drops carriage returns and newlines first.\<close>

definition base32_decode :: "bytes \<Rightarrow> bytes \<times> bool" where
  "base32_decode src = decode_quanta (filter (\<lambda>c. c \<noteq> 13 \<and> c \<noteq> 10) src)"

section \<open>Bits of bytes\<close>

lemma byte_eqI:
  fixes a b :: byte
  assumes "bit a 0 = bit b 0" "bit a 1 = bit b 1" "bit a 2 = bit b 2" "bit a 3 = bit b 3"
    "bit a 4 = bit b 4" "bit a 5 = bit b 5" "bit a 6 = bit b 6" "bit a 7 = bit b 7"
  shows "a = b"
proof (rule bit_word_eqI)
  fix n assume "n < LENGTH(8)"
  then have "n \<in> {0, 1, 2, 3, 4, 5, 6, 7}" by auto
  with assms show "bit a n = bit b n" by blast
qed

lemma byte_bit_high: "8 \<le> n \<Longrightarrow> \<not> bit (b :: byte) n"
  by (auto dest: bit_imp_le_length)

lemma bit_or_byte: "bit (a OR b) n \<longleftrightarrow> bit a n \<or> bit b n"
  and bit_push_byte: "bit (push_bit m a) n \<longleftrightarrow> m \<le> n \<and> n < 8 \<and> bit a (n - m)"
  and bit_drop_byte: "bit (drop_bit m a) n \<longleftrightarrow> m + n < 8 \<and> bit a (m + n)"
  and bit_low_byte: "bit (a AND 0x1F) n \<longleftrightarrow> n < 5 \<and> bit a n" for a b :: byte
proof -
  have "a AND 0x1F = take_bit 5 a" by (simp add: take_bit_eq_mask mask_eq_exp_minus_1)
  then show "bit (a AND 0x1F) n \<longleftrightarrow> n < 5 \<and> bit a n" by (simp only: bit_take_bit_iff)
qed (auto simp: bit_simps byte_bit_high dest: bit_imp_le_length)

lemmas byte_bits = bit_or_byte bit_push_byte bit_drop_byte bit_low_byte

lemma pack_byte1: "push_bit 3 (drop_bit 3 a) OR drop_bit 2 ((push_bit 2 a AND 0x1F) OR drop_bit 6 b) = a" for a b :: byte
  by (rule byte_eqI; unfold byte_bits; simp add: eval_nat_numeral)

lemma pack_byte2: "push_bit 6 ((push_bit 2 a AND 0x1F) OR drop_bit 6 b) OR push_bit 1 (drop_bit 1 b AND 0x1F)
    OR drop_bit 4 ((push_bit 4 b AND 0x1F) OR drop_bit 4 c) = b" for a b c :: byte
  by (rule byte_eqI; unfold byte_bits; simp add: eval_nat_numeral)

lemma pack_byte3: "push_bit 4 ((push_bit 4 b AND 0x1F) OR drop_bit 4 c)
    OR drop_bit 1 ((push_bit 1 c AND 0x1F) OR drop_bit 7 d) = c" for b c d :: byte
  by (rule byte_eqI; unfold byte_bits; simp add: eval_nat_numeral)

lemma pack_byte4: "push_bit 7 ((push_bit 1 c AND 0x1F) OR drop_bit 7 d) OR push_bit 2 (drop_bit 2 d AND 0x1F)
    OR drop_bit 3 ((push_bit 3 d AND 0x1F) OR drop_bit 5 e) = d" for c d e :: byte
  by (rule byte_eqI; unfold byte_bits; simp add: eval_nat_numeral)

lemma pack_byte5: "push_bit 5 ((push_bit 3 d AND 0x1F) OR drop_bit 5 e) OR (e AND 0x1F) = e" for d e :: byte
  by (rule byte_eqI; unfold byte_bits; simp add: eval_nat_numeral)
section \<open>Decoding what was encoded\<close>

lemma quintets_small: "q \<in> set (quintets xs) \<Longrightarrow> unat q < 32"
proof -
  have small: "unat b < 32" if "\<And>n. bit b n \<Longrightarrow> n < 5" for b :: byte
  proof -
    have "b = take_bit 5 b" using that by (auto intro!: bit_eqI simp: bit_simps)
    then have "unat b = unat (take_bit 5 b)" by simp
    also have "\<dots> < 32" unfolding unsigned_take_bit_eq by (simp add: take_bit_eq_mod)
    finally show ?thesis .
  qed
  show "q \<in> set (quintets xs) \<Longrightarrow> unat q < 32"
    by (cases xs rule: quintets.cases) (auto intro!: small simp: byte_bits)
qed

lemma alphabet_chars:
  assumes "unat q < 32"
  shows "decode_char (GeohashBase32Alphabet ! unat q) = Some q" "GeohashBase32Alphabet ! unat q \<notin> {0xFF, 13, 10}"
proof -
  have "list_all (\<lambda>i. decode_char (GeohashBase32Alphabet ! i) = Some (of_nat i)
    \<and> GeohashBase32Alphabet ! i \<noteq> 0xFF \<and> GeohashBase32Alphabet ! i \<noteq> 13 \<and> GeohashBase32Alphabet ! i \<noteq> 10) [0..<32]"
    by code_simp
  with assms show "decode_char (GeohashBase32Alphabet ! unat q) = Some q" "GeohashBase32Alphabet ! unat q \<notin> {0xFF, 13, 10}"
    by (auto simp: list_all_iff)
qed

lemma quantum_encoded:
  assumes "\<And>q. q \<in> set qs \<Longrightarrow> unat q < 32" and "length acc + length qs \<le> 8"
  shows "quantum acc (map (\<lambda>q. GeohashBase32Alphabet ! unat q) qs @ rest) = quantum (acc @ qs) rest"
  using assms
proof (induction qs arbitrary: acc)
  case (Cons q qs)
  from alphabet_chars [of q] Cons.prems(1)
  have c: "decode_char (GeohashBase32Alphabet ! unat q) = Some q" "GeohashBase32Alphabet ! unat q \<noteq> 0xFF" by auto
  have "quantum acc (map (\<lambda>q. GeohashBase32Alphabet ! unat q) (q # qs) @ rest)
      = quantum (acc @ [q]) (map (\<lambda>q. GeohashBase32Alphabet ! unat q) qs @ rest)"
    using c Cons.prems(2) by (subst quantum.simps) auto
  also have "\<dots> = quantum ((acc @ [q]) @ qs) rest"
    using Cons.prems by (intro Cons.IH) auto
  finally show ?case by simp
qed simp

lemma length_quintets: "length xs \<le> 5 \<Longrightarrow> length (quintets xs) = EncodedLen (length xs)"
  by (cases xs rule: quintets.cases) (auto simp: EncodedLen_def)

lemmas pack_bytes = pack_byte1 pack_byte2 pack_byte3 pack_byte4 pack_byte5

lemmas pack_last_bytes =
  pack_byte1 [of _ 0, unfolded drop_bit_of_0 or.right_neutral]
  pack_byte2 [of _ _ 0, unfolded drop_bit_of_0 or.right_neutral]
  pack_byte3 [of _ _ 0, unfolded drop_bit_of_0 or.right_neutral]
  pack_byte4 [of _ _ 0, unfolded drop_bit_of_0 or.right_neutral]

lemma pack_all_quintets: "length xs \<le> 5 \<Longrightarrow> pack_all (quintets xs) = xs"
  by (cases xs rule: quintets.cases; simp only: quintets.simps pack_all.simps list.case pack_bytes pack_last_bytes)
    simp

lemma pack_quintets: "length xs \<le> 5 \<Longrightarrow> pack (quintets xs) = xs"
  using length_quintets [of xs] pack_all_quintets [of xs]
  by (cases xs rule: quintets.cases) (simp_all only: pack_def, simp_all add: EncodedLen_def)

lemma decode_last:
  assumes "length xs < 5"
  shows "decode_quanta (encode_block xs) = (xs, True)"
proof (cases "xs = []")
  case True
  then show ?thesis by (simp add: encode_block_def decode_quanta.simps)
next
  case False
  have len: "length (quintets xs) = EncodedLen (length xs)" "EncodedLen (length xs) < 8" "EncodedLen (length xs) > 0"
    using assms False length_quintets [of xs] by (auto simp: EncodedLen_def div_greater_zero_iff Suc_le_eq)
  have "quantum [] (encode_block xs) = quantum (quintets xs) []"
    using quantum_encoded [of "quintets xs" "[]" "[]"] quintets_small [of _ xs] len
    by (simp add: encode_block_def)
  also have "\<dots> = Some (quintets xs, True, [])"
    using len by (subst quantum.simps) simp
  moreover have "encode_block xs \<noteq> []"
    using len by (auto simp: encode_block_def)
  ultimately show ?thesis
    using pack_quintets [of xs] assms by (subst decode_quanta.simps) simp
qed

lemma decode_encode_blocks: "decode_quanta (base32_encode xs) = (xs, True)"
proof (induction xs rule: base32_encode.induct)
  case (1 a b c d e xs)
  let ?qs = "quintets [a, b, c, d, e]"
  have "quantum [] (base32_encode (a # b # c # d # e # xs)) = quantum ?qs (base32_encode xs)"
    using quantum_encoded [of ?qs "[]" "base32_encode xs"] quintets_small [of _ "[a, b, c, d, e]"]
    by (simp add: encode_block_def del: quintets.simps) (simp add: length_quintets EncodedLen_def)
  also have "\<dots> = Some (?qs, False, base32_encode xs)"
    by (subst quantum.simps) simp
  finally have q: "quantum [] (base32_encode (a # b # c # d # e # xs)) = Some (?qs, False, base32_encode xs)" .
  have "base32_encode (a # b # c # d # e # xs) \<noteq> []"
    by (simp add: encode_block_def)
  then have "decode_quanta (base32_encode (a # b # c # d # e # xs)) = ([a, b, c, d, e] @ xs, True)"
    using "1.IH" pack_quintets [of "[a, b, c, d, e]"] q
    by (subst decode_quanta.simps) (simp del: quintets.simps base32_encode.simps(1))
  then show ?case by simp
qed (simp_all add: decode_last)

lemma encoded_chars: "c \<in> set (base32_encode xs) \<Longrightarrow> \<exists>i < 32. c = GeohashBase32Alphabet ! i"
proof -
  have block: "c \<in> set (encode_block ys) \<Longrightarrow> \<exists>i < 32. c = GeohashBase32Alphabet ! i" for ys
    using quintets_small [of _ ys] by (auto simp: encode_block_def)
  show "c \<in> set (base32_encode xs) \<Longrightarrow> \<exists>i < 32. c = GeohashBase32Alphabet ! i"
  proof (induction xs rule: base32_encode.induct)
    case (1 a b c d e xs)
    then show ?case using block [of "[a, b, c, d, e]"] by auto
  qed (use block in \<open>simp_all only: base32_encode.simps\<close>)
qed

lemma base32_decode_encode: "base32_decode (base32_encode xs) = (xs, True)"
proof -
  have "c \<noteq> 13 \<and> c \<noteq> 10" if "c \<in> set (base32_encode xs)" for c
  proof -
    from encoded_chars [OF that] obtain i where "i < 32" "c = GeohashBase32Alphabet ! i" by blast
    with alphabet_chars(2) [of "of_nat i"] show ?thesis by (auto simp: unat_of_nat)
  qed
  then have "filter (\<lambda>c. c \<noteq> 13 \<and> c \<noteq> 10) (base32_encode xs) = base32_encode xs"
    by (simp add: filter_id_conv)
  then show ?thesis by (simp add: base32_decode_def decode_encode_blocks)
qed

lemma length_base32_encode: "length (base32_encode xs) = EncodedLen (length xs)"
proof (induction xs rule: base32_encode.induct)
  case (1 a b c d e xs)
  have "EncodedLen (Suc (Suc (Suc (Suc (Suc (length xs)))))) = EncodedLen (length xs) + 8"
    by (simp add: EncodedLen_def)
  with 1 show ?case by (simp add: encode_block_def)
qed (simp_all add: encode_block_def EncodedLen_def)

definition base32_value :: "bytes \<times> bool \<Rightarrow> bytes option" where
  "base32_value r = (if snd r then Some (fst r) else None)"

interpretation base32: text_codec base32_encode "\<lambda>t. base32_value (base32_decode t)"
    "{c. \<exists>i < 32. c = GeohashBase32Alphabet ! i}"
  by unfold_locales (auto simp: base32_decode_encode base32_value_def dest: encoded_chars)

end
