(* ===== verification/Cedar_Bufs.thy ===== *)
theory Cedar_Bufs
  imports Cedar_Base32
begin

text \<open>
  The buffers of \<^verbatim>\<open>bufs/encoding.go\<close> and the hash of \<^verbatim>\<open>bufs/hash.go\<close>. A slice is its memory from its first
  element to its capacity, and its length. \<open>None\<close> is a panic.
\<close>

unbundle bit_operations_syntax

section \<open>Slices\<close>

record slice =
  s_mem :: bytes
  s_len :: nat

definition cap :: "slice \<Rightarrow> nat" where
  "cap s = length (s_mem s)"

definition elems :: "slice \<Rightarrow> bytes" where
  "elems s = take (s_len s) (s_mem s)"

definition make_slice :: "nat \<Rightarrow> nat \<Rightarrow> slice" where
  "make_slice len capacity = \<lparr>s_mem = replicate capacity 0, s_len = len\<rparr>"

text \<open>\<^verbatim>\<open>s[:n]\<close>, which panics beyond the capacity.\<close>

definition reslice :: "slice \<Rightarrow> nat \<Rightarrow> slice option" where
  "reslice s n = (if n \<le> cap s then Some (s\<lparr>s_len := n\<rparr>) else None)"

definition overwrite :: "nat \<Rightarrow> bytes \<Rightarrow> bytes \<Rightarrow> bytes" where
  "overwrite i xs mem = take i mem @ xs @ drop (i + length xs) mem"

lemma length_overwrite [simp]: "i + length xs \<le> length mem \<Longrightarrow> length (overwrite i xs mem) = length mem"
  by (simp add: overwrite_def)

lemma overwrite_nth:
  "i + length xs \<le> length mem \<Longrightarrow> j < length mem \<Longrightarrow>
     overwrite i xs mem ! j = (if i \<le> j \<and> j < i + length xs then xs ! (j - i) else mem ! j)"
  by (auto simp: overwrite_def nth_append)

text \<open>Go's \<^verbatim>\<open>&^\<close> on non-negative integers.\<close>

definition and_not :: "nat \<Rightarrow> nat \<Rightarrow> nat" where
  "and_not x y = nat (int x AND NOT (int y))"

lemma and_not_7: "and_not x 7 = x - x mod 8" and and_not_15: "and_not x 15 = x - x mod 16"
proof -
  have m: "int x AND NOT (mask n) = int x - int x mod 2 ^ n" for n
  proof -
    have "int x = (int x AND NOT (mask n)) OR take_bit n (int x)"
      by (auto intro!: bit_eqI simp: bit_simps)
    also have "\<dots> = (int x AND NOT (mask n)) + take_bit n (int x)"
      by (rule disjunctive_add_eq_or [symmetric]) (auto intro!: bit_eqI simp: bit_simps)
    finally show ?thesis by (simp add: take_bit_eq_mod)
  qed
  have "int x AND NOT 7 = int x - int x mod 8" "int x AND NOT 15 = int x - int x mod 16"
    using m [of 3] m [of 4] by (simp_all add: mask_eq_exp_minus_1)
  moreover have n: "nat (int x - int (x mod k)) = x - x mod k" for k
    by (simp add: nat_diff_distrib)
  ultimately show "and_not x 7 = x - x mod 8" "and_not x 15 = x - x mod 16"
    using n [of 8] n [of 16] unfolding and_not_def by (simp_all add: zmod_int)
qed

section \<open>Zero\<close>

text \<open>The counter and the length are \<^verbatim>\<open>int32\<close>: the conversion of the length wraps around.\<close>

definition int32 :: "nat \<Rightarrow> int" where
  "int32 n = sint (word_of_nat n :: 32 word)"

function zero_loop :: "int \<Rightarrow> int \<Rightarrow> bytes \<Rightarrow> bytes" where
  "zero_loop i N buf = (if i < N then zero_loop (i + 1) N (buf[nat i := 0]) else buf)"
  by pat_completeness auto
termination
  by (relation "measure (\<lambda>(i, N, buf). nat (N - i))") auto

declare zero_loop.simps [simp del]

definition Zero :: "bytes \<Rightarrow> bytes" where
  "Zero buf = (let N = int32 (length buf) in zero_loop 0 N buf)"

lemma zero_loop_result:
  "nat i \<le> length buf \<Longrightarrow> 0 \<le> i \<Longrightarrow> i \<le> N \<Longrightarrow> N \<le> int (length buf) \<Longrightarrow>
     zero_loop i N buf = take (nat i) buf @ replicate (nat (N - i)) 0 @ drop (nat N) buf"
proof (induction i N buf rule: zero_loop.induct)
  case (1 i N buf)
  show ?case
  proof (cases "i < N")
    case True
    then have "zero_loop i N buf = zero_loop (i + 1) N (buf[nat i := 0])"
      by (subst zero_loop.simps) simp
    also have "\<dots> = take (nat (i + 1)) (buf[nat i := 0]) @ replicate (nat (N - (i + 1))) 0 @ drop (nat N) (buf[nat i := 0])"
      using "1.prems" True by (intro "1.IH") auto
    also have "take (nat (i + 1)) (buf[nat i := 0]) = take (nat i) buf @ [0]"
      using "1.prems" True by (simp add: nat_add_distrib take_Suc_conv_app_nth)
    also have "drop (nat N) (buf[nat i := 0]) = drop (nat N) buf"
      using True "1.prems" by simp
    finally have "zero_loop i N buf = (take (nat i) buf @ [0]) @ replicate (nat (N - (i + 1))) 0 @ drop (nat N) buf" .
    moreover have "nat (N - i) = Suc (nat (N - (i + 1)))"
      using True by simp
    ultimately show ?thesis by simp
  next
    case False
    with "1.prems" show ?thesis by (subst zero_loop.simps) simp
  qed
qed

text \<open>
  \<^verbatim>\<open>Zero\<close> zeroes the whole buffer if it is shorter than 2^31 bytes. From there to 2^32 bytes it leaves the buffer as it
  is, because the length turns negative as an \<^verbatim>\<open>int32\<close>.
\<close>

lemma int32_wraps:
  assumes "n < 2 ^ 32"
  shows "int32 n = (if n < 2 ^ 31 then int n else int n - 2 ^ 32)"
proof -
  have eq: "int32 n = signed_take_bit 31 (int n)"
    by (simp add: int32_def signed_of_nat)
  show ?thesis
  proof (cases "n < 2 ^ 31")
    case True
    then have "int n div 2 ^ 31 = 0" by simp
    with True show ?thesis
      by (simp add: eq signed_take_bit_eq_take_bit_minus bit_iff_odd take_bit_eq_mod)
  next
    case False
    with assms have "int n div 2 ^ 31 = 1" by simp
    with False assms show ?thesis
      by (simp add: eq signed_take_bit_eq_take_bit_minus bit_iff_odd take_bit_eq_mod)
  qed
qed

lemma Zero_small: "length buf < 2 ^ 31 \<Longrightarrow> Zero buf = replicate (length buf) 0"
  using zero_loop_result [of 0 buf "int (length buf)"] by (simp add: Zero_def int32_wraps)

lemma Zero_large: "2 ^ 31 \<le> length buf \<Longrightarrow> length buf < 2 ^ 32 \<Longrightarrow> Zero buf = buf"
  unfolding Zero_def Let_def by (subst zero_loop.simps) (simp add: int32_wraps)


section \<open>Marshaling into scrap buffers\<close>

text \<open>
  A \<^verbatim>\<open>Marshalable\<close>: its \<^verbatim>\<open>Size()\<close> and \<^verbatim>\<open>MarshalToSizedBuffer\<close>, which writes into the buffer it is given and returns how much
  it used, or an error (\<open>None\<close>). \<open>marshals\<close> is the contract of such an item whose encoding is \<open>enc\<close>.
\<close>

record marshalable =
  m_size :: nat
  m_to :: "bytes \<Rightarrow> (bytes \<times> nat) option"

definition marshals :: "marshalable \<Rightarrow> bytes \<Rightarrow> bool" where
  "marshals item enc \<longleftrightarrow>
     m_size item = length enc \<and> (\<forall>buf. length buf = length enc \<longrightarrow> m_to item buf = Some (enc, length enc))"

definition SmartMarshal :: "marshalable \<Rightarrow> slice \<Rightarrow> slice option" where
  "SmartMarshal item tryDst =
     (let encSz = m_size item;
          dst = (if encSz > cap tryDst
                 then (let bufSz = and_not (encSz + 15) 15 in make_slice bufSz bufSz) else tryDst)
      in case m_to item (take encSz (s_mem dst)) of
           None \<Rightarrow> None
         | Some (out, n) \<Rightarrow> reslice (dst\<lparr>s_mem := overwrite 0 out (s_mem dst)\<rparr>) n)"

text \<open>
  \<^verbatim>\<open>Base32Encoding.Encode\<close> with its source at \<open>si\<close> and its target at \<open>di\<close> of the same memory: for each block it
  reads up to five bytes and then writes their characters. The documentation of \<^verbatim>\<open>encoding/base32\<close> does not promise this order; it is
  the one of the standard library of the Go release in \<^verbatim>\<open>go.mod\<close> (1.16).
\<close>

function encode_in_place :: "nat \<Rightarrow> nat \<Rightarrow> nat \<Rightarrow> bytes \<Rightarrow> bytes" where
  "encode_in_place n si di mem =
     (if n = 0 then mem
      else (let blk = take (min 5 n) (drop si mem)
            in encode_in_place (n - min 5 n) (si + 5) (di + 8) (overwrite di (encode_block blk) mem)))"
  by pat_completeness auto
termination
  by (relation "measure (\<lambda>(n, si, di, mem). n)") auto

declare encode_in_place.simps [simp del]

definition safe_size :: "nat \<Rightarrow> nat" where
  "safe_size binSz = 4 + 4 * ((binSz + 2) div 3)"

lemma EncodedLen_ge: "3 * (n div 5) + n \<le> EncodedLen n"
proof -
  have "5 * (n div 5) \<le> n" by simp
  then show ?thesis
    unfolding EncodedLen_def by (subst less_eq_div_iff_mult_less_eq) simp_all
qed

text \<open>The size of the buffer that \<^verbatim>\<open>SmartMarshalToBase32\<close> works in.\<close>

definition scrap_size :: "nat \<Rightarrow> nat \<Rightarrow> nat" where
  "scrap_size binSz bufSz =
     (let safeSz = safe_size binSz in if safeSz > bufSz then and_not (safeSz + 7) 7 else bufSz)"

definition SmartMarshalToBase32 :: "marshalable \<Rightarrow> slice \<Rightarrow> slice option" where
  "SmartMarshalToBase32 item tryDst =
     (let binSz = m_size item; bufSz = scrap_size binSz (cap tryDst);
          dst = (if safe_size binSz > cap tryDst then make_slice bufSz bufSz else tryDst)
      in if bufSz < binSz then None
         else (case m_to item (drop (bufSz - binSz) (s_mem dst)) of
                 None \<Rightarrow> None
               | Some (out, n) \<Rightarrow>
                   (let mem = overwrite (bufSz - binSz) out (s_mem dst); encSz = EncodedLen n
                    in if binSz < n then None
                       else (case reslice (dst\<lparr>s_mem := mem\<rparr>) encSz of
                               None \<Rightarrow> None
                             | Some res \<Rightarrow> Some (res\<lparr>s_mem := encode_in_place n (bufSz - binSz) 0 mem\<rparr>)))))"

text \<open>The decoded buffer and whether there was no error.\<close>

definition SmartDecodeFromBase32 :: "bytes \<Rightarrow> slice \<Rightarrow> (slice \<times> bool) option" where
  "SmartDecodeFromBase32 srcBase32 tryDst =
     (let binSz = DecodedLen (length srcBase32);
          dst = (if binSz > cap tryDst
                 then (let bufSz = and_not (binSz + 7) 7 in make_slice bufSz bufSz) else tryDst);
          (out, ok) = base32_decode srcBase32
      in if length out > binSz then None
         else Some (dst\<lparr>s_mem := overwrite 0 out (s_mem dst), s_len := length out\<rparr>, ok))"

text \<open>\<^verbatim>\<open>Buf.Unmarshal\<close> on the slice \<^verbatim>\<open>buf.Bytes\<close>.\<close>

definition Buf_Unmarshal :: "bytes \<Rightarrow> slice \<Rightarrow> slice" where
  "Buf_Unmarshal srcBuf buf =
     (let N = length srcBuf;
          dst = (if cap buf < N then make_slice N (push_bit 7 (drop_bit 7 (N + 127))) else buf\<lparr>s_len := N\<rparr>)
      in dst\<lparr>s_mem := overwrite 0 srcBuf (s_mem dst)\<rparr>)"

lemma SmartMarshal_result:
  assumes "marshals item enc"
  shows "\<exists>s. SmartMarshal item dst = Some s \<and> elems s = enc
    \<and> (length enc \<le> cap dst \<longrightarrow> cap s = cap dst)
    \<and> (cap dst < length enc \<longrightarrow> cap s mod 16 = 0 \<and> cap s < length enc + 16)"
proof -
  have le: "length enc \<le> and_not (length enc + 15) 15"
    unfolding and_not_15 by presburger
  have rnd: "and_not (length enc + 15) 15 mod 16 = 0 \<and> and_not (length enc + 15) 15 < length enc + 16"
    unfolding and_not_15 by presburger
  from assms have item: "m_size item = length enc" "\<And>buf. length buf = length enc \<Longrightarrow> m_to item buf = Some (enc, length enc)"
    by (auto simp: marshals_def)
  show ?thesis
  proof (cases "cap dst < length enc")
    case True
    with le rnd show ?thesis
      by (simp add: SmartMarshal_def item reslice_def cap_def elems_def make_slice_def overwrite_def Let_def)
  next
    case False
    then show ?thesis
      by (simp add: SmartMarshal_def item reslice_def cap_def elems_def make_slice_def overwrite_def Let_def)
  qed
qed

lemma Buf_Unmarshal_copies:
  "elems (Buf_Unmarshal src buf) = src"
  "length src \<le> cap buf \<Longrightarrow> cap (Buf_Unmarshal src buf) = cap buf"
proof -
  have "length src \<le> push_bit 7 (drop_bit 7 (length src + 127))"
    by (simp add: push_bit_eq_mult drop_bit_eq_div)
  then show "elems (Buf_Unmarshal src buf) = src"
    by (simp add: Buf_Unmarshal_def elems_def cap_def make_slice_def overwrite_def Let_def)
  show "length src \<le> cap buf \<Longrightarrow> cap (Buf_Unmarshal src buf) = cap buf"
    by (simp add: Buf_Unmarshal_def cap_def overwrite_def Let_def)
qed

section \<open>Encoding in place\<close>

lemma base32_encode_split:
  assumes "5 \<le> length xs"
  shows "base32_encode xs = encode_block (take 5 xs) @ base32_encode (drop 5 xs)"
proof -
  from assms obtain a b c d e ys where "xs = a # b # c # d # e # ys"
    by (auto simp: numeral_eq_Suc Suc_le_length_iff)
  then show ?thesis by simp
qed

lemma base32_encode_short: "length xs < 5 \<Longrightarrow> base32_encode xs = encode_block xs"
  by (cases xs rule: base32_encode.cases) auto

lemma length_encode_block: "length xs \<le> 5 \<Longrightarrow> length (encode_block xs) = EncodedLen (length xs)"
  by (simp add: encode_block_def length_quintets)

lemma encode_in_place_result:
  "di + 3 * (n div 5) \<le> si \<Longrightarrow> si + n \<le> length mem \<Longrightarrow> di + EncodedLen n \<le> length mem \<Longrightarrow>
     length (encode_in_place n si di mem) = length mem
     \<and> take di (encode_in_place n si di mem) = take di mem
     \<and> take (EncodedLen n) (drop di (encode_in_place n si di mem)) = base32_encode (take n (drop si mem))"
proof (induction n si di mem rule: encode_in_place.induct)
  case (1 n si di mem)
  let ?src = "take n (drop si mem)"
  have src: "length ?src = n" using "1.prems" by simp
  consider "n = 0" | "0 < n" "n < 5" | "5 \<le> n" by linarith
  then show ?case
  proof cases
    case 1
    then show ?thesis
      by (simp add: encode_in_place.simps [of 0] EncodedLen_def encode_block_def)
  next
    case 2
    then have "length (encode_block ?src) = EncodedLen n"
      using src by (simp add: length_encode_block)
    moreover have "encode_in_place n si di mem = overwrite di (encode_block ?src) mem"
      using 2 by (subst encode_in_place.simps) (simp add: encode_in_place.simps [of 0] Let_def)
    ultimately show ?thesis
      using 2 src "1.prems"(3) by (simp add: overwrite_def base32_encode_short)
  next
    case 3
    let ?blk = "take 5 (drop si mem)" and ?n = "n - 5"
    let ?mem = "overwrite di (encode_block ?blk) mem"
    let ?res = "encode_in_place ?n (si + 5) (di + 8) ?mem"
    have div: "n div 5 = Suc (?n div 5)" and enc: "EncodedLen n = 8 + EncodedLen ?n"
      using 3 by (auto simp: EncodedLen_def le_iff_add)
    have blk: "length (encode_block ?blk) = 8"
      using 3 "1.prems"(2) by (subst length_encode_block) (simp_all add: EncodedLen_def)
    have lmem: "length ?mem = length mem"
      using blk "1.prems"(3) enc by simp
    have rest: "drop (si + 5) ?mem = drop (si + 5) mem"
      using blk "1.prems" div enc by (intro nth_equalityI) (simp_all add: overwrite_nth)
    have res: "encode_in_place n si di mem = ?res"
      using 3 by (subst encode_in_place.simps) (simp add: Let_def)
    have IH: "length ?res = length ?mem \<and> take (di + 8) ?res = take (di + 8) ?mem
        \<and> take (EncodedLen ?n) (drop (di + 8) ?res) = base32_encode (take ?n (drop (si + 5) ?mem))"
    proof -
      have m: "min 5 n = 5" using 3 by simp
      show ?thesis
        by (rule "1.IH" [OF _ refl, unfolded m]) (use 3 "1.prems" div enc lmem in auto)
    qed
    have split: "base32_encode ?src = encode_block ?blk @ base32_encode (take ?n (drop (si + 5) mem))"
      using 3 src base32_encode_split [of ?src] by (simp add: min_absorb1 drop_take add.commute)
    have "take 8 (drop di ?res) = drop di (take (di + 8) ?res)"
      by (simp add: drop_take)
    also have "\<dots> = encode_block ?blk"
      using IH blk "1.prems"(3) enc by (simp add: overwrite_def drop_take)
    finally have head: "take 8 (drop di ?res) = encode_block ?blk" .
    have "take (EncodedLen n) (drop di ?res) = take 8 (drop di ?res) @ take (EncodedLen ?n) (drop (di + 8) ?res)"
      by (simp add: enc take_add add.commute)
    with head IH rest split have "take (EncodedLen n) (drop di ?res) = base32_encode ?src" by simp
    moreover have "take di ?res = take di mem"
    proof -
      have "take di ?res = take di (take (di + 8) ?res)" by simp
      also have "\<dots> = take di ?mem" using IH by simp
      finally show ?thesis using "1.prems"(3) by (simp add: overwrite_def)
    qed
    ultimately show ?thesis using IH lmem res by simp
  qed
qed


lemma scrap_size_ge: "safe_size n \<le> scrap_size n capacity" "n \<le> scrap_size n capacity"
proof -
  show ge: "safe_size n \<le> scrap_size n capacity"
    unfolding scrap_size_def Let_def and_not_7 by presburger
  have "n \<le> safe_size n" unfolding safe_size_def by presburger
  with ge show "n \<le> scrap_size n capacity" by simp
qed

lemma marshal_base32:
  assumes "marshals item enc"
  shows "case SmartMarshalToBase32 item dst of
      None \<Rightarrow> scrap_size (length enc) (cap dst) < EncodedLen (length enc)
    | Some s \<Rightarrow> EncodedLen (length enc) \<le> scrap_size (length enc) (cap dst)
        \<and> cap s = scrap_size (length enc) (cap dst) \<and> elems s = base32_encode enc"
proof -
  let ?n = "length enc" and ?B = "scrap_size (length enc) (cap dst)"
  define d where "d = (if safe_size ?n > cap dst then make_slice ?B ?B else dst)"
  let ?mem = "overwrite (?B - ?n) enc (s_mem d)"
  have item: "m_size item = ?n" "\<And>buf. length buf = ?n \<Longrightarrow> m_to item buf = Some (enc, ?n)"
    using assms by (auto simp: marshals_def)
  have B: "?n \<le> ?B" by (rule scrap_size_ge(2))
  have len: "length (s_mem d) = ?B"
    by (simp add: d_def scrap_size_def make_slice_def cap_def)
  with B have lmem: "length ?mem = ?B" by simp
  have src: "take ?n (drop (?B - ?n) ?mem) = enc"
    using len B by (simp add: overwrite_def)
  have "m_to item (drop (?B - ?n) (s_mem d)) = Some (enc, ?n)"
    using len B by (intro item(2)) simp
  then have run: "SmartMarshalToBase32 item dst = (case reslice (d\<lparr>s_mem := ?mem\<rparr>) (EncodedLen ?n) of
      None \<Rightarrow> None | Some res \<Rightarrow> Some (res\<lparr>s_mem := encode_in_place ?n (?B - ?n) 0 ?mem\<rparr>))"
    using B unfolding SmartMarshalToBase32_def Let_def item(1) d_def [symmetric] by simp
  show ?thesis
  proof (cases "EncodedLen ?n \<le> ?B")
    case True
    have "3 * (?n div 5) + ?n \<le> EncodedLen ?n" by (rule EncodedLen_ge)
    with True have "0 + 3 * (?n div 5) \<le> ?B - ?n" by linarith
    from encode_in_place_result [OF this] lmem B True src
    have "length (encode_in_place ?n (?B - ?n) 0 ?mem) = ?B"
      "take (EncodedLen ?n) (encode_in_place ?n (?B - ?n) 0 ?mem) = base32_encode enc" by auto
    with run True lmem show ?thesis by (simp add: reslice_def cap_def elems_def)
  next
    case False
    with run lmem show ?thesis by (simp add: reslice_def cap_def)
  qed
qed

text \<open>
  C9: Encoding in place is safe: whenever the text fits into the scrap buffer, \<^verbatim>\<open>SmartMarshalToBase32\<close> returns the base 32
  text of the item's encoding, although source and target overlap. It panics exactly when the text does not
  fit; the size it computes (four characters for three bytes) is too small for base 32 (eight for five), so with a
  fresh buffer it panics for every encoding of 32 bytes.
\<close>

theorem marshal_base32_in_place:
  assumes "marshals item enc"
  shows "(case SmartMarshalToBase32 item dst of
        None \<Rightarrow> scrap_size (length enc) (cap dst) < EncodedLen (length enc)
      | Some s \<Rightarrow> EncodedLen (length enc) \<le> scrap_size (length enc) (cap dst) \<and> elems s = base32_encode enc)
    \<and> (length enc = 32 \<and> cap dst = 0 \<longrightarrow> SmartMarshalToBase32 item dst = None)"
proof -
  have "scrap_size 32 0 < EncodedLen 32" by code_simp
  then have "SmartMarshalToBase32 item dst = None" if "length enc = 32" "cap dst = 0"
    using marshal_base32 [OF assms, of dst] that by (cases "SmartMarshalToBase32 item dst") auto
  with marshal_base32 [OF assms, of dst] show ?thesis by (auto split: option.splits)
qed

definition fixed_item :: "bytes \<Rightarrow> marshalable" where
  "fixed_item enc = \<lparr>m_size = length enc, m_to = (\<lambda>buf. Some (enc, length enc))\<rparr>"

lemma fixed_item_marshals: "marshals (fixed_item enc) enc"
  by (simp add: marshals_def fixed_item_def)

theorem marshal_base32_in_place_witness:
  "(case SmartMarshalToBase32 (fixed_item [1, 2, 3, 4, 5, 6]) (make_slice 0 0) of
      None \<Rightarrow> False | Some s \<Rightarrow> elems s = base32_encode [1, 2, 3, 4, 5, 6])
    \<and> SmartMarshalToBase32 (fixed_item (replicate 32 7)) (make_slice 0 0) = None"
proof -
  have six: "\<not> scrap_size 6 0 < EncodedLen 6" by code_simp
  have c: "cap (make_slice 0 0) = 0" "length [1, 2, 3, 4, 5, 6 :: byte] = 6" "length (replicate 32 (7 :: byte)) = 32"
    by (simp_all add: cap_def make_slice_def)
  show ?thesis
    using marshal_base32_in_place [OF fixed_item_marshals [of "[1, 2, 3, 4, 5, 6]"], of "make_slice 0 0", unfolded c]
      marshal_base32_in_place [OF fixed_item_marshals [of "replicate 32 7"], of "make_slice 0 0", unfolded c] six
    by (simp split: option.splits)
qed

section \<open>Decoding into a scrap buffer\<close>

lemma quantum_lengths:
  "quantum acc src = Some (vs, fin, rest) \<Longrightarrow> length vs + length rest \<le> length acc + length src \<and> (\<not> fin \<longrightarrow> length vs = 8)"
proof (induction acc src rule: quantum.induct)
  case (1 acc src)
  show ?case
  proof (cases src)
    case Nil
    with "1.prems" show ?thesis by (auto simp: quantum.simps [of acc "[]"] split: if_splits)
  next
    case (Cons c tl)
    show ?thesis
    proof (cases "length acc = 8 \<or> c = 0xFF \<and> 2 \<le> length acc \<and> length tl < 8")
      case True
      with "1.prems" Cons show ?thesis
        by (auto simp: quantum.simps [of acc "0xFF # tl"] quantum.simps [of acc "c # tl"] split: if_splits)
    next
      case False
      then obtain v where v: "decode_char c = Some v" "quantum (acc @ [v]) tl = Some (vs, fin, rest)"
        using "1.prems" Cons by (auto simp: quantum.simps [of acc "c # tl"] split: option.splits)
      with "1.IH" [of c tl v] False Cons show ?thesis by auto
    qed
  qed
qed

lemma length_pack: "8 * length (pack vs) \<le> 5 * length vs"
proof (cases "length vs \<in> {2, 4, 5, 7, 8}")
  case True
  have "8 * length (pack_all vs) \<le> 5 * length vs" if "length vs \<le> 8"
    using that by (cases vs rule: pack_all.cases) (auto split: list.splits)
  with True show ?thesis by (auto simp: pack_def)
qed (simp add: pack_def)

lemma length_decode_quanta: "8 * length (fst (decode_quanta src)) \<le> 5 * length src"
proof (induction src rule: decode_quanta.induct)
  case (1 src)
  show ?case
  proof (cases "src = [] \<or> quantum [] src = None")
    case True
    then show ?thesis by (subst decode_quanta.simps) auto
  next
    case False
    then obtain vs fin rest where q: "quantum [] src = Some (vs, fin, rest)" "src \<noteq> []" by auto
    have len: "length vs + length rest \<le> length src"
      using quantum_lengths [OF q(1)] by simp
    have p: "8 * length (pack vs) \<le> 5 * length vs" by (rule length_pack)
    show ?thesis
    proof (cases fin)
      case True
      with q len p show ?thesis by (subst decode_quanta.simps) auto
    next
      case False
      from "1.IH" [OF q(2,1) _ _ False] have "8 * length (fst (decode_quanta rest)) \<le> 5 * length rest" by simp
      moreover have "fst (decode_quanta src) = pack vs @ fst (decode_quanta rest)"
        using q False by (subst decode_quanta.simps) (simp add: split_beta)
      ultimately show ?thesis using len p by simp
    qed
  qed
qed

text \<open>
  C25: \<^verbatim>\<open>SmartDecodeFromBase32\<close> never panics, on any text and any scrap buffer, and gives back the bytes that were encoded,
  in the scrap buffer itself if that is large enough for them.
\<close>

theorem smart_decode_base32:
  "SmartDecodeFromBase32 t dst \<noteq> None
    \<and> (\<exists>s. SmartDecodeFromBase32 (base32_encode xs) dst = Some (s, True) \<and> elems s = xs
         \<and> (length xs \<le> cap dst \<longrightarrow> cap s = cap dst))"
proof
  let ?f = "filter (\<lambda>c. c \<noteq> 13 \<and> c \<noteq> 10) t"
  have "length ?f \<le> length t" by (rule length_filter_le)
  with length_decode_quanta [of ?f] have "8 * length (fst (base32_decode t)) \<le> 5 * length t"
    unfolding base32_decode_def by linarith
  then have "length (fst (base32_decode t)) \<le> DecodedLen (length t)"
    unfolding DecodedLen_def by linarith
  then show "SmartDecodeFromBase32 t dst \<noteq> None"
    by (simp add: SmartDecodeFromBase32_def Let_def split_beta)
  have dec: "DecodedLen (length (base32_encode xs)) = length xs"
    unfolding length_base32_encode EncodedLen_def DecodedLen_def by presburger
  have "length xs \<le> and_not (length xs + 7) 7"
    unfolding and_not_7 by presburger
  then show "\<exists>s. SmartDecodeFromBase32 (base32_encode xs) dst = Some (s, True) \<and> elems s = xs
         \<and> (length xs \<le> cap dst \<longrightarrow> cap s = cap dst)"
    by (simp add: SmartDecodeFromBase32_def dec base32_decode_encode Let_def elems_def cap_def
      make_slice_def overwrite_def)
qed

theorem smart_decode_base32_witness:
  "\<exists>s. SmartDecodeFromBase32 (base32_encode [1, 2]) (make_slice 0 4) = Some (s, True) \<and> elems s = [1, 2] \<and> cap s = 4"
  using smart_decode_base32 [of "[]" "make_slice 0 4" "[1, 2]"] by (auto simp: make_slice_def cap_def)

section \<open>Descriptions and hashes\<close>

text \<open>\<^verbatim>\<open>BufDesc\<close>; the ellipsis is three bytes of UTF-8.\<close>

definition ellipsis :: bytes where
  "ellipsis = [0xE2, 0x80, 0xA6]"

definition BufDesc :: "bytes \<Rightarrow> bytes" where
  "BufDesc inBuf =
     (if length inBuf = 0 then text_of ''nil''
      else (let limit = 12;
                alreadyASCII = list_all (\<lambda>b. \<not> (b < 32 \<or> b > 126)) inBuf;
                buf = (if length inBuf > limit then take limit inBuf else inBuf);
                suffix = (if length inBuf > limit then ellipsis else []);
                outStr = (if alreadyASCII then buf else base32_encode buf)
            in outStr @ suffix))"

text \<open>\<^verbatim>\<open>APHash64\<close>, with the index whose lowest bit chooses the round.\<close>

definition ap_round :: "nat \<Rightarrow> byte \<Rightarrow> uint64 \<Rightarrow> uint64" where
  "ap_round i b hash =
     (if i AND 1 = 0 then hash XOR (push_bit 7 hash XOR ucast b XOR drop_bit 3 hash)
      else hash XOR (NOT (push_bit 11 hash XOR ucast b XOR drop_bit 5 hash) + 1))"

definition APHash64 :: "bytes \<Rightarrow> uint64" where
  "APHash64 buf = fold (\<lambda>(i, b). ap_round i b) (enumerate 0 buf) 0xaaaaaaaaaaaaaaaa"

lemma BufDesc_length: "length (BufDesc b) \<le> 23"
proof -
  have "EncodedLen (length xs) \<le> 20" if "length xs \<le> 12" for xs :: bytes
    using that unfolding EncodedLen_def by presburger
  then have "length (base32_encode xs) \<le> 20" if "length xs \<le> 12" for xs
    using that by (simp add: length_base32_encode)
  from this [of b] this [of "take 12 b"] show ?thesis
    by (auto simp: BufDesc_def text_of_def ellipsis_def Let_def)
qed

end
