(* ===== verification/Cedar_Channels.thy ===== *)
theory Cedar_Channels
  imports Cedar_Prelude
begin

text \<open>
  \<^verbatim>\<open>utils/channels.go\<close>: the wait group with a channel, whose goroutine serves the requests of its callers over
  an unbuffered channel, as a machine of that goroutine and any number of calls; and the contexts built
  from channels.
\<close>

section \<open>The wait group\<close>

text \<open>
  The goroutine: at its \<^verbatim>\<open>select\<close>, about to send the reply to call \<open>j\<close> (and what it does then), returned.
  The replies are the three that the code sends.
\<close>

datatype reply = ReplyOk | ReplyFinished | ReplyTooMany

datatype wg_server = S_select | S_reply nat reply | S_return

text \<open>
  A call: \<^verbatim>\<open>Add(i)\<close> before its check of \<^verbatim>\<open>waitCalls\<close>, \<^verbatim>\<open>Add\<close> or \<^verbatim>\<open>Done\<close> at the \<^verbatim>\<open>select\<close>, waiting for the
  reply, returned, panicking.
\<close>

datatype wg_call = K_add int64 | K_select_add int64 | K_select_done | K_await | K_return | K_panic

text \<open>
  \<open>wg_done\<close> is the goroutine's variable \<^verbatim>\<open>done\<close>; \<open>wg_ctx\<close> and \<open>wg_stop\<close> are the channels \<^verbatim>\<open>chCtxDone\<close> and \<^verbatim>\<open>chStop\<close>.
  \<open>wg_taken\<close> records the increments the goroutine has received, in order; no step reads it.
\<close>

record wg =
  wg_i :: int64
  wg_done :: bool
  wg_server :: wg_server
  wg_wait :: chan
  wg_ctx :: chan
  wg_stop :: chan
  wg_waitCalls :: nat
  wg_calls :: "wg_call list"
  wg_taken :: "int64 list"

text \<open>\<open>ctx\<close> is \<open>ChNil\<close> for a \<^verbatim>\<open>nil\<close> context.\<close>

definition NewWaitGroupChan :: "chan \<Rightarrow> wg" where
  "NewWaitGroupChan ctx =
     \<lparr>wg_i = 0, wg_done = False, wg_server = S_select, wg_wait = ChOpen, wg_ctx = ctx, wg_stop = ChOpen,
      wg_waitCalls = 0, wg_calls = [], wg_taken = []\<rparr>"

text \<open>\<^verbatim>\<open>Close\<close> and \<^verbatim>\<open>Wait\<close>, called by clients; \<open>None\<close> is a panic.\<close>

definition wg_Close :: "wg \<Rightarrow> wg option" where
  "wg_Close w = (case chan_close (wg_stop w) of None \<Rightarrow> None | Some c \<Rightarrow> Some (w\<lparr>wg_stop := c\<rparr>))"

definition wg_Wait :: "wg \<Rightarrow> chan \<times> wg" where
  "wg_Wait w = (wg_wait w, w\<lparr>wg_waitCalls := 1\<rparr>)"

text \<open>The first check of \<^verbatim>\<open>Add\<close>.\<close>

definition add_check :: "int64 \<Rightarrow> wg \<Rightarrow> wg_call" where
  "add_check i w = (if wg_waitCalls w > 0 then K_panic else K_select_add i)"

text \<open>The goroutine's cases for the context and for \<^verbatim>\<open>chStop\<close>: \<open>None\<close> would be a second close of \<^verbatim>\<open>chWait\<close>.\<close>

definition serve_stop :: "wg \<Rightarrow> wg option" where
  "serve_stop w =
     (if \<not> wg_done w
      then (case chan_close (wg_wait w) of
              None \<Rightarrow> None | Some c \<Rightarrow> Some (w\<lparr>wg_wait := c, wg_server := S_return\<rparr>))
      else Some (w\<lparr>wg_server := S_return\<rparr>))"

text \<open>The goroutine's case for an increment \<open>i\<close> of call \<open>j\<close>, up to the send of the reply.\<close>

definition serve_add :: "nat \<Rightarrow> int64 \<Rightarrow> wg \<Rightarrow> wg option" where
  "serve_add j i w0 =
     (let w = w0\<lparr>wg_taken := wg_taken w0 @ [i]\<rparr>
      in if wg_done w then Some (w\<lparr>wg_server := S_reply j ReplyFinished\<rparr>)
         else (let w1 = w\<lparr>wg_i := wg_i w + i\<rparr>
               in if wg_i w1 <s 0 then Some (w1\<lparr>wg_server := S_reply j ReplyTooMany\<rparr>)
                  else if wg_i w1 = 0
                  then (case chan_close (wg_wait w1) of
                          None \<Rightarrow> None
                        | Some c \<Rightarrow> Some (w1\<lparr>wg_done := True, wg_wait := c, wg_server := S_reply j ReplyOk\<rparr>))
                  else Some (w1\<lparr>wg_server := S_reply j ReplyOk\<rparr>)))"

text \<open>What the goroutine does after the reply was received.\<close>

definition after_reply :: "reply \<Rightarrow> wg \<Rightarrow> wg option" where
  "after_reply r w =
     (case r of
        ReplyOk \<Rightarrow> Some (w\<lparr>wg_server := S_select\<rparr>)
      | ReplyFinished \<Rightarrow> Some (w\<lparr>wg_server := S_return\<rparr>)
      | ReplyTooMany \<Rightarrow>
          (case chan_close (wg_wait w) of
             None \<Rightarrow> None | Some c \<Rightarrow> Some (w\<lparr>wg_wait := c, wg_server := S_return\<rparr>)))"

definition set_call :: "nat \<Rightarrow> wg_call \<Rightarrow> wg \<Rightarrow> wg" where
  "set_call j k w = w\<lparr>wg_calls := (wg_calls w)[j := k]\<rparr>"

lemmas wg_ops [go_ops] =
  NewWaitGroupChan_def wg_Close_def wg_Wait_def add_check_def serve_stop_def serve_add_def after_reply_def set_call_def

fun increment :: "wg_call \<Rightarrow> int64 option" where
  "increment (K_select_add i) = Some i"
| "increment K_select_done = Some (- 1)"
| "increment _ = None"

inductive wg_step :: "wg \<Rightarrow> wg \<Rightarrow> bool" where
  wg_call_add: "wg_step w (w\<lparr>wg_calls := wg_calls w @ [K_add i]\<rparr>)"
| wg_call_done: "wg_step w (w\<lparr>wg_calls := wg_calls w @ [K_select_done]\<rparr>)"
| wg_call_wait: "wg_step w (snd (wg_Wait w))"
| wg_call_close: "wg_Close w = Some w' \<Longrightarrow> wg_step w w'"
| wg_cancel: "wg_ctx w = ChOpen \<Longrightarrow> wg_step w (w\<lparr>wg_ctx := ChClosed\<rparr>)"
| wg_add_check: "j < length (wg_calls w) \<Longrightarrow> wg_calls w ! j = K_add i \<Longrightarrow> wg_step w (set_call j (add_check i w) w)"
| wg_call_gives_up: "j < length (wg_calls w) \<Longrightarrow> increment (wg_calls w ! j) = Some i \<Longrightarrow>
     chan_ready (wg_ctx w) \<or> chan_ready (wg_stop w) \<or> wg_calls w ! j = K_select_done \<and> chan_ready (wg_wait w) \<Longrightarrow>
     wg_step w (set_call j K_return w)"
| wg_handoff: "j < length (wg_calls w) \<Longrightarrow> increment (wg_calls w ! j) = Some i \<Longrightarrow> wg_server w = S_select \<Longrightarrow>
     serve_add j i w = Some w' \<Longrightarrow> wg_step w (set_call j K_await w')"
| wg_reply: "wg_server w = S_reply j r \<Longrightarrow> after_reply r w = Some w' \<Longrightarrow>
     wg_step w (set_call j (if r = ReplyOk then K_return else K_panic) w')"
| wg_stopped: "wg_server w = S_select \<Longrightarrow> chan_ready (wg_ctx w) \<or> chan_ready (wg_stop w) \<Longrightarrow>
     serve_stop w = Some w' \<Longrightarrow> wg_step w w'"

definition wg_init :: "wg \<Rightarrow> bool" where
  "wg_init w \<longleftrightarrow> (\<exists>ctx. w = NewWaitGroupChan ctx)"

text \<open>A panic in the goroutine itself: it closes \<^verbatim>\<open>chWait\<close> a second time.\<close>

definition server_panics :: "wg \<Rightarrow> bool" where
  "server_panics w \<longleftrightarrow>
     (\<exists>j i. wg_server w = S_select \<and> serve_add j i w = None)
     \<or> (wg_server w = S_select \<and> serve_stop w = None)
     \<or> (\<exists>j r. wg_server w = S_reply j r \<and> after_reply r w = None)"

section \<open>Its invariant\<close>

text \<open>
  The counter, seen from the increments received: \<open>settles n is\<close> says that, starting at \<open>n\<close>, one of them brings
  it to zero or below.
\<close>

fun settles :: "int64 \<Rightarrow> int64 list \<Rightarrow> bool" where
  "settles n [] \<longleftrightarrow> False"
| "settles n (i # is) \<longleftrightarrow> n + i \<le>s 0 \<or> settles (n + i) is"

lemma settles_append: "settles n (is @ js) \<longleftrightarrow> settles n is \<or> settles (n + sum_list is) js"
  by (induction "is" arbitrary: n) (auto simp: ac_simps)

definition wg_inv :: "wg \<Rightarrow> bool" where
  [go_inv]: "wg_inv w \<longleftrightarrow>
     wg_wait w \<noteq> ChNil
     \<and> (wg_done w \<longrightarrow> wg_wait w = ChClosed \<and> settles 0 (wg_taken w))
     \<and> (case wg_server w of
          S_select \<Rightarrow> \<not> wg_done w \<longrightarrow> wg_wait w = ChOpen \<and> wg_i w = sum_list (wg_taken w) \<and> \<not> settles 0 (wg_taken w)
        | S_reply j r \<Rightarrow>
            (r = ReplyOk \<and> \<not> wg_done w \<longrightarrow> wg_wait w = ChOpen \<and> wg_i w = sum_list (wg_taken w) \<and> \<not> settles 0 (wg_taken w))
            \<and> (r = ReplyTooMany \<longrightarrow> \<not> wg_done w \<and> wg_wait w = ChOpen \<and> settles 0 (wg_taken w))
            \<and> (r = ReplyFinished \<longrightarrow> wg_done w)
        | S_return \<Rightarrow> wg_wait w = ChClosed
            \<and> (settles 0 (wg_taken w) \<or> chan_ready (wg_ctx w) \<or> chan_ready (wg_stop w)))"

lemma set_call_fields [simp]:
  "wg_i (set_call j k w) = wg_i w" "wg_done (set_call j k w) = wg_done w" "wg_server (set_call j k w) = wg_server w"
  "wg_wait (set_call j k w) = wg_wait w" "wg_ctx (set_call j k w) = wg_ctx w" "wg_stop (set_call j k w) = wg_stop w"
  "wg_taken (set_call j k w) = wg_taken w"
  by (simp_all add: set_call_def)

lemma serve_add_inv:
  assumes inv: "wg_inv w" and s: "wg_server w = S_select"
  shows "\<exists>w'. serve_add j i w = Some w' \<and> wg_inv w'"
proof (cases "wg_done w")
  case True
  then have "serve_add j i w = Some (w\<lparr>wg_taken := wg_taken w @ [i], wg_server := S_reply j ReplyFinished\<rparr>)"
    by (simp add: serve_add_def)
  with inv s True show ?thesis by (simp add: wg_inv_def settles_append)
next
  case False
  with inv s have "wg_wait w = ChOpen" "wg_i w = sum_list (wg_taken w)" "\<not> settles 0 (wg_taken w)"
    by (auto simp: wg_inv_def)
  with False show ?thesis
    by (auto simp: serve_add_def Let_def wg_inv_def settles_append)
qed

lemma serve_stop_inv:
  assumes "wg_inv w" and "wg_server w = S_select" and "chan_ready (wg_ctx w) \<or> chan_ready (wg_stop w)"
  shows "\<exists>w'. serve_stop w = Some w' \<and> wg_inv w'"
  using assms by (cases "wg_done w") (auto simp: wg_inv_def serve_stop_def)

lemma after_reply_inv:
  assumes "wg_inv w" and "wg_server w = S_reply j r"
  shows "\<exists>w'. after_reply r w = Some w' \<and> wg_inv w'"
  using assms by (cases r) (auto simp: wg_inv_def after_reply_def)

lemma wg_inv_calls [simp]: "wg_inv (w\<lparr>wg_calls := cs\<rparr>) = wg_inv w" "wg_inv (set_call j k w) = wg_inv w"
  by (cases "wg_server w"; simp add: wg_inv_def set_call_def)+

lemma wg_inv_waited: "wg_inv (w\<lparr>wg_waitCalls := n\<rparr>) = wg_inv w"
  by (cases "wg_server w") (simp_all add: wg_inv_def)

lemma wg_step_inv: "wg_inv w \<Longrightarrow> wg_step w w' \<Longrightarrow> wg_inv w'"
proof (erule wg_step.cases, goal_cases)
  case (4 v v')
  then have "v' = v\<lparr>wg_stop := ChClosed\<rparr>" by (auto simp: wg_Close_def split: option.splits)
  with 4 show ?case by (auto simp: wg_inv_def split: wg_server.splits)
next
  case (5 v)
  then show ?case by (auto simp: wg_inv_def split: wg_server.splits)
next
  case (8 j v i v')
  with serve_add_inv [of v j i] show ?case by auto
next
  case (9 v j r v')
  with after_reply_inv [of v j r] show ?case by auto
next
  case (10 v v')
  with serve_stop_inv [of v] show ?case by auto
qed (auto simp: wg_Wait_def wg_inv_waited)

lemma wg_init_inv: "wg_init w \<Longrightarrow> wg_inv w"
  by (auto simp: wg_init_def NewWaitGroupChan_def wg_inv_def)

interpretation wgc: invariant_system wg_init wg_step wg_inv
  by unfold_locales (rule wg_init_inv, assumption, rule wg_step_inv)

section \<open>Runs\<close>

datatype wg_move = V_add int64 | V_done | V_check nat | V_hand nat | V_reply | V_give_up nat

fun wg_exec :: "wg_move \<Rightarrow> wg \<Rightarrow> wg option" where
  "wg_exec (V_add i) w = Some (w\<lparr>wg_calls := wg_calls w @ [K_add i]\<rparr>)"
| "wg_exec V_done w = Some (w\<lparr>wg_calls := wg_calls w @ [K_select_done]\<rparr>)"
| "wg_exec (V_check j) w =
     (if j < length (wg_calls w)
      then (case wg_calls w ! j of K_add i \<Rightarrow> Some (set_call j (add_check i w) w) | _ \<Rightarrow> None) else None)"
| "wg_exec (V_hand j) w =
     (if j < length (wg_calls w) \<and> wg_server w = S_select
      then (case increment (wg_calls w ! j) of
              None \<Rightarrow> None
            | Some i \<Rightarrow> (case serve_add j i w of None \<Rightarrow> None | Some w' \<Rightarrow> Some (set_call j K_await w')))
      else None)"
| "wg_exec V_reply w =
     (case wg_server w of
        S_reply j r \<Rightarrow> (case after_reply r w of
            None \<Rightarrow> None | Some w' \<Rightarrow> Some (set_call j (if r = ReplyOk then K_return else K_panic) w'))
      | _ \<Rightarrow> None)"
| "wg_exec (V_give_up j) w =
     (if j < length (wg_calls w) \<and> increment (wg_calls w ! j) \<noteq> None
         \<and> (chan_ready (wg_ctx w) \<or> chan_ready (wg_stop w) \<or> wg_calls w ! j = K_select_done \<and> chan_ready (wg_wait w))
      then Some (set_call j K_return w) else None)"

fun wg_run :: "wg_move list \<Rightarrow> wg \<Rightarrow> wg option" where
  "wg_run [] w = Some w"
| "wg_run (m # ms) w = (case wg_exec m w of None \<Rightarrow> None | Some w' \<Rightarrow> wg_run ms w')"

lemma wg_exec_step: "wg_exec m w = Some w' \<Longrightarrow> wg_step w w'"
proof (cases m)
  case (V_check j)
  moreover assume "wg_exec m w = Some w'"
  ultimately show ?thesis using wg_add_check [of j w] by (auto split: if_splits wg_call.splits)
next
  case (V_hand j)
  moreover assume "wg_exec m w = Some w'"
  ultimately show ?thesis using wg_handoff [of j w] by (auto split: if_splits option.splits)
next
  case V_reply
  moreover assume "wg_exec m w = Some w'"
  ultimately show ?thesis using wg_reply [of w] by (fastforce split: wg_server.splits option.splits)
next
  case (V_give_up j)
  moreover assume "wg_exec m w = Some w'"
  ultimately show ?thesis using wg_call_gives_up [of j w] by (auto split: if_splits)
qed (auto intro: wg_step.intros)

lemma wg_run_steps: "wg_run ms w = Some w' \<Longrightarrow> wg_step\<^sup>*\<^sup>* w w'"
proof (induction ms arbitrary: w)
  case (Cons m ms)
  then obtain v where "wg_exec m w = Some v" "wg_run ms v = Some w'" by (auto split: option.splits)
  with Cons.IH [of v] show ?case by (auto intro: converse_rtranclp_into_rtranclp dest: wg_exec_step)
qed simp

lemma wg_run_reachable: "wg_run ms (NewWaitGroupChan ctx) = Some w \<Longrightarrow> reachable wg_init wg_step w"
  using reachable_init [where init = wg_init and s = "NewWaitGroupChan ctx" and step = wg_step]
  by (auto intro: reachable_steps [OF wg_run_steps] simp: wg_init_def)

text \<open>
  C26: The goroutine of a \<^verbatim>\<open>WaitGroupChan\<close> never closes the wait channel twice, and the channel is closed for the reasons it
  should be: the increments received have brought the counter back to zero (or below it), the context is
  done or the group was closed. Conversely, whenever the goroutine is not just replying, the counter having been back at zero
  means that the channel is closed; and when the context is done or the group closed, the goroutine's case for it
  leaves the channel closed and returns. A goroutine that has returned has closed the channel.
\<close>

theorem wait_channel_closed_in_time:
  assumes "reachable wg_init wg_step w"
  shows "\<not> server_panics w
    \<and> (wg_wait w = ChClosed \<longrightarrow> settles 0 (wg_taken w) \<or> chan_ready (wg_ctx w) \<or> chan_ready (wg_stop w))
    \<and> (settles 0 (wg_taken w) \<and> (\<forall>j r. wg_server w \<noteq> S_reply j r) \<longrightarrow> wg_wait w = ChClosed)
    \<and> (wg_server w = S_select \<and> (chan_ready (wg_ctx w) \<or> chan_ready (wg_stop w)) \<longrightarrow>
         (\<exists>w'. serve_stop w = Some w' \<and> wg_step w w' \<and> wg_server w' = S_return \<and> wg_wait w' = ChClosed))
    \<and> (wg_server w = S_return \<longrightarrow> wg_wait w = ChClosed)"
proof -
  have inv: "wg_inv w" using assms by (rule wgc.reachable_inv)
  have "serve_add j i w \<noteq> None" if "wg_server w = S_select" for j i
    using serve_add_inv [OF inv that, of j i] by auto
  moreover have "serve_stop w \<noteq> None" if "wg_server w = S_select"
    using inv that by (auto simp: wg_inv_def serve_stop_def)
  moreover have "after_reply r w \<noteq> None" if "wg_server w = S_reply j r" for j r
    using after_reply_inv [OF inv that] by auto
  ultimately have "\<not> server_panics w"
    unfolding server_panics_def by blast
  moreover have "wg_wait w = ChClosed \<longrightarrow> settles 0 (wg_taken w) \<or> chan_ready (wg_ctx w) \<or> chan_ready (wg_stop w)"
  proof (cases "wg_server w")
    case (S_reply j r)
    with inv show ?thesis by (cases r) (auto simp: wg_inv_def)
  qed (use inv in \<open>auto simp: wg_inv_def\<close>)
  moreover have "settles 0 (wg_taken w) \<and> (\<forall>j r. wg_server w \<noteq> S_reply j r) \<longrightarrow> wg_wait w = ChClosed"
    using inv by (cases "wg_server w") (auto simp: wg_inv_def)
  moreover have "\<exists>w'. serve_stop w = Some w' \<and> wg_step w w' \<and> wg_server w' = S_return \<and> wg_wait w' = ChClosed"
    if stop: "wg_server w = S_select \<and> (chan_ready (wg_ctx w) \<or> chan_ready (wg_stop w))"
  proof -
    obtain w' where w': "serve_stop w = Some w'" "wg_inv w'" using serve_stop_inv [OF inv] stop by blast
    then have "wg_server w' = S_return" by (auto simp: serve_stop_def split: if_splits option.splits)
    with w' stop wg_stopped [of w w'] show ?thesis by (auto simp: wg_inv_def)
  qed
  moreover have "wg_server w = S_return \<longrightarrow> wg_wait w = ChClosed" using inv by (auto simp: wg_inv_def)
  ultimately show ?thesis by blast
qed

text \<open>Two members join and leave.\<close>

definition wg_members :: "wg_move list" where
  "wg_members = [V_add 2, V_check 0, V_hand 0, V_reply, V_done, V_hand 1, V_reply, V_done, V_hand 2, V_reply]"

definition wg_left :: wg where
  "wg_left = the (wg_run wg_members (NewWaitGroupChan ChNil))"

lemma wg_left_run: "wg_run wg_members (NewWaitGroupChan ChNil) = Some wg_left"
  unfolding wg_left_def by code_simp

theorem wait_channel_closed_in_time_witness:
  "wg_taken wg_left = [2, -1, -1] \<and> wg_wait wg_left = ChClosed \<and> \<not> server_panics wg_left
    \<and> (\<exists>w w'. wg_server w = S_select \<and> wg_wait w = ChOpen \<and> wg_ctx w = ChClosed
          \<and> serve_stop w = Some w' \<and> wg_server w' = S_return \<and> wg_wait w' = ChClosed)"
proof -
  have "wg_taken wg_left = [2, -1, -1]" "wg_wait wg_left = ChClosed" by code_simp+
  moreover have "reachable wg_init wg_step (NewWaitGroupChan ChClosed)"
    by (rule reachable_init) (auto simp: wg_init_def)
  from wait_channel_closed_in_time [OF this]
  have "\<exists>w'. serve_stop (NewWaitGroupChan ChClosed) = Some w' \<and> wg_server w' = S_return \<and> wg_wait w' = ChClosed"
    by (auto simp: NewWaitGroupChan_def)
  then obtain w' where "serve_stop (NewWaitGroupChan ChClosed) = Some w'" "wg_server w' = S_return" "wg_wait w' = ChClosed"
    by blast
  then have "\<exists>w w'. wg_server w = S_select \<and> wg_wait w = ChOpen \<and> wg_ctx w = ChClosed
      \<and> serve_stop w = Some w' \<and> wg_server w' = S_return \<and> wg_wait w' = ChClosed"
    by (intro exI [of _ "NewWaitGroupChan ChClosed"] exI [of _ w']) (simp add: NewWaitGroupChan_def)
  ultimately show ?thesis
    using wait_channel_closed_in_time [OF wg_run_reachable [OF wg_left_run]] by blast
qed

lemma stuck_add:
  assumes "wg_server w = S_return" "\<not> chan_ready (wg_ctx w)" "\<not> chan_ready (wg_stop w)"
    and "j < length (wg_calls w)" "wg_calls w ! j = K_select_add i" and "wg_step w w'"
  shows "wg_calls w' ! j = K_select_add i"
  using assms(6)
proof cases
  case (wg_add_check k n)
  with assms(4,5) show ?thesis by (cases "k = j") (auto simp: set_call_def)
next
  case (wg_call_gives_up k n)
  with assms(2-5) show ?thesis by (cases "k = j") (auto simp: set_call_def)
next
  case wg_call_close
  then show ?thesis using assms(5) by (auto simp: wg_Close_def split: option.splits)
qed (use assms in \<open>auto simp: wg_Wait_def nth_append\<close>)

definition wg_late :: wg where
  "wg_late = the (wg_run [V_done] wg_left)"

definition wg_late_panic :: wg where
  "wg_late_panic = the (wg_run [V_hand 3, V_reply] wg_late)"

definition wg_stuck :: wg where
  "wg_stuck = the (wg_run [V_add 1, V_check 4] wg_late_panic)"

lemma wg_late_runs:
  "wg_run (wg_members @ [V_done]) (NewWaitGroupChan ChNil) = Some wg_late"
  "wg_run [V_give_up 3] wg_late = Some (set_call 3 K_return wg_late)"
  "wg_run [V_hand 3, V_reply] wg_late = Some wg_late_panic"
  "wg_run [V_add 1, V_check 4] wg_late_panic = Some wg_stuck"
  unfolding wg_late_panic_def wg_stuck_def by code_simp+

text \<open>
  A \<^verbatim>\<open>Done\<close> after the group has finished is a race: it may return, or it may panic, and then the goroutine is gone and a
  later \<^verbatim>\<open>Add\<close> is stuck until the context is done or the group is closed.
\<close>

theorem late_done_may_panic:
  "\<exists>w returned panicked stuck.
    reachable wg_init wg_step w \<and> wg_wait w = ChClosed \<and> wg_taken w = [2, -1, -1]
    \<and> wg_calls w = [K_return, K_return, K_return, K_select_done]
    \<and> wg_step\<^sup>*\<^sup>* w returned \<and> wg_calls returned ! 3 = K_return
    \<and> wg_step\<^sup>*\<^sup>* w panicked \<and> wg_calls panicked ! 3 = K_panic \<and> wg_server panicked = S_return
    \<and> wg_step\<^sup>*\<^sup>* panicked stuck \<and> wg_calls stuck ! 4 = K_select_add 1
    \<and> \<not> (\<exists>w'. wg_step stuck w' \<and> wg_calls w' ! 4 \<noteq> K_select_add 1)"
proof (intro exI conjI)
  show "reachable wg_init wg_step wg_late" by (rule wg_run_reachable [OF wg_late_runs(1)])
  show "wg_step\<^sup>*\<^sup>* wg_late (set_call 3 K_return wg_late)" by (rule wg_run_steps [OF wg_late_runs(2)])
  show "wg_step\<^sup>*\<^sup>* wg_late wg_late_panic" by (rule wg_run_steps [OF wg_late_runs(3)])
  show "wg_step\<^sup>*\<^sup>* wg_late_panic wg_stuck" by (rule wg_run_steps [OF wg_late_runs(4)])
  have "wg_server wg_stuck = S_return" "\<not> chan_ready (wg_ctx wg_stuck)" "\<not> chan_ready (wg_stop wg_stuck)"
    "4 < length (wg_calls wg_stuck)" and call: "wg_calls wg_stuck ! 4 = K_select_add 1"
    by code_simp+
  then show "\<not> (\<exists>w'. wg_step wg_stuck w' \<and> wg_calls w' ! 4 \<noteq> K_select_add 1)"
    using stuck_add [of wg_stuck 4 1] by blast
  show "wg_calls wg_stuck ! 4 = K_select_add 1" by (rule call)
qed (code_simp+)

section \<open>Contexts from channels\<close>

text \<open>
  The signals of \<^verbatim>\<open>CombinedContext\<close>: contexts (by their \<^verbatim>\<open>Done()\<close> channel), channels, durations, and values of other types,
  which are skipped.
\<close>

datatype signal = Sig_context chan | Sig_chan chan | Sig_duration | Sig_other

text \<open>
  The select cases; a duration becomes a context of its own, whose channel is open at first. The last case is
  the inner context, which is in the field \<open>cb_inner\<close>.
\<close>

fun select_cases :: "signal list \<Rightarrow> chan list" where
  "select_cases [] = []"
| "select_cases (Sig_context c # sigs) = c # select_cases sigs"
| "select_cases (Sig_chan c # sigs) = c # select_cases sigs"
| "select_cases (Sig_duration # sigs) = ChOpen # select_cases sigs"
| "select_cases (Sig_other # sigs) = select_cases sigs"

text \<open>
  \<open>cb_cases\<close> are the channels of the signals, \<open>cb_inner\<close> and \<open>cb_result\<close> the inner context and the returned one,
  \<open>cb_waiting\<close> says that the goroutine is in its \<^verbatim>\<open>reflect.Select\<close>, \<open>cb_cancelled\<close> that the returned function was called.
\<close>

record combined =
  cb_cases :: "chan list"
  cb_inner :: chan
  cb_result :: chan
  cb_waiting :: bool
  cb_cancelled :: bool

definition CombinedContext :: "signal list \<Rightarrow> combined" where
  "CombinedContext signals =
     \<lparr>cb_cases = select_cases signals, cb_inner = ChOpen, cb_result = ChOpen,
      cb_waiting = (length signals \<noteq> 0), cb_cancelled = False\<rparr>"

text \<open>
  A channel fires, the returned cancel function is called (it cancels the returned context only, which without
  signals is the inner one), the goroutine leaves the select and cancels the inner context and so
  the returned one, its child.
\<close>

inductive combined_step :: "bool \<Rightarrow> combined \<Rightarrow> combined \<Rightarrow> bool" for signals :: bool where
  combined_fire: "i < length (cb_cases c) \<Longrightarrow> cb_cases c ! i = ChOpen \<Longrightarrow>
     combined_step signals c (c\<lparr>cb_cases := (cb_cases c)[i := ChClosed]\<rparr>)"
| combined_cancel: "combined_step signals c
     (c\<lparr>cb_cancelled := True, cb_result := ChClosed, cb_inner := (if signals then cb_inner c else ChClosed)\<rparr>)"
| combined_select: "cb_waiting c \<Longrightarrow> list_ex chan_ready (cb_cases c @ [cb_inner c]) \<Longrightarrow>
     combined_step signals c (c\<lparr>cb_waiting := False, cb_inner := ChClosed, cb_result := ChClosed\<rparr>)"

definition combined_inv :: "combined \<Rightarrow> bool" where
  [go_inv]: "combined_inv c \<longleftrightarrow> cb_result c \<noteq> ChNil
     \<and> (cb_result c = ChClosed \<longleftrightarrow> cb_cancelled c \<or> cb_inner c = ChClosed)
     \<and> cb_inner c = (if cb_waiting c then ChOpen else ChClosed)
     \<and> (cb_inner c = ChClosed \<longrightarrow> list_ex chan_ready (cb_cases c))"

lemma list_ex_fire: "list_ex chan_ready cs \<Longrightarrow> list_ex chan_ready (cs[i := ChClosed])"
  by (induction cs arbitrary: i) (auto split: nat.split)

lemma combined_step_inv: "combined_step True c c' \<Longrightarrow> combined_inv c \<Longrightarrow> combined_inv c'"
  by (induction rule: combined_step.induct) (auto simp: combined_inv_def list_ex_fire)

definition combined_init :: "combined \<Rightarrow> bool" where
  "combined_init c \<longleftrightarrow> (\<exists>sigs. sigs \<noteq> [] \<and> c = CombinedContext sigs)"

lemma combined_init_inv: "combined_init c \<Longrightarrow> combined_inv c"
  by (auto simp: combined_init_def CombinedContext_def combined_inv_def)

interpretation combined: invariant_system combined_init "combined_step True" combined_inv
  by unfold_locales (rule combined_init_inv, assumption, rule combined_step_inv)

text \<open>
  The context made from at least one signal is done only after its cancel function was called or one of the
  listed channels has fired; and once one has fired, the goroutine, if it still waits, can finish it. The
  cancel function does not reach that goroutine: as long as no signal fires it stays in its select.
\<close>

theorem combined_context_done_on_signal:
  assumes "reachable combined_init (combined_step True) c"
  shows "(cb_result c = ChClosed \<longleftrightarrow> cb_cancelled c \<or> \<not> cb_waiting c)
    \<and> (\<not> cb_waiting c \<longrightarrow> list_ex chan_ready (cb_cases c))
    \<and> (cb_waiting c \<longrightarrow>
        (\<exists>c'. combined_step True c c' \<and> \<not> cb_waiting c' \<and> cb_result c' = ChClosed) = list_ex chan_ready (cb_cases c))"
proof -
  have inv: "combined_inv c" using assms by (rule combined.reachable_inv)
  have "(\<exists>c'. combined_step True c c' \<and> \<not> cb_waiting c' \<and> cb_result c' = ChClosed) = list_ex chan_ready (cb_cases c)"
    if w: "cb_waiting c"
  proof
    assume "\<exists>c'. combined_step True c c' \<and> \<not> cb_waiting c' \<and> cb_result c' = ChClosed"
    then obtain c' where "combined_step True c c'" "\<not> cb_waiting c'" by blast
    from this(1) show "list_ex chan_ready (cb_cases c)"
      by cases (use w inv \<open>\<not> cb_waiting c'\<close> in \<open>auto simp: combined_inv_def\<close>)
  next
    assume "list_ex chan_ready (cb_cases c)"
    with w have "combined_step True c (c\<lparr>cb_waiting := False, cb_inner := ChClosed, cb_result := ChClosed\<rparr>)"
      by (intro combined_select) auto
    then show "\<exists>c'. combined_step True c c' \<and> \<not> cb_waiting c' \<and> cb_result c' = ChClosed"
      by (intro exI [of _ "c\<lparr>cb_waiting := False, cb_inner := ChClosed, cb_result := ChClosed\<rparr>"]) simp
  qed
  with inv show ?thesis by (auto simp: combined_inv_def split: if_splits)
qed

theorem combined_context_done_on_signal_witness:
  "\<not> (\<exists>c'. combined_step True (CombinedContext [Sig_chan ChOpen, Sig_other]) c' \<and> \<not> cb_waiting c' \<and> cb_result c' = ChClosed)"
proof -
  have "reachable combined_init (combined_step True) (CombinedContext [Sig_chan ChOpen, Sig_other])"
    by (rule reachable_init) (auto simp: combined_init_def)
  from combined_context_done_on_signal [OF this] show ?thesis by (simp add: CombinedContext_def)
qed

text \<open>
  \<^verbatim>\<open>ContextFromChan\<close>: the context, the channel it watches, and whether its goroutine still waits; the returned function
  cancels the context.
\<close>

record from_chan =
  fc_stop :: chan
  fc_ctx :: chan
  fc_waiting :: bool

definition ContextFromChan :: "chan \<Rightarrow> from_chan" where
  "ContextFromChan chStop = \<lparr>fc_stop = chStop, fc_ctx = ChOpen, fc_waiting = True\<rparr>"

inductive from_chan_step :: "from_chan \<Rightarrow> from_chan \<Rightarrow> bool" where
  from_chan_fire: "fc_stop c = ChOpen \<Longrightarrow> from_chan_step c (c\<lparr>fc_stop := ChClosed\<rparr>)"
| from_chan_cancel: "from_chan_step c (c\<lparr>fc_ctx := ChClosed\<rparr>)"
| from_chan_stop: "fc_waiting c \<Longrightarrow> chan_ready (fc_stop c) \<Longrightarrow>
     from_chan_step c (c\<lparr>fc_ctx := ChClosed, fc_waiting := False\<rparr>)"
| from_chan_done: "fc_waiting c \<Longrightarrow> chan_ready (fc_ctx c) \<Longrightarrow> from_chan_step c (c\<lparr>fc_waiting := False\<rparr>)"

text \<open>Unlike the goroutine of \<^verbatim>\<open>CombinedContext\<close>, this one can always end once the context is done.\<close>

lemma from_chan_ends:
  "fc_waiting c \<Longrightarrow> chan_ready (fc_ctx c) \<or> chan_ready (fc_stop c) \<Longrightarrow>
     \<exists>c'. from_chan_step c c' \<and> \<not> fc_waiting c' \<and> chan_ready (fc_ctx c')"
  using from_chan_stop [of c] from_chan_done [of c] by fastforce

text \<open>\<^verbatim>\<open>ChanContext\<close>: a channel as a context; its only error is \<^verbatim>\<open>context.Canceled\<close>.\<close>

datatype ctx_error = CtxCanceled

definition ChanContext_Deadline :: "chan \<Rightarrow> int \<times> bool" where
  "ChanContext_Deadline ch = (0, False)"

definition ChanContext_Done :: "chan \<Rightarrow> chan" where
  "ChanContext_Done ch = ch"

definition ChanContext_Err :: "chan \<Rightarrow> ctx_error option" where
  "ChanContext_Err ch = (if chan_ready ch then Some CtxCanceled else None)"

definition ChanContext_Value :: "chan \<Rightarrow> 'k \<Rightarrow> 'v option" where
  "ChanContext_Value ch key = None"

lemma ChanContext_Err_iff: "ChanContext_Err ch \<noteq> None \<longleftrightarrow> chan_ready (ChanContext_Done ch)"
  by (simp add: ChanContext_Err_def ChanContext_Done_def)

end
