(* ===== verification/Cedar_Time.thy ===== *)
theory Cedar_Time
  imports Cedar_Prelude
begin

text \<open>
  \<^verbatim>\<open>utils/time.go\<close>: the exponential backoff, with its durations at their 64 bits, and the ticker built on it, as
  a machine of the goroutines that \<^verbatim>\<open>Start\<close> spawns and the calls of its clients.
\<close>

section \<open>The exponential backoff\<close>

text \<open>
  A \<^verbatim>\<open>time.Duration\<close> is an \<^verbatim>\<open>int64\<close> of nanoseconds. A \<^verbatim>\<open>time.Time\<close> is its distance in nanoseconds from the zero time; its
  \<^verbatim>\<open>Add\<close> does not wrap for the times a clock shows, its \<^verbatim>\<open>Sub\<close> saturates. A call of \<^verbatim>\<open>time.Now\<close> is an
  argument of the operation that makes it.
\<close>

type_synonym duration = int64
type_synonym time = int

definition Time_Add :: "time \<Rightarrow> duration \<Rightarrow> time" where
  "Time_Add t d = t + sint d"

definition Time_Sub :: "time \<Rightarrow> time \<Rightarrow> duration" where
  "Time_Sub t u = word_of_int (max (- (2 ^ 63)) (min (2 ^ 63 - 1) (t - u)))"

record backoff =
  eb_Min :: duration
  eb_Max :: duration
  eb_current :: duration
  eb_previousIncr :: time

definition new_backoff :: "duration \<Rightarrow> duration \<Rightarrow> backoff" where
  "new_backoff mn mx = \<lparr>eb_Min = mn, eb_Max = mx, eb_current = 0, eb_previousIncr = 0\<rparr>"

definition Ready :: "time \<Rightarrow> time \<Rightarrow> backoff \<Rightarrow> bool \<times> duration" where
  "Ready now1 now2 eb =
     (if eb_previousIncr eb = 0 then (True, 0)
      else let whenReady = Time_Add (eb_previousIncr eb) (eb_current eb);
               ready = now1 > whenReady
           in (ready, if \<not> ready then Time_Sub whenReady now2 else 0))"

definition Next :: "time \<Rightarrow> backoff \<Rightarrow> duration \<times> backoff" where
  "Next now eb0 =
     (let eb = (if eb_current eb0 = 0 then eb0\<lparr>eb_current := eb_Min eb0\<rparr> else eb0);
          current = eb_current eb;
          eb1 = eb\<lparr>eb_current := eb_current eb * 2\<rparr>;
          eb2 = (if eb_Max eb1 <s eb_current eb1 then eb1\<lparr>eb_current := eb_Max eb1\<rparr> else eb1)
      in (current, eb2\<lparr>eb_previousIncr := now\<rparr>))"

text \<open>\<^verbatim>\<open>Wait\<close> sleeps for the time that \<^verbatim>\<open>time.Sleep\<close> gets: none when the duration is zero or negative.\<close>

definition Wait_sleep :: "time \<Rightarrow> backoff \<Rightarrow> int \<times> backoff" where
  "Wait_sleep now eb = (case Next now eb of (d, eb') \<Rightarrow> (max 0 (sint d), eb'))"

definition Reset :: "backoff \<Rightarrow> backoff" where
  "Reset eb = eb\<lparr>eb_current := eb_Min eb\<rparr>"

lemmas backoff_ops [go_ops] = new_backoff_def Ready_def Next_def Wait_sleep_def Reset_def

text \<open>Calls of \<^verbatim>\<open>Next\<close> at the given times.\<close>

fun nexts :: "time list \<Rightarrow> backoff \<Rightarrow> duration list \<times> backoff" where
  "nexts [] eb = ([], eb)"
| "nexts (now # nows) eb =
     (case Next now eb of (d, eb1) \<Rightarrow> (case nexts nows eb1 of (ds, eb2) \<Rightarrow> (d # ds, eb2)))"

subsection \<open>The durations it gives\<close>

text \<open>What the backoff means to give: the minimum, doubled at each step, up to the maximum.\<close>

definition backoff_at :: "int \<Rightarrow> int \<Rightarrow> nat \<Rightarrow> int" where
  "backoff_at mn mx n = (if n = 0 then mn else min (mn * 2 ^ n) mx)"

lemma sint_double:
  assumes "0 < sint (d :: duration)" "sint d < 2 ^ 62"
  shows "sint (d * 2) = 2 * sint d"
proof -
  have "sint (d * 2) = signed_take_bit 63 (sint d * sint (2 :: duration))"
    by (simp add: sint_word_ariths(3))
  also have "sint (2 :: duration) = 2" by simp
  also have "signed_take_bit 63 (sint d * 2) = sint d * 2"
    using assms by (intro signed_take_bit_int_eq_self) auto
  finally show ?thesis by simp
qed


lemma backoff_at_Suc: "0 < mn \<Longrightarrow> 0 < mx \<Longrightarrow> backoff_at mn mx (Suc n) = min (2 * backoff_at mn mx n) mx"
  by (auto simp: backoff_at_def min_def)

lemma backoff_at_bounds: "0 < mn \<Longrightarrow> mn < b \<Longrightarrow> 0 < mx \<Longrightarrow> mx < b \<Longrightarrow> 0 < backoff_at mn mx n \<and> backoff_at mn mx n < b"
  by (auto simp: backoff_at_def min_def)

definition due :: "backoff \<Rightarrow> duration" where
  "due eb = (if eb_current eb = 0 then eb_Min eb else eb_current eb)"

lemma Next_doubles:
  assumes "0 < sint (due eb)" "sint (due eb) < 2 ^ 62" "0 < sint (eb_Max eb)"
  shows "fst (Next now eb) = due eb"
    and "sint (eb_current (snd (Next now eb))) = min (2 * sint (due eb)) (sint (eb_Max eb))"
    and "eb_previousIncr (snd (Next now eb)) = now"
    and "eb_Min (snd (Next now eb)) = eb_Min eb" "eb_Max (snd (Next now eb)) = eb_Max eb"
  using assms sint_double [of "due eb"]
  by (auto simp: Next_def due_def Let_def word_sless_alt min_def)

definition tame :: "backoff \<Rightarrow> bool" where
  "tame eb \<longleftrightarrow> 0 < sint (eb_Min eb) \<and> sint (eb_Min eb) < 2 ^ 62 \<and> 0 < sint (eb_Max eb) \<and> sint (eb_Max eb) < 2 ^ 62"

definition at_step :: "nat \<Rightarrow> backoff \<Rightarrow> bool" where
  "at_step n eb \<longleftrightarrow> sint (due eb) = backoff_at (sint (eb_Min eb)) (sint (eb_Max eb)) n"

lemma Next_at_step:
  assumes "tame eb" "at_step n eb"
  shows "sint (fst (Next now eb)) = backoff_at (sint (eb_Min eb)) (sint (eb_Max eb)) n"
    and "tame (snd (Next now eb))" "at_step (Suc n) (snd (Next now eb))"
    and "eb_Min (snd (Next now eb)) = eb_Min eb" "eb_Max (snd (Next now eb)) = eb_Max eb"
    and "eb_previousIncr (snd (Next now eb)) = now"
    and "sint (eb_current (snd (Next now eb))) = backoff_at (sint (eb_Min eb)) (sint (eb_Max eb)) (Suc n)"
proof -
  let ?a = "backoff_at (sint (eb_Min eb)) (sint (eb_Max eb))" and ?eb = "snd (Next now eb)"
  have b: "0 < ?a k" "?a k < 2 ^ 62" for k
    using assms(1) backoff_at_bounds [of "sint (eb_Min eb)" "2 ^ 62"] by (auto simp: tame_def)
  note d = Next_doubles [of eb, where now = now]
  have pre: "0 < sint (due eb)" "sint (due eb) < 2 ^ 62" "0 < sint (eb_Max eb)"
    using assms b [of n] by (auto simp: at_step_def tame_def)
  show "sint (fst (Next now eb)) = ?a n" using d(1) [OF pre] assms(2) by (simp add: at_step_def)
  show min: "eb_Min ?eb = eb_Min eb" and max: "eb_Max ?eb = eb_Max eb" using d(4,5) [OF pre] .
  show "eb_previousIncr ?eb = now" using d(3) [OF pre] .
  show "tame ?eb" using assms(1) min max by (simp add: tame_def)
  show c: "sint (eb_current ?eb) = ?a (Suc n)"
    using d(2) [OF pre] assms by (simp add: backoff_at_Suc at_step_def tame_def)
  with b [of "Suc n"] have "eb_current ?eb \<noteq> 0" by auto
  with c min max show "at_step (Suc n) ?eb" by (simp add: at_step_def due_def)
qed

lemma nexts_at_step:
  "tame eb \<Longrightarrow> at_step n eb \<Longrightarrow> nexts nows eb = (ds, eb') \<Longrightarrow>
     map sint ds = map (backoff_at (sint (eb_Min eb)) (sint (eb_Max eb))) [n..<n + length nows]
     \<and> (nows \<noteq> [] \<longrightarrow> eb_previousIncr eb' = last nows
          \<and> sint (eb_current eb') = backoff_at (sint (eb_Min eb)) (sint (eb_Max eb)) (n + length nows))"
proof (induction nows arbitrary: n eb ds)
  case (Cons now nows)
  obtain d eb1 where N: "Next now eb = (d, eb1)" by fastforce
  obtain ds1 where R: "nexts nows eb1 = (ds1, eb')" "ds = d # ds1"
    using Cons.prems(3) N by (auto split: prod.splits)
  note s = Next_at_step [OF Cons.prems(1,2), of now, unfolded N, simplified]
  have IH: "map sint ds1 = map (backoff_at (sint (eb_Min eb)) (sint (eb_Max eb))) [Suc n..<Suc n + length nows]
     \<and> (nows \<noteq> [] \<longrightarrow> eb_previousIncr eb' = last nows
          \<and> sint (eb_current eb') = backoff_at (sint (eb_Min eb)) (sint (eb_Max eb)) (Suc n + length nows))"
    using Cons.IH [OF s(2,3) R(1)] s(4,5) by simp
  have E: "nows = [] \<Longrightarrow> eb' = eb1" using R(1) by simp
  have "[n..<n + length (now # nows)] = n # [Suc n..<Suc n + length nows]" by (subst upt_conv_Cons) simp_all
  with IH R(2) s(1) show ?case using E s(6,7) by (cases "nows = []") auto
qed simp

lemma fresh_at_step:
  "tame eb \<Longrightarrow> eb_current eb = 0 \<or> eb_current eb = eb_Min eb \<Longrightarrow> at_step 0 eb"
  by (auto simp: at_step_def due_def backoff_at_def)

text \<open>
  C27: With a minimum and a maximum between 1 and 2^62 - 1 nanoseconds, successive calls of \<^verbatim>\<open>Next\<close> on a new or reset
  backoff give first the minimum, which is not compared with the maximum, and then the smaller one of the maximum and the minimum
  doubled at each step; so they never exceed a maximum that is not below the minimum. After them \<^verbatim>\<open>Ready\<close>
  becomes true when the \<^emph>\<open>next\<close> duration (not the one just given) has passed since the last call.
\<close>

theorem backoff_doubles_up_to_max:
  assumes "0 < sint (eb_Min eb)" "sint (eb_Min eb) < 2 ^ 62" "0 < sint (eb_Max eb)" "sint (eb_Max eb) < 2 ^ 62"
    and "eb_current eb = 0 \<or> eb = Reset eb1"
    and "nexts nows eb = (ds, eb')"
  shows "map sint ds = map (backoff_at (sint (eb_Min eb)) (sint (eb_Max eb))) [0..<length nows]
    \<and> (sint (eb_Min eb) \<le> sint (eb_Max eb) \<longrightarrow>
        map sint ds = map (\<lambda>n. min (sint (eb_Min eb) * 2 ^ n) (sint (eb_Max eb))) [0..<length nows])
    \<and> (nows \<noteq> [] \<and> last nows \<noteq> 0 \<longrightarrow>
        fst (Ready now1 now2 eb')
          = (now1 > last nows + backoff_at (sint (eb_Min eb)) (sint (eb_Max eb)) (length nows)))"
proof -
  have t: "tame eb" using assms by (simp add: tame_def)
  have "eb_current eb = 0 \<or> eb_current eb = eb_Min eb" using assms(5) by (auto simp: Reset_def)
  note nexts = nexts_at_step [OF t fresh_at_step [OF t this] assms(6)]
  moreover have "sint (eb_Min eb) \<le> sint (eb_Max eb) \<Longrightarrow>
      backoff_at (sint (eb_Min eb)) (sint (eb_Max eb)) n = min (sint (eb_Min eb) * 2 ^ n) (sint (eb_Max eb))" for n
    by (simp add: backoff_at_def)
  ultimately show ?thesis
    by (auto simp: Ready_def Let_def Time_Add_def)
qed

theorem backoff_doubles_up_to_max_witness:
  "map sint (fst (nexts [1, 2, 3, 4] (new_backoff 100 500))) = [100, 200, 400, 500]
    \<and> map sint (fst (nexts [1, 2] (new_backoff 500 100))) = [500, 100]"
proof -
  have "nexts [1, 2, 3, 4] (new_backoff 100 500) = (fst (nexts [1, 2, 3, 4] (new_backoff 100 500)), snd (nexts [1, 2, 3, 4] (new_backoff 100 500)))"
    by simp
  from backoff_doubles_up_to_max [OF _ _ _ _ _ this, of undefined 0 0]
  have "map sint (fst (nexts [1, 2, 3, 4] (new_backoff 100 500))) = [100, 200, 400, 500]"
    by (simp add: new_backoff_def backoff_at_def upt_rec)
  moreover have "nexts [1, 2] (new_backoff 500 100) = (fst (nexts [1, 2] (new_backoff 500 100)), snd (nexts [1, 2] (new_backoff 500 100)))"
    by simp
  from backoff_doubles_up_to_max [OF _ _ _ _ _ this, of undefined 0 0]
  have "map sint (fst (nexts [1, 2] (new_backoff 500 100))) = [500, 100]"
    by (simp add: new_backoff_def backoff_at_def upt_rec)
  ultimately show ?thesis by blast
qed

lemma Next_uncapped:
  assumes "eb_Max eb = 2 ^ 63 - 1"
  shows "Next now eb = (due eb, eb\<lparr>eb_current := due eb * 2, eb_previousIncr := now\<rparr>)"
proof -
  have "\<not> eb_Max eb <s x" for x
    unfolding assms word_sless_alt using sint_lt [of x] by simp
  then show ?thesis by (simp add: Next_def due_def Let_def)
qed

lemma nexts_uncapped:
  "eb_Max eb = 2 ^ 63 - 1 \<Longrightarrow> due eb * 2 ^ length nows \<noteq> 0 \<Longrightarrow> nexts nows eb = (ds, eb') \<Longrightarrow>
     ds = map (\<lambda>k. due eb * 2 ^ k) [0..<length nows] \<and> due eb' = due eb * 2 ^ length nows \<and> eb_Max eb' = 2 ^ 63 - 1"
proof (induction nows arbitrary: eb ds)
  case (Cons now nows)
  let ?eb = "eb\<lparr>eb_current := due eb * 2, eb_previousIncr := now\<rparr>"
  have "due eb * 2 \<noteq> 0"
  proof
    assume "due eb * 2 = 0"
    then have "(due eb * 2) * 2 ^ length nows = 0" by (simp only: mult_zero_left)
    with Cons.prems(2) show False by (simp only: length_Cons power_Suc ac_simps)
  qed
  then have due: "due ?eb = due eb * 2" by (simp add: due_def)
  obtain ds1 where R: "nexts nows ?eb = (ds1, eb')" "ds = due eb # ds1"
    using Cons.prems(1,3) by (auto simp: Next_uncapped split: prod.splits)
  have "due eb * 2 * 2 ^ length nows \<noteq> 0" using Cons.prems(2) by (simp add: ac_simps)
  with Cons.IH [OF _ _ R(1)] Cons.prems(1) due
  have "ds1 = map (\<lambda>k. due eb * 2 * 2 ^ k) [0..<length nows]" "due eb' = due eb * 2 * 2 ^ length nows" "eb_Max eb' = 2 ^ 63 - 1"
    by simp_all
  then show ?case using R(2) by (simp add: map_upt_Suc ac_simps del: upt_Suc)
qed simp

text \<open>
  With the largest possible maximum (no cap) the doubling wraps around: starting at a second, the 35th duration is
  negative, and a caller of \<^verbatim>\<open>Wait\<close> does not sleep at all.
\<close>

theorem backoff_wraps_around:
  "\<exists>ds eb. nexts (replicate 34 now) (new_backoff 1000000000 (2 ^ 63 - 1)) = (ds, eb)
     \<and> sint (last ds) = 8589934592000000000 \<and> sint (fst (Next now eb)) < 0 \<and> fst (Wait_sleep now eb) = 0"
proof -
  obtain ds eb where R: "nexts (replicate 34 now) (new_backoff 1000000000 (2 ^ 63 - 1)) = (ds, eb)" by fastforce
  have due: "due (new_backoff 1000000000 (2 ^ 63 - 1)) = 1000000000" by (simp add: due_def new_backoff_def)
  from nexts_uncapped [OF _ _ R] have "ds = map (\<lambda>k. 1000000000 * 2 ^ k) [0..<34]" "due eb = 1000000000 * 2 ^ 34"
    "eb_Max eb = 2 ^ 63 - 1"
    unfolding due by (simp_all add: new_backoff_def)
  moreover have "sint (1000000000 * 2 ^ 33 :: duration) = 8589934592000000000" by simp
  moreover have "sint (1000000000 * 2 ^ 34 :: duration) < 0" by simp
  ultimately show ?thesis using R by (auto simp: Next_uncapped Wait_sleep_def last_map)
qed

end
