(* ===== verification/Cedar_Ticker.thy ===== *)
theory Cedar_Ticker
  imports Cedar_Time
begin

text \<open>
  The \<^verbatim>\<open>ExponentialBackoffTicker\<close> of \<^verbatim>\<open>utils/time.go\<close>: the goroutines that \<^verbatim>\<open>Start\<close> spawns and the calls of its clients, as
  a step relation on the ticker with its threads and calls.
\<close>

section \<open>State and steps\<close>

text \<open>
  A goroutine of \<^verbatim>\<open>Start\<close>: at the begin of the loop's function literal, at its \<^verbatim>\<open>select\<close> with the timer armed, at the
  \<^verbatim>\<open>select\<close> that sends the tick, out of the loop. A call of \<^verbatim>\<open>Reset\<close> or \<^verbatim>\<open>Close\<close>.
\<close>

datatype ticker_pc = T_begin | T_select | T_send | T_out

datatype ticker_call =
  Q_reset | Q_reset_return
| Q_close | Q_await_done | Q_close_return | Q_close_panic

text \<open>
  The channels \<^verbatim>\<open>chTick\<close> and \<^verbatim>\<open>chReset\<close> are unbuffered: a communication on them is one step of both sides.
  \<open>tk_timers\<close> records the durations the timers were armed with since the last reset, the newest first, \<open>tk_ticks\<close>
  counts the ticks received by somebody; no step reads these two.
\<close>

record ticker =
  tk_backoff :: backoff
  tk_stop :: chan
  tk_done :: chan
  tk_threads :: "ticker_pc list"
  tk_calls :: "ticker_call list"
  tk_timers :: "duration list"
  tk_ticks :: nat

definition NewExponentialBackoffTicker :: "duration \<Rightarrow> duration \<Rightarrow> ticker" where
  "NewExponentialBackoffTicker mn mx =
     \<lparr>tk_backoff = new_backoff mn mx, tk_stop = ChOpen, tk_done = ChOpen, tk_threads = [], tk_calls = [], tk_timers = [], tk_ticks = 0\<rparr>"

definition Ticker_Start :: "ticker \<Rightarrow> ticker" where
  "Ticker_Start t = t\<lparr>tk_threads := tk_threads t @ [T_begin]\<rparr>"

definition thread_at :: "nat \<Rightarrow> ticker_pc \<Rightarrow> ticker \<Rightarrow> bool" where
  "thread_at k pc t \<longleftrightarrow> k < length (tk_threads t) \<and> tk_threads t ! k = pc"

definition set_thread :: "nat \<Rightarrow> ticker_pc \<Rightarrow> ticker \<Rightarrow> ticker" where
  "set_thread k pc t = t\<lparr>tk_threads := (tk_threads t)[k := pc]\<rparr>"

definition call_at :: "nat \<Rightarrow> ticker_call \<Rightarrow> ticker \<Rightarrow> bool" where
  "call_at j q t \<longleftrightarrow> j < length (tk_calls t) \<and> tk_calls t ! j = q"

definition set_tcall :: "nat \<Rightarrow> ticker_call \<Rightarrow> ticker \<Rightarrow> ticker" where
  "set_tcall j q t = t\<lparr>tk_calls := (tk_calls t)[j := q]\<rparr>"

text \<open>
  The first statements of the function literal, at time \<open>now\<close>; and where a goroutine is after the literal has
  ended, by a \<^verbatim>\<open>return\<close> in it or at its end: at the next round of the loop.
\<close>

definition arm_timer :: "time \<Rightarrow> nat \<Rightarrow> ticker \<Rightarrow> ticker" where
  "arm_timer now k t =
     (case Next now (tk_backoff t) of
        (d, eb) \<Rightarrow> set_thread k T_select (t\<lparr>tk_backoff := eb, tk_timers := d # tk_timers t\<rparr>))"

definition after_return :: ticker_pc where
  "after_return = T_begin"

definition after_end :: ticker_pc where
  "after_end = T_begin"

text \<open>The first statement of \<^verbatim>\<open>Close\<close>.\<close>

definition close_stop :: "nat \<Rightarrow> ticker \<Rightarrow> ticker" where
  "close_stop j t =
     (case chan_close (tk_stop t) of
        None \<Rightarrow> set_tcall j Q_close_panic t
      | Some c \<Rightarrow> set_tcall j Q_await_done (t\<lparr>tk_stop := c\<rparr>))"

inductive ticker_step :: "ticker \<Rightarrow> ticker \<Rightarrow> bool" where
  tk_start: "ticker_step t (Ticker_Start t)"
| tk_call: "q = Q_reset \<or> q = Q_close \<Longrightarrow> ticker_step t (t\<lparr>tk_calls := tk_calls t @ [q]\<rparr>)"
| tk_arm: "thread_at k T_begin t \<Longrightarrow> ticker_step t (arm_timer now k t)"
| tk_stopped: "thread_at k T_select t \<or> thread_at k T_send t \<Longrightarrow> chan_ready (tk_stop t) \<Longrightarrow>
     ticker_step t (set_thread k after_return t)"
| tk_reset: "thread_at k T_select t \<Longrightarrow> call_at j Q_reset t \<Longrightarrow>
     ticker_step t (set_tcall j Q_reset_return (set_thread k after_end (t\<lparr>tk_backoff := Reset (tk_backoff t), tk_timers := []\<rparr>)))"
| tk_timer: "thread_at k T_select t \<Longrightarrow> ticker_step t (set_thread k T_send t)"
| tk_tick: "thread_at k T_send t \<Longrightarrow> ticker_step t (set_thread k after_end (t\<lparr>tk_ticks := tk_ticks t + 1\<rparr>))"
| tk_exit: "thread_at k T_out t \<Longrightarrow> chan_close (tk_done t) = Some c \<Longrightarrow> ticker_step t (t\<lparr>tk_done := c\<rparr>)"
| tk_reset_stopped: "call_at j Q_reset t \<Longrightarrow> chan_ready (tk_stop t) \<Longrightarrow> ticker_step t (set_tcall j Q_reset_return t)"
| tk_close: "call_at j Q_close t \<Longrightarrow> ticker_step t (close_stop j t)"
| tk_close_done: "call_at j Q_await_done t \<Longrightarrow> chan_ready (tk_done t) \<Longrightarrow> ticker_step t (set_tcall j Q_close_return t)"

definition ticker_init :: "ticker \<Rightarrow> bool" where
  "ticker_init t \<longleftrightarrow> (\<exists>mn mx. t = NewExponentialBackoffTicker mn mx)"

lemmas ticker_ops [go_ops] =
  NewExponentialBackoffTicker_def Ticker_Start_def set_thread_def set_tcall_def after_return_def after_end_def
  thread_at_def call_at_def

lemma arm_timer_fields [simp]:
  "tk_threads (arm_timer now k t) = (tk_threads t)[k := T_select]"
  "tk_stop (arm_timer now k t) = tk_stop t" "tk_done (arm_timer now k t) = tk_done t"
  "tk_calls (arm_timer now k t) = tk_calls t" "tk_ticks (arm_timer now k t) = tk_ticks t"
  by (simp_all add: arm_timer_def set_thread_def split: prod.splits)

text \<open>
  The \<^verbatim>\<open>StaticTicker\<close>: a \<^verbatim>\<open>time.Ticker\<close> and its interval; \<open>st_ticking\<close> says that the runtime sends ticks. \<^verbatim>\<open>NewTicker\<close> and
  \<^verbatim>\<open>Reset\<close> panic (\<open>None\<close>) on an interval that is not positive; \<^verbatim>\<open>Stop\<close> waits for nobody.
\<close>

record static_ticker =
  st_interval :: duration
  st_ticking :: bool

definition NewStaticTicker :: "duration \<Rightarrow> static_ticker option" where
  "NewStaticTicker interval = (if 0 <s interval then Some \<lparr>st_interval = interval, st_ticking = True\<rparr> else None)"

definition StaticTicker_Start :: "static_ticker \<Rightarrow> static_ticker option" where
  "StaticTicker_Start t = (if 0 <s st_interval t then Some (t\<lparr>st_ticking := True\<rparr>) else None)"

definition StaticTicker_Close :: "static_ticker \<Rightarrow> static_ticker" where
  "StaticTicker_Close t = t\<lparr>st_ticking := False\<rparr>"

text \<open>\<^verbatim>\<open>Notify\<close> is the channel of the \<^verbatim>\<open>time.Ticker\<close>, on which a tick may come while the runtime sends them.\<close>

definition StaticTicker_Notify :: "static_ticker \<Rightarrow> bool" where
  "StaticTicker_Notify t \<longleftrightarrow> st_ticking t"

text \<open>It ticks from its creation on, not from \<^verbatim>\<open>Start\<close>; \<^verbatim>\<open>Start\<close> after \<^verbatim>\<open>Close\<close> starts it again.\<close>

lemma static_ticker_restarts:
  "NewStaticTicker interval = Some t \<Longrightarrow>
     st_ticking t \<and> StaticTicker_Start t = Some t \<and> \<not> st_ticking (StaticTicker_Close t)
     \<and> StaticTicker_Start (StaticTicker_Close t) = Some t"
  by (auto simp: NewStaticTicker_def StaticTicker_Start_def StaticTicker_Close_def split: if_splits)

section \<open>What Close does\<close>

definition ticker_inv :: "ticker \<Rightarrow> bool" where
  [go_inv]: "ticker_inv t \<longleftrightarrow> tk_done t = ChOpen \<and> T_out \<notin> set (tk_threads t) \<and> Q_close_return \<notin> set (tk_calls t)
     \<and> (Q_await_done \<in> set (tk_calls t) \<longrightarrow> tk_stop t = ChClosed) \<and> tk_stop t \<noteq> ChNil"

lemma not_in_update: "x \<notin> set xs \<Longrightarrow> y \<noteq> x \<Longrightarrow> x \<notin> set (xs[i := y])"
  using set_update_subset_insert [of xs i y] by auto

lemma in_update: "x \<in> set (xs[i := y]) \<Longrightarrow> y \<noteq> x \<Longrightarrow> x \<in> set xs"
  using set_update_subset_insert [of xs i y] by auto

lemma ticker_step_inv: "ticker_inv t \<Longrightarrow> ticker_step t t' \<Longrightarrow> ticker_inv t'"
proof (erule ticker_step.cases, goal_cases)
  case (8 k v c)
  then show ?case by (auto simp: ticker_inv_def ticker_ops dest: nth_mem)
next
  case (10 j v)
  then show ?case
    by (cases "tk_stop v") (auto simp: ticker_inv_def close_stop_def ticker_ops dest: in_update)
qed (auto simp: ticker_inv_def ticker_ops dest: in_update)

lemma ticker_init_inv: "ticker_init t \<Longrightarrow> ticker_inv t"
  by (auto simp: ticker_init_def ticker_inv_def ticker_ops)

interpretation tk: invariant_system ticker_init ticker_step ticker_inv
  by unfold_locales (rule ticker_init_inv, assumption, rule ticker_step_inv)

text \<open>After \<^verbatim>\<open>Close\<close> a goroutine at the begin of its loop can go through it again and again.\<close>

lemma stopped_thread_spins:
  assumes "thread_at k T_begin t" and "chan_ready (tk_stop t)"
  shows "\<exists>t'. ticker_step\<^sup>+\<^sup>+ t t' \<and> tk_threads t' = tk_threads t \<and> tk_stop t' = tk_stop t \<and> tk_calls t' = tk_calls t"
proof -
  let ?u = "arm_timer 0 k t"
  have "ticker_step t ?u" by (rule tk_arm [OF assms(1)])
  moreover have "ticker_step ?u (set_thread k after_return ?u)"
    using assms by (intro tk_stopped) (auto simp: thread_at_def)
  moreover have "tk_threads (set_thread k after_return ?u) = tk_threads t"
    using assms by (simp add: ticker_ops list_update_same_conv)
  ultimately show ?thesis
    by (intro exI [of _ "set_thread k after_return ?u"] conjI) (auto intro: tranclp.intros simp: set_thread_def)
qed

section \<open>The intervals\<close>

definition interval_inv :: "ticker \<Rightarrow> bool" where
  [go_inv]: "interval_inv t \<longleftrightarrow> (tame (tk_backoff t) \<longrightarrow>
     map sint (rev (tk_timers t))
       = map (backoff_at (sint (eb_Min (tk_backoff t))) (sint (eb_Max (tk_backoff t)))) [0..<length (tk_timers t)]
     \<and> at_step (length (tk_timers t)) (tk_backoff t))"

lemma Next_limits:
  "eb_Min (snd (Next now eb)) = eb_Min eb" "eb_Max (snd (Next now eb)) = eb_Max eb"
  by (simp_all add: Next_def Let_def)

lemma interval_arm: "interval_inv t \<Longrightarrow> interval_inv (arm_timer now k t)"
proof -
  assume inv: "interval_inv t"
  obtain d eb where N: "Next now (tk_backoff t) = (d, eb)" by fastforce
  have lim: "eb_Min eb = eb_Min (tk_backoff t)" "eb_Max eb = eb_Max (tk_backoff t)"
    using Next_limits [of now "tk_backoff t"] N by simp_all
  then have "tame eb = tame (tk_backoff t)" by (simp add: tame_def)
  with inv lim Next_at_step [of "tk_backoff t" "length (tk_timers t)" now, unfolded N] show ?thesis
    by (auto simp: interval_inv_def arm_timer_def N set_thread_def)
qed

lemma interval_step: "interval_inv t \<Longrightarrow> ticker_step t t' \<Longrightarrow> interval_inv t'"
proof (erule ticker_step.cases, goal_cases)
  case (3 k v now)
  then show ?case by (simp add: interval_arm)
next
  case (5 k v j)
  then show ?case
    using fresh_at_step [of "Reset (tk_backoff v)"] by (simp add: interval_inv_def ticker_ops Reset_def)
next
  case (10 j v)
  then show ?case by (cases "tk_stop v") (auto simp: interval_inv_def close_stop_def ticker_ops)
qed (auto simp: interval_inv_def ticker_ops)

lemma interval_init: "ticker_init t \<Longrightarrow> interval_inv t"
  using fresh_at_step [of "tk_backoff t"]
  by (auto simp: ticker_init_def interval_inv_def ticker_ops new_backoff_def)

interpretation tki: invariant_system ticker_init ticker_step interval_inv
  by unfold_locales (rule interval_init, assumption, rule interval_step)

section \<open>Properties\<close>

text \<open>
  C28: The \<^verbatim>\<open>return\<close> for \<^verbatim>\<open>chStop\<close> only leaves the function literal, so no goroutine of the ticker ever ends, \<^verbatim>\<open>chDone\<close> is
  never closed and no call of \<^verbatim>\<open>Close\<close> ever returns; and a goroutine that goes round its loop after \<^verbatim>\<open>Close\<close> can do
  so for ever.
\<close>

theorem ticker_close_never_returns:
  assumes "reachable ticker_init ticker_step t"
  shows "tk_done t = ChOpen \<and> T_out \<notin> set (tk_threads t) \<and> Q_close_return \<notin> set (tk_calls t)
    \<and> (Q_await_done \<in> set (tk_calls t) \<and> thread_at k T_begin t \<longrightarrow>
        (\<exists>t'. ticker_step\<^sup>+\<^sup>+ t t' \<and> tk_threads t' = tk_threads t \<and> tk_stop t' = tk_stop t \<and> tk_calls t' = tk_calls t))"
proof -
  have "ticker_inv t" using assms by (rule tk.reachable_inv)
  then show ?thesis using stopped_thread_spins [of k t] by (auto simp: ticker_inv_def)
qed

definition closing_ticker :: ticker where
  "closing_ticker =
     close_stop 0 ((Ticker_Start (NewExponentialBackoffTicker 100 500))\<lparr>tk_calls := [Q_close]\<rparr>)"

lemma closing_ticker_reachable: "reachable ticker_init ticker_step closing_ticker"
proof -
  let ?t = "NewExponentialBackoffTicker 100 500"
  have "reachable ticker_init ticker_step ?t" by (rule reachable_init) (auto simp: ticker_init_def)
  then have "reachable ticker_init ticker_step (Ticker_Start ?t)" by (rule reachable_step) (rule tk_start)
  then have "reachable ticker_init ticker_step ((Ticker_Start ?t)\<lparr>tk_calls := tk_calls (Ticker_Start ?t) @ [Q_close]\<rparr>)"
    by (rule reachable_step) (rule tk_call, simp)
  then have "reachable ticker_init ticker_step ((Ticker_Start ?t)\<lparr>tk_calls := [Q_close]\<rparr>)"
    by (simp add: NewExponentialBackoffTicker_def Ticker_Start_def)
  then show ?thesis
    unfolding closing_ticker_def
    by (rule reachable_step) (rule tk_close, auto simp: ticker_ops)
qed

theorem ticker_close_never_returns_witness:
  "tk_calls closing_ticker = [Q_await_done]
    \<and> (\<exists>t'. ticker_step\<^sup>+\<^sup>+ closing_ticker t' \<and> tk_threads t' = tk_threads closing_ticker
        \<and> tk_stop t' = tk_stop closing_ticker \<and> tk_calls t' = tk_calls closing_ticker)"
  using ticker_close_never_returns [OF closing_ticker_reachable, of 0]
  by (simp add: closing_ticker_def close_stop_def ticker_ops)

text \<open>
  With a minimum and a maximum between 1 and 2^62 - 1 nanoseconds, the timers armed since the start or the last
  reset are the minimum, then doubled each time up to the maximum.
\<close>

theorem ticker_intervals_back_off:
  assumes "reachable ticker_init ticker_step t" and "tame (tk_backoff t)"
  shows "map sint (rev (tk_timers t))
    = map (backoff_at (sint (eb_Min (tk_backoff t))) (sint (eb_Max (tk_backoff t)))) [0..<length (tk_timers t)]"
proof -
  have "interval_inv t" using assms(1) by (rule tki.reachable_inv)
  with assms(2) show ?thesis by (simp add: interval_inv_def)
qed

definition armed_ticker :: ticker where
  "armed_ticker = arm_timer 2 0 (set_thread 0 after_end ((set_thread 0 T_send (arm_timer 1 0
     (Ticker_Start (NewExponentialBackoffTicker 100 500))))\<lparr>tk_ticks := 1\<rparr>))"

lemma armed_ticker_reachable: "reachable ticker_init ticker_step armed_ticker"
proof -
  let ?t = "NewExponentialBackoffTicker 100 500"
  have "reachable ticker_init ticker_step ?t" by (rule reachable_init) (auto simp: ticker_init_def)
  then have "reachable ticker_init ticker_step (Ticker_Start ?t)" by (rule reachable_step) (rule tk_start)
  then have "reachable ticker_init ticker_step (arm_timer 1 0 (Ticker_Start ?t))"
    by (rule reachable_step) (rule tk_arm, simp add: ticker_ops)
  then have "reachable ticker_init ticker_step (set_thread 0 T_send (arm_timer 1 0 (Ticker_Start ?t)))"
    by (rule reachable_step) (rule tk_timer, simp add: thread_at_def Ticker_Start_def)
  then have "reachable ticker_init ticker_step
      (set_thread 0 after_end ((set_thread 0 T_send (arm_timer 1 0 (Ticker_Start ?t)))
         \<lparr>tk_ticks := tk_ticks (set_thread 0 T_send (arm_timer 1 0 (Ticker_Start ?t))) + 1\<rparr>))"
    by (rule reachable_step) (rule tk_tick, simp add: thread_at_def set_thread_def Ticker_Start_def)
  moreover have "tk_ticks (set_thread 0 T_send (arm_timer 1 0 (Ticker_Start ?t))) + 1 = 1"
    by (simp add: set_thread_def Ticker_Start_def NewExponentialBackoffTicker_def)
  ultimately have "reachable ticker_init ticker_step
      (set_thread 0 after_end ((set_thread 0 T_send (arm_timer 1 0 (Ticker_Start ?t)))\<lparr>tk_ticks := 1\<rparr>))"
    by (simp only:)
  then show ?thesis
    unfolding armed_ticker_def by (rule reachable_step) (rule tk_arm, simp add: ticker_ops)
qed

theorem ticker_intervals_back_off_witness: "map sint (rev (tk_timers armed_ticker)) = [100, 200]"
proof -
  have "tame (tk_backoff armed_ticker)" by code_simp
  moreover have "eb_Min (tk_backoff armed_ticker) = 100" "eb_Max (tk_backoff armed_ticker) = 500"
    "length (tk_timers armed_ticker) = 2" by code_simp+
  ultimately show ?thesis
    using ticker_intervals_back_off [OF armed_ticker_reachable] by (simp add: upt_rec backoff_at_def)
qed

end
