(* ===== verification/Cedar_Periodic.thy ===== *)
theory Cedar_Periodic
  imports Cedar_Mailbox
begin

text \<open>
  \<^verbatim>\<open>process/periodic_task.go\<close>: the loop of the goroutine that a periodic task starts, over the mailbox of
  one place through which ticks and \<^verbatim>\<open>Enqueue\<close> ask for a run of the task. The ticker is any implementation of the
  interface \<^verbatim>\<open>utils.Ticker\<close>: it may offer a tick at any time.
\<close>

section \<open>State and steps\<close>

text \<open>
  The goroutine: at its \<^verbatim>\<open>select\<close>, about to enqueue for a tick, about to retrieve after a notification, in the
  task function, returned.
\<close>

datatype task_pc = P_select | P_tick | P_retrieve | P_run | P_return

text \<open>
  \<open>pt_ctx\<close> is the \<^verbatim>\<open>Done\<close> channel of the goroutine's context. \<open>pt_requests\<close> counts the deliveries, \<open>pt_runs\<close> records for each
  run of the task function, the newest first, how many deliveries had been made before its \<^verbatim>\<open>Retrieve\<close>; no step
  reads these two.
\<close>

record task =
  pt_mailbox :: "unit option mailbox"
  pt_ctx :: chan
  pt_pc :: task_pc
  pt_requests :: nat
  pt_runs :: "nat list"

definition NewPeriodicTask :: task where
  "NewPeriodicTask = \<lparr>pt_mailbox = NewMailbox 1, pt_ctx = ChOpen, pt_pc = P_select, pt_requests = 0, pt_runs = []\<rparr>"

definition Enqueue :: "task \<Rightarrow> task" where
  "Enqueue t = t\<lparr>pt_mailbox := Deliver (Some ()) (pt_mailbox t), pt_requests := pt_requests t + 1\<rparr>"

definition task_retrieve :: "task \<Rightarrow> task" where
  "task_retrieve t =
     (case Retrieve (pt_mailbox t) of
        (None, mb) \<Rightarrow> t\<lparr>pt_mailbox := mb, pt_pc := P_select\<rparr>
      | (Some x, mb) \<Rightarrow> t\<lparr>pt_mailbox := mb, pt_pc := P_run, pt_runs := pt_requests t # pt_runs t\<rparr>)"

inductive task_step :: "task \<Rightarrow> task \<Rightarrow> bool" where
  task_Enqueue: "task_step t (Enqueue t)"
| task_cancel: "pt_ctx t = ChOpen \<Longrightarrow> task_step t (t\<lparr>pt_ctx := ChClosed\<rparr>)"
| task_done: "pt_pc t = P_select \<Longrightarrow> chan_ready (pt_ctx t) \<Longrightarrow> task_step t (t\<lparr>pt_pc := P_return\<rparr>)"
| task_ticked: "pt_pc t = P_select \<Longrightarrow> task_step t (t\<lparr>pt_pc := P_tick\<rparr>)"
| task_tick_enqueue: "pt_pc t = P_tick \<Longrightarrow> task_step t ((Enqueue t)\<lparr>pt_pc := P_select\<rparr>)"
| task_notified: "pt_pc t = P_select \<Longrightarrow> Notify (pt_mailbox t) = Some mb \<Longrightarrow>
     task_step t (t\<lparr>pt_mailbox := mb, pt_pc := P_retrieve\<rparr>)"
| task_retrieved: "pt_pc t = P_retrieve \<Longrightarrow> task_step t (task_retrieve t)"
| task_ran: "pt_pc t = P_run \<Longrightarrow> task_step t (t\<lparr>pt_pc := P_select\<rparr>)"

definition task_init :: "task \<Rightarrow> bool" where
  "task_init t \<longleftrightarrow> t = NewPeriodicTask"

section \<open>Its invariant\<close>

text \<open>The last run started after the last request, or a request is waiting and will be noticed.\<close>

definition answered :: "task \<Rightarrow> bool" where
  "answered t \<longleftrightarrow> pt_requests t = (case pt_runs t of [] \<Rightarrow> 0 | r # _ \<Rightarrow> r)"

definition task_inv :: "task \<Rightarrow> bool" where
  [go_inv]: "task_inv t \<longleftrightarrow>
     mb_ok (pt_mailbox t) \<and> mb_limit (pt_mailbox t) = 1
     \<and> (contents (pt_mailbox t) = [] \<and> answered t
        \<or> contents (pt_mailbox t) = [Some ()] \<and> (mb_notify (pt_mailbox t) \<or> pt_pc t = P_retrieve)
          \<and> (case pt_runs t of [] \<Rightarrow> 0 | r # _ \<Rightarrow> r) < pt_requests t)
     \<and> sorted_wrt (>) (pt_runs t @ [0]) \<and> pt_ctx t \<noteq> ChNil"

lemma Enqueue_contents: "task_inv t \<Longrightarrow> contents (pt_mailbox (Enqueue t)) = [Some ()]"
  by (simp add: Enqueue_def, subst mb.deliver_pending) (auto simp: task_inv_def window_def)

lemma Enqueue_inv: "task_inv t \<Longrightarrow> task_inv (Enqueue t)"
  using Enqueue_contents [of t] by (auto simp: task_inv_def Enqueue_def answered_def split: list.splits)

lemma task_inv_pc:
  "task_inv t \<Longrightarrow> pt_pc t \<noteq> P_retrieve \<Longrightarrow> task_inv (t\<lparr>pt_pc := pc\<rparr>)"
  by (auto simp: task_inv_def answered_def)

lemma task_retrieve_inv:
  assumes "task_inv t"
  shows "task_inv (task_retrieve t)"
proof (cases "contents (pt_mailbox t)")
  case Nil
  with assms show ?thesis
    by (auto simp: task_retrieve_def Retrieve_empty task_inv_def answered_def)
next
  case (Cons x xs)
  with assms have "x = Some ()" "xs = []" by (auto simp: task_inv_def)
  with Retrieve_oldest [OF Cons] obtain mb where "Retrieve (pt_mailbox t) = (Some (), mb)" "contents mb = []"
    "mb_limit mb = mb_limit (pt_mailbox t)" "mb_ok (pt_mailbox t) \<longrightarrow> mb_ok mb" by auto
  with assms Cons show ?thesis
    by (cases "pt_runs t") (auto simp: task_retrieve_def task_inv_def answered_def)
qed

lemma task_step_inv: "task_inv t \<Longrightarrow> task_step t t' \<Longrightarrow> task_inv t'"
proof (erule task_step.cases, goal_cases)
  case (2 v)
  then show ?case by (auto simp: task_inv_def answered_def)
next
  case (5 v)
  then show ?case using Enqueue_inv [of v] by (auto intro!: task_inv_pc simp: Enqueue_def)
next
  case (6 v mb)
  then show ?case
    by (auto simp: task_inv_def answered_def Notify_def contents_def mb_ok_def mb_limit_def split: if_splits)
qed (auto intro: Enqueue_inv task_inv_pc task_retrieve_inv)

lemma task_init_inv: "task_init t \<Longrightarrow> task_inv t"
  by (simp add: task_init_def NewPeriodicTask_def task_inv_def answered_def)

interpretation tasks: invariant_system task_init task_step task_inv
  by unfold_locales (rule task_init_inv, assumption, rule task_step_inv)

text \<open>
  The goroutine's own steps to a run of the task function, from its \<^verbatim>\<open>select\<close> with a pending notification.
\<close>

lemma run_follows:
  assumes "task_inv t" "pt_pc t = P_select" "contents (pt_mailbox t) \<noteq> []"
  shows "\<exists>t'. task_step\<^sup>*\<^sup>* t t' \<and> pt_pc t' = P_run \<and> pt_runs t' = pt_requests t # pt_runs t \<and> pt_requests t' = pt_requests t"
proof -
  from assms obtain c: "contents (pt_mailbox t) = [Some ()]" and n: "mb_notify (pt_mailbox t)"
    by (auto simp: task_inv_def)
  let ?mb = "(pt_mailbox t)\<lparr>mb_notify := False\<rparr>"
  let ?u = "t\<lparr>pt_mailbox := ?mb, pt_pc := P_retrieve\<rparr>"
  have "task_step t ?u" using assms(2) n by (intro task_notified) (auto simp: Notify_def)
  moreover have "task_step ?u (task_retrieve ?u)" by (rule task_retrieved) simp
  moreover have "contents ?mb = [Some ()]" using c by (simp add: contents_def)
  then obtain mb' where "Retrieve ?mb = (Some (), mb')" using Retrieve_oldest [of ?mb] by blast
  then have "pt_pc (task_retrieve ?u) = P_run" "pt_runs (task_retrieve ?u) = pt_requests t # pt_runs t"
    "pt_requests (task_retrieve ?u) = pt_requests t" by (simp_all add: task_retrieve_def)
  ultimately show ?thesis by (meson converse_rtranclp_into_rtranclp r_into_rtranclp)
qed

section \<open>Property\<close>

text \<open>
  C29: No request is lost and none is run twice: when the goroutine is back at its \<^verbatim>\<open>select\<close>, either the last run of the
  task started after the last request (tick or \<^verbatim>\<open>Enqueue\<close>), or the goroutine can go on to such a run without
  anyone's help. Requests coalesce: each run answers at least one new request, so there are never more
  runs than requests.
\<close>

theorem periodic_task_runs_every_request:
  assumes "reachable task_init task_step t" and "pt_pc t = P_select"
  shows "(answered t \<or> (\<exists>t'. task_step\<^sup>*\<^sup>* t t' \<and> pt_pc t' = P_run \<and> pt_runs t' = pt_requests t # pt_runs t
            \<and> pt_requests t' = pt_requests t))
    \<and> (Notify (pt_mailbox t) = None \<longrightarrow> answered t)
    \<and> length (pt_runs t) \<le> pt_requests t"
proof -
  have inv: "task_inv t" using assms(1) by (rule tasks.reachable_inv)
  have le: "sorted_wrt (>) (rs @ [0]) \<Longrightarrow> length rs \<le> (case rs of [] \<Rightarrow> 0 | r # _ \<Rightarrow> r)" for rs :: "nat list"
    by (induction rs) (auto split: list.splits)
  have "length (pt_runs t) \<le> pt_requests t"
    using inv le [of "pt_runs t"] by (auto simp: task_inv_def answered_def)
  moreover have "answered t \<or> contents (pt_mailbox t) \<noteq> []" "Notify (pt_mailbox t) = None \<longrightarrow> answered t"
    using inv assms(2) by (auto simp: task_inv_def Notify_def)
  ultimately show ?thesis using run_follows [OF inv assms(2)] by blast
qed

theorem periodic_task_runs_every_request_witness:
  "\<exists>t'. task_step\<^sup>*\<^sup>* (Enqueue (Enqueue NewPeriodicTask)) t' \<and> pt_pc t' = P_run \<and> pt_runs t' = [2] \<and> pt_requests t' = 2"
proof -
  have "reachable task_init task_step (Enqueue (Enqueue NewPeriodicTask))"
    by (rule reachable_step [OF reachable_step [OF reachable_init]]) (auto simp: task_init_def intro: task_Enqueue)
  from periodic_task_runs_every_request [OF this] show ?thesis
    by (simp add: answered_def Enqueue_def NewPeriodicTask_def numeral_2_eq_2)
qed

end
