(* ===== verification/Cedar_Values.thy ===== *)
theory Cedar_Values
  imports Cedar_Text
begin

text \<open>
  The small helpers: \<^verbatim>\<open>utils/misc.go\<close> (look-up of a key path in decoded JSON, random strings), \<^verbatim>\<open>utils/strings.go\<close>,
  \<^verbatim>\<open>utils/state_uri.go\<close> and \<^verbatim>\<open>errors/errors.go\<close>. Strings are lists of bytes.
\<close>

section \<open>Key paths\<close>

text \<open>
  An \<^verbatim>\<open>interface{}\<close> as \<^verbatim>\<open>GetValue\<close> sees it: a \<^verbatim>\<open>map[string]interface{}\<close>, a \<^verbatim>\<open>[]interface{}\<close>, anything else.
\<close>

datatype 'a jsvalue = V_map "string \<rightharpoonup> 'a jsvalue" | V_slice "'a jsvalue list" | V_other 'a

text \<open>\<^verbatim>\<open>strconv.ParseInt(s, 10, 64)\<close>; every error is \<open>None\<close>.\<close>

definition ParseInt :: "string \<Rightarrow> int option" where
  "ParseInt s =
     (case s of
        [] \<Rightarrow> None
      | c # cs \<Rightarrow>
          let neg = (c = CHR ''-''); ds = (if c = CHR ''-'' \<or> c = CHR ''+'' then cs else s)
          in if ds = [] then None
             else (case digits_value ds 0 of
                     None \<Rightarrow> None
                   | Some n \<Rightarrow> if \<not> neg \<and> n \<ge> 2 ^ 63 \<or> neg \<and> n > 2 ^ 63 then None
                              else Some (if neg then - int n else int n)))"

datatype 'a lookup = Found 'a | Missing | Panicked

fun GetValue :: "'a jsvalue \<Rightarrow> string list \<Rightarrow> 'a jsvalue lookup" where
  "GetValue x [] = Found x"
| "GetValue x (key # keypath) =
     (case x of
        V_map asMap \<Rightarrow> (case asMap key of None \<Rightarrow> Missing | Some y \<Rightarrow> GetValue y keypath)
      | V_slice asSlice \<Rightarrow>
          (case ParseInt key of
             None \<Rightarrow> Missing
           | Some sliceIdx \<Rightarrow>
               if sliceIdx > int (length asSlice) - 1 then Missing
               else if sliceIdx < 0 then Panicked
               else GetValue (asSlice ! nat sliceIdx) keypath)
      | V_other _ \<Rightarrow> Missing)"

text \<open>Which value a key path leads to.\<close>

inductive leads_to :: "'a jsvalue \<Rightarrow> string list \<Rightarrow> 'a jsvalue \<Rightarrow> bool" where
  leads_here: "leads_to x [] x"
| leads_key: "m k = Some y \<Longrightarrow> leads_to y ks z \<Longrightarrow> leads_to (V_map m) (k # ks) z"
| leads_index: "ParseInt k = Some i \<Longrightarrow> 0 \<le> i \<Longrightarrow> nat i < length xs \<Longrightarrow> leads_to (xs ! nat i) ks z \<Longrightarrow>
     leads_to (V_slice xs) (k # ks) z"

inductive_simps leads_to_simps:
  "leads_to x [] y" "leads_to (V_map m) (k # ks) z" "leads_to (V_slice xs) (k # ks) z" "leads_to (V_other a) (k # ks) z"

lemma GetValue_Found: "GetValue x ks = Found y \<longleftrightarrow> leads_to x ks y"
proof (induction ks arbitrary: x)
  case (Cons k ks)
  then show ?case
    by (cases x) (auto simp: leads_to_simps nat_less_iff split: option.splits)
qed (auto simp: leads_to_simps)

text \<open>A path that leads to a slice and goes on with a negative index.\<close>

definition negative_index :: "'a jsvalue \<Rightarrow> string list \<Rightarrow> bool" where
  "negative_index x ks \<longleftrightarrow>
     (\<exists>ks1 k ks2 xs i. ks = ks1 @ k # ks2 \<and> leads_to x ks1 (V_slice xs) \<and> ParseInt k = Some i \<and> i < 0)"

lemma negative_index_Nil [simp]: "\<not> negative_index x []"
  by (simp add: negative_index_def)

lemma negative_index_Cons:
  "negative_index x (k # ks) \<longleftrightarrow>
     (\<exists>xs i. x = V_slice xs \<and> ParseInt k = Some i \<and> i < 0) \<or> (\<exists>y. leads_to x [k] y \<and> negative_index y ks)"
proof
  assume "negative_index x (k # ks)"
  then obtain ks1 k' ks2 xs i where s: "k # ks = ks1 @ k' # ks2" "leads_to x ks1 (V_slice xs)" "ParseInt k' = Some i" "i < 0"
    by (auto simp: negative_index_def)
  show "(\<exists>xs i. x = V_slice xs \<and> ParseInt k = Some i \<and> i < 0) \<or> (\<exists>y. leads_to x [k] y \<and> negative_index y ks)"
  proof (cases ks1)
    case Nil
    with s show ?thesis by (auto simp: leads_to_simps)
  next
    case (Cons k1 ks1')
    with s have "leads_to x (k # ks1') (V_slice xs)" "ks = ks1' @ k' # ks2" by auto
    from this(1) obtain y where "leads_to x [k] y" "leads_to y ks1' (V_slice xs)"
      by (cases rule: leads_to.cases) (auto intro: leads_to.intros)
    moreover from this(2) \<open>ks = ks1' @ k' # ks2\<close> s(3,4) have "negative_index y ks"
      unfolding negative_index_def by blast
    ultimately show ?thesis by blast
  qed
next
  assume "(\<exists>xs i. x = V_slice xs \<and> ParseInt k = Some i \<and> i < 0) \<or> (\<exists>y. leads_to x [k] y \<and> negative_index y ks)"
  then show "negative_index x (k # ks)"
  proof (elim disjE exE conjE)
    fix xs i assume "x = V_slice xs" "ParseInt k = Some i" "i < 0"
    moreover have "k # ks = [] @ k # ks" by simp
    ultimately show ?thesis unfolding negative_index_def using leads_here by blast
  next
    fix y assume y: "leads_to x [k] y" "negative_index y ks"
    then obtain ks1 k' ks2 xs i where s: "ks = ks1 @ k' # ks2" "leads_to y ks1 (V_slice xs)" "ParseInt k' = Some i" "i < 0"
      by (auto simp: negative_index_def)
    have "leads_to x (k # ks1) (V_slice xs)"
      using y(1) s(2) by (cases x) (auto simp: leads_to_simps)
    moreover have "k # ks = (k # ks1) @ k' # ks2" using s(1) by simp
    ultimately show ?thesis unfolding negative_index_def using s(3,4) by blast
  qed
qed

lemma GetValue_Panicked: "GetValue x ks = Panicked \<longleftrightarrow> negative_index x ks"
proof (induction ks arbitrary: x)
  case (Cons k ks)
  then show ?case
    by (cases x) (auto simp: negative_index_Cons leads_to_simps nat_less_iff split: option.splits)
qed simp

text \<open>
  C32: \<^verbatim>\<open>GetValue\<close> finds exactly the value that the key path leads to, through maps by key and through slices by decimal
  index; it panics exactly when the path leads to a slice and goes on with a negative index (on any slice,
  the empty one included), instead of reporting that there is no such value.
\<close>

theorem GetValue_follows_path:
  "(GetValue x ks = Found y \<longleftrightarrow> leads_to x ks y) \<and> (GetValue x ks = Panicked \<longleftrightarrow> negative_index x ks)"
  by (simp add: GetValue_Found GetValue_Panicked)

section \<open>Strings\<close>

fun filter_loop :: "string list \<Rightarrow> string list \<Rightarrow> string list" where
  "filter_loop [] filtered = filtered"
| "filter_loop (x # s) filtered = (if x = [] then filter_loop s filtered else filter_loop s (filtered @ [x]))"

definition FilterEmptyStrings :: "string list \<Rightarrow> string list" where
  "FilterEmptyStrings s = filter_loop s []"

lemma filter_loop_filter: "filter_loop s acc = acc @ filter (\<lambda>x. x \<noteq> []) s"
  by (induction s arbitrary: acc) auto

lemma FilterEmptyStrings_filter: "FilterEmptyStrings s = filter (\<lambda>x. x \<noteq> []) s"
  by (simp add: FilterEmptyStrings_def filter_loop_filter)

text \<open>\<open>None\<close> is the panic of a slice expression with a negative bound.\<close>

definition TrimStringToLen :: "string \<Rightarrow> int \<Rightarrow> string option" where
  "TrimStringToLen s n =
     (if int (length s) \<le> n then Some s else if n < 0 then None else Some (take (nat n) s @ ''...''))"

lemma TrimStringToLen_length:
  "0 \<le> n \<Longrightarrow> \<exists>t. TrimStringToLen s n = Some t \<and> int (length t) \<le> n + 3 \<and> take (nat n) t = take (nat n) s"
  by (auto simp: TrimStringToLen_def)

text \<open>\<^verbatim>\<open>strings.Split\<close> with a separator of one byte.\<close>

fun Split :: "char \<Rightarrow> string \<Rightarrow> string list" where
  "Split c [] = [[]]"
| "Split c (x # s) = (if x = c then [] # Split c s else (x # hd (Split c s)) # tl (Split c s))"

lemma Split_nonempty [simp]: "Split c s \<noteq> []"
  by (cases s) auto

lemma hd_Split: "hd (Split c s) = takeWhile (\<lambda>x. x \<noteq> c) s"
  by (induction s) auto

lemma Split_no_sep: "c \<notin> set s \<Longrightarrow> Split c s = [s]"
  by (induction s) auto

lemma last_Split_append: "c \<notin> set t \<Longrightarrow> last (Split c (s @ c # t)) = t"
proof (induction s)
  case (Cons x s)
  have "tl (Split c (s @ c # t)) \<noteq> []" by (induction s) auto
  with Cons show ?case by (auto simp: last_tl)
qed (simp add: Split_no_sep)

lemma Split_concat: "s = hd (Split c s) @ concat (map (\<lambda>p. c # p) (tl (Split c s)))"
proof (induction s)
  case (Cons x s)
  then show ?case by (cases "Split c s") auto
qed simp

lemma Split_parts: "p \<in> set (Split c s) \<Longrightarrow> c \<notin> set p"
proof (induction s arbitrary: p)
  case (Cons x s)
  then show ?case by (cases "Split c s") (auto split: if_splits)
qed simp

lemma last_Split: "last (Split c s) = t \<longleftrightarrow> c \<notin> set t \<and> (s = t \<or> (\<exists>p. s = p @ c # t))"
proof
  assume l: "last (Split c s) = t"
  have "last (Split c s) \<in> set (Split c s)" by (rule last_in_set) simp
  from Split_parts [OF this] l have "c \<notin> set t" by simp
  moreover have "s = t \<or> (\<exists>p. s = p @ c # t)"
  proof (cases "tl (Split c s)" rule: rev_cases)
    case Nil
    then have "Split c s = [hd (Split c s)]" by (cases "Split c s") auto
    with l Split_concat [of s c] Nil show ?thesis by (metis append_Nil2 concat.simps(1) last.simps list.map(1))
  next
    case (snoc ps q)
    then have sp: "Split c s = hd (Split c s) # ps @ [q]" by (cases "Split c s") auto
    from arg_cong [OF this, of last] l have "q = t" by simp
    with Split_concat [of s c] snoc have "s = (hd (Split c s) @ concat (map ((#) c) ps)) @ c # t" by simp
    then show ?thesis by blast
  qed
  ultimately show "c \<notin> set t \<and> (s = t \<or> (\<exists>p. s = p @ c # t))" by simp
next
  assume "c \<notin> set t \<and> (s = t \<or> (\<exists>p. s = p @ c # t))"
  then show "last (Split c s) = t" by (auto simp: Split_no_sep last_Split_append)
qed

definition IsLocalStateURI :: "string \<Rightarrow> bool" where
  "IsLocalStateURI stateURI =
     (let stateURIParts = Split (CHR ''/'') stateURI
      in if length stateURIParts = 0 then False
         else let hostnameParts = Split (CHR ''.'') (stateURIParts ! 0)
              in if length hostnameParts = 0 then False
                 else hostnameParts ! (length hostnameParts - 1) = ''local'')"

text \<open>
  A state URI is local exactly when its host, what precedes the first slash, is \<^verbatim>\<open>local\<close> or ends with \<^verbatim>\<open>.local\<close>.
\<close>

theorem IsLocalStateURI_iff:
  "IsLocalStateURI s \<longleftrightarrow>
     takeWhile (\<lambda>c. c \<noteq> CHR ''/'') s = ''local'' \<or> (\<exists>p. takeWhile (\<lambda>c. c \<noteq> CHR ''/'') s = p @ ''.local'')"
proof -
  have "IsLocalStateURI s \<longleftrightarrow> last (Split (CHR ''.'') (takeWhile (\<lambda>c. c \<noteq> CHR ''/'') s)) = ''local''"
    by (simp add: IsLocalStateURI_def Let_def last_conv_nth hd_conv_nth flip: hd_Split)
  then show ?thesis by (simp add: last_Split)
qed

section \<open>Random strings, copies, errors\<close>

definition letters :: string where
  "letters = ''abcdefghijklmnopqrstuvwxyzABCDEFGHIJKLMNOPQRSTUVWXYZ0123456789''"

text \<open>\<open>rnd i\<close> is what the \<open>i\<close>-th call of \<^verbatim>\<open>rand.Intn\<close> (or the \<open>i\<close>-th byte of \<^verbatim>\<open>rand.Read\<close>) gives; a negative length panics.\<close>

definition RandomString :: "(nat \<Rightarrow> nat) \<Rightarrow> int \<Rightarrow> string option" where
  "RandomString rnd n = (if n < 0 then None else Some (map (\<lambda>i. letters ! rnd i) [0..<nat n]))"

definition RandomBytes :: "(nat \<Rightarrow> byte) \<Rightarrow> int \<Rightarrow> bytes option" where
  "RandomBytes rnd n = (if n < 0 then None else Some (map rnd [0..<nat n]))"

lemma RandomString_letters:
  assumes "RandomString rnd n = Some s" "\<And>i. rnd i < 62"
  shows "int (length s) = n \<and> set s \<subseteq> set letters"
proof -
  have "length letters = 62" by code_simp
  with assms show ?thesis by (auto simp: RandomString_def split: if_splits)
qed

text \<open>\<^verbatim>\<open>json.Marshal\<close> and \<^verbatim>\<open>json.Unmarshal\<close> are arguments; \<open>None\<close> is an error of theirs, and a panic of \<^verbatim>\<open>DeepCopyJSValue\<close>.\<close>

definition DeepCopyJSValue :: "('v \<Rightarrow> bytes option) \<Rightarrow> (bytes \<Rightarrow> 'v option) \<Rightarrow> 'v \<Rightarrow> 'v option" where
  "DeepCopyJSValue marshal unmarshal val =
     (case marshal val of None \<Rightarrow> None | Some bs \<Rightarrow> (case unmarshal bs of None \<Rightarrow> None | Some copied \<Rightarrow> Some copied))"

definition PrettyJSON :: "('v \<Rightarrow> bytes option) \<Rightarrow> 'v \<Rightarrow> bytes" where
  "PrettyJSON marshal_indent x = (case marshal_indent x of None \<Rightarrow> [] | Some j \<Rightarrow> j)"

text \<open>The errors that the package declares, by their texts; \<open>New\<close> is \<^verbatim>\<open>errors.New\<close> of \<^verbatim>\<open>github.com/pkg/errors\<close>.\<close>

record 'e package_errors =
  Err403 :: 'e
  Err404 :: 'e
  ErrUnimplemented :: 'e
  ErrConnection :: 'e
  ErrClosed_errors :: 'e
  ErrUnsupported :: 'e

definition pkg_errors :: "(string \<Rightarrow> 'e) \<Rightarrow> 'e package_errors" where
  "pkg_errors New =
     \<lparr>Err403 = New ''403: nope'', Err404 = New ''not found'', ErrUnimplemented = New ''unimplemented'',
      ErrConnection = New ''connection failed'', ErrClosed_errors = New ''closed'', ErrUnsupported = New ''unsupported''\<rparr>"

text \<open>
  \<^verbatim>\<open>Annotate\<close> and \<^verbatim>\<open>AddStack\<close> on the value behind their pointer; \<open>None\<close> is the \<^verbatim>\<open>nil\<close> error, \<open>wrapf\<close> and \<open>withStack\<close> are the
  functions of the package \<^verbatim>\<open>github.com/pkg/errors\<close> on an error.
\<close>

definition Annotate :: "('e \<Rightarrow> string \<Rightarrow> 'a list \<Rightarrow> 'e) \<Rightarrow> 'e option \<Rightarrow> string \<Rightarrow> 'a list \<Rightarrow> 'e option" where
  "Annotate wrapf err msg args = (case err of None \<Rightarrow> None | Some e \<Rightarrow> Some (wrapf e msg args))"

definition AddStack :: "('e \<Rightarrow> 'e) \<Rightarrow> 'e option \<Rightarrow> 'e option" where
  "AddStack withStack err = (case err of None \<Rightarrow> None | Some e \<Rightarrow> Some (withStack e))"

end
