(* ===== verification/Cedar_Paths.thy ===== *)
theory Cedar_Paths
  imports Cedar_Values Cedar_Base32
begin

text \<open>
  Path names: what \<^verbatim>\<open>utils/files.go\<close> uses of the package \<^verbatim>\<open>path\<close>, and its own string functions, \<^verbatim>\<open>MakeFSFriendly\<close>
  and the names that \<^verbatim>\<open>CreateTemp\<close> makes.
\<close>

section \<open>The package path\<close>

definition IsAbs :: "string \<Rightarrow> bool" where
  "IsAbs p = (case p of [] \<Rightarrow> False | c # _ \<Rightarrow> c = CHR ''/'')"

text \<open>The rules of \<^verbatim>\<open>path.Clean\<close> on the elements of a path, with the elements kept so far in reverse.\<close>

fun clean_loop :: "bool \<Rightarrow> string list \<Rightarrow> string list \<Rightarrow> string list" where
  "clean_loop rooted out [] = rev out"
| "clean_loop rooted out (x # xs) =
     (if x = '''' \<or> x = ''.'' then clean_loop rooted out xs
      else if x = ''..'' then
        (case out of
           [] \<Rightarrow> clean_loop rooted (if rooted then [] else [''..'']) xs
         | y # out' \<Rightarrow> clean_loop rooted (if y = ''..'' then ''..'' # out else out') xs)
      else clean_loop rooted (x # out) xs)"

fun join_slash :: "string list \<Rightarrow> string" where
  "join_slash [] = []"
| "join_slash [x] = x"
| "join_slash (x # xs) = x @ CHR ''/'' # join_slash xs"

definition Clean :: "string \<Rightarrow> string" where
  "Clean p =
     (let xs = clean_loop (IsAbs p) [] (Split (CHR ''/'') p)
      in if IsAbs p then CHR ''/'' # join_slash xs else if xs = [] then ''.'' else join_slash xs)"

definition Join :: "string \<Rightarrow> string \<Rightarrow> string" where
  "Join a b =
     (if a = [] \<and> b = [] then []
      else if a = [] then Clean b else if b = [] then Clean a else Clean (a @ CHR ''/'' # b))"

text \<open>
  The file that a path names, as the list of directories from the root: symbolic links are not modelled, so
  \<^verbatim>\<open>..\<close> is the directory before. \<open>cwd\<close> is the working directory.
\<close>

definition resolve :: "string list \<Rightarrow> string \<Rightarrow> string list" where
  "resolve cwd p = clean_loop True [] ((if IsAbs p then [] else cwd) @ Split (CHR ''/'') p)"

text \<open>Elements that stand for themselves.\<close>

definition plain :: "string \<Rightarrow> bool" where
  "plain x \<longleftrightarrow> x \<noteq> '''' \<and> x \<noteq> ''.'' \<and> x \<noteq> ''..'' \<and> CHR ''/'' \<notin> set x"

lemma clean_loop_plain: "list_all plain xs \<Longrightarrow> clean_loop r out (xs @ ys) = clean_loop r (rev xs @ out) ys"
  by (induction xs arbitrary: out) (auto simp: plain_def)

lemma Split_append_sep: "CHR ''/'' \<notin> set x \<Longrightarrow> Split (CHR ''/'') (x @ CHR ''/'' # s) = x # Split (CHR ''/'') s"
  by (induction x) auto

lemma Split_join: "xs \<noteq> [] \<Longrightarrow> list_all plain xs \<Longrightarrow> Split (CHR ''/'') (join_slash xs) = xs"
  by (induction xs rule: join_slash.induct) (auto simp: plain_def Split_append_sep Split_no_sep)

text \<open>An absolute path of plain elements is clean and names the file with those elements.\<close>

definition abs_path :: "string list \<Rightarrow> string" where
  "abs_path xs = CHR ''/'' # join_slash xs"

lemma clean_loop_abs:
  assumes "list_all plain xs"
  shows "clean_loop True [] (Split (CHR ''/'') (abs_path xs)) = xs"
proof (cases "xs = []")
  case True
  then show ?thesis by (simp add: abs_path_def)
next
  case False
  with assms clean_loop_plain [of xs True "[]" "[]"] show ?thesis
    by (simp add: abs_path_def Split_join)
qed

lemma resolve_abs_path: "list_all plain xs \<Longrightarrow> resolve cwd (abs_path xs) = xs"
  using clean_loop_abs [of xs] by (simp add: resolve_def IsAbs_def abs_path_def)

lemma Clean_abs_path: "list_all plain xs \<Longrightarrow> Clean (abs_path xs) = abs_path xs"
  using clean_loop_abs [of xs] by (simp add: Clean_def IsAbs_def abs_path_def)

text \<open>\<^verbatim>\<open>path.Dir\<close>, and \<^verbatim>\<open>GetExePath\<close> on what \<^verbatim>\<open>os.Executable\<close> gives.\<close>

definition path_Dir :: "string \<Rightarrow> string" where
  "path_Dir p = Clean (rev (dropWhile (\<lambda>c. c \<noteq> CHR ''/'') (rev p)))"

definition GetExePath :: "'e + string \<Rightarrow> 'e + string" where
  "GetExePath hostExe = (case hostExe of Inl err \<Rightarrow> Inl err | Inr exe \<Rightarrow> Inr (path_Dir exe))"

lemma path_Dir_split: "CHR ''/'' \<notin> set x \<Longrightarrow> path_Dir (p @ CHR ''/'' # x) = Clean (p @ ''/'')"
proof -
  assume "CHR ''/'' \<notin> set x"
  then have "dropWhile (\<lambda>c. c \<noteq> CHR ''/'') (rev x @ CHR ''/'' # rev p) = CHR ''/'' # rev p"
    by (subst dropWhile_append2) auto
  then show ?thesis by (simp add: path_Dir_def)
qed

section \<open>MakeFSFriendly\<close>

text \<open>
  The table \<^verbatim>\<open>remapCharset\<close>. All its keys are ASCII, so the loop over the runes of a valid UTF-8 string is one
  over its bytes. No replacement is the rune 0, so the check for it always succeeds.
\<close>

definition remapCharset :: "char \<Rightarrow> char option" where
  "remapCharset c =
     (if c = CHR '' '' \<or> c = CHR ''.'' \<or> c = CHR ''?'' then Some (CHR ''-'')
      else if c = CHR 0x5C \<or> c = CHR ''/'' \<or> c = CHR ''&'' then Some (CHR ''+'')
      else None)"

fun friendly_loop :: "string \<Rightarrow> string \<Rightarrow> string" where
  "friendly_loop [] b = b"
| "friendly_loop (r # name) b =
     (case remapCharset r of
        Some replace \<Rightarrow> friendly_loop name (if replace \<noteq> CHR 0x00 then b @ [replace] else b)
      | None \<Rightarrow> friendly_loop name (b @ [r]))"

definition string_of_bytes :: "bytes \<Rightarrow> string" where
  "string_of_bytes bs = map (\<lambda>b. char_of (unat b)) bs"

definition MakeFSFriendly :: "string \<Rightarrow> bytes \<Rightarrow> string" where
  "MakeFSFriendly name suffix =
     (let b = friendly_loop name []
      in if length suffix > 0 then b @ '' '' @ string_of_bytes (base32_encode suffix) else b)"

definition friendly_char :: "char \<Rightarrow> char" where
  "friendly_char c = (case remapCharset c of Some d \<Rightarrow> d | None \<Rightarrow> c)"

lemma friendly_loop_map: "friendly_loop s b = b @ map friendly_char s"
  by (induction s arbitrary: b) (auto simp: friendly_char_def remapCharset_def)

lemma friendly_char_safe: "friendly_char c \<notin> set '' .?/&'' \<and> friendly_char c \<noteq> CHR 0x5C"
  by (auto simp: friendly_char_def remapCharset_def)

lemma byte_of_char_of [simp]: "byte_of (char_of (unat b)) = b"
  using unsigned_less [of b, where ?'a = nat] by (simp add: byte_of_def)

lemma text_of_string_of_bytes [simp]: "text_of (string_of_bytes bs) = bs"
  by (induction bs) (simp_all add: text_of_def string_of_bytes_def)

lemma alphabet_safe: "i < 32 \<Longrightarrow> char_of (unat (GeohashBase32Alphabet ! i)) \<notin> set '' .?/&''
    \<and> char_of (unat (GeohashBase32Alphabet ! i)) \<noteq> CHR 0x5C"
proof -
  have *: "list_all (\<lambda>b. (char_of (unat b) :: char) \<notin> set '' .?/&'' \<and> (char_of (unat b) :: char) \<noteq> CHR 0x5C) GeohashBase32Alphabet"
    by code_simp
  have "length GeohashBase32Alphabet = 32" by code_simp
  moreover assume "i < 32"
  ultimately show ?thesis using * by (simp add: list_all_length)
qed

lemma encoded_safe: "c \<in> set (string_of_bytes (base32_encode xs)) \<Longrightarrow> c \<notin> set '' .?/&'' \<and> c \<noteq> CHR 0x5C"
  using encoded_chars alphabet_safe by (fastforce simp: string_of_bytes_def)

text \<open>
  A name made by \<^verbatim>\<open>MakeFSFriendly\<close> contains none of the characters it replaces, except for the one blank before the
  suffix; and from a name with a suffix the mapped name and the bytes of the suffix can be read back.
\<close>

theorem MakeFSFriendly_safe:
  "set (MakeFSFriendly name suffix) \<inter> set ''.?/&'' = {} \<and> CHR 0x5C \<notin> set (MakeFSFriendly name suffix)
   \<and> takeWhile (\<lambda>c. c \<noteq> CHR '' '') (MakeFSFriendly name suffix) = MakeFSFriendly name []
   \<and> (suffix = [] \<or> base32_decode (text_of (tl (dropWhile (\<lambda>c. c \<noteq> CHR '' '') (MakeFSFriendly name suffix)))) = (suffix, True))"
proof -
  let ?n = "map friendly_char name" and ?e = "string_of_bytes (base32_encode suffix)"
  have n: "c \<in> set ?n \<Longrightarrow> c \<notin> set '' .?/&'' \<and> c \<noteq> CHR 0x5C" for c using friendly_char_safe by auto
  have r: "MakeFSFriendly name suffix = (if suffix = [] then ?n else ?n @ CHR '' '' # ?e)" "MakeFSFriendly name [] = ?n"
    by (auto simp: MakeFSFriendly_def friendly_loop_map)
  have "takeWhile (\<lambda>c. c \<noteq> CHR '' '') ?n = ?n" using n by (intro takeWhile_eq_all_conv [THEN iffD2]) auto
  moreover have "takeWhile (\<lambda>c. c \<noteq> CHR '' '') (?n @ CHR '' '' # ?e) = ?n" "dropWhile (\<lambda>c. c \<noteq> CHR '' '') (?n @ CHR '' '' # ?e) = CHR '' '' # ?e"
    using n by (simp_all add: takeWhile_append dropWhile_append)
  ultimately show ?thesis
    using n encoded_safe [of _ suffix] by (cases "suffix = []") (auto simp: r base32_decode_encode)
qed

section \<open>The names of temporary files\<close>

text \<open>\<^verbatim>\<open>strconv.FormatInt(n, 32)\<close> of a number that is not negative.\<close>

definition digit32 :: "nat \<Rightarrow> char" where
  "digit32 d = (if d < 10 then char_of (48 + d) else char_of (87 + d))"

fun format32 :: "nat \<Rightarrow> string" where
  "format32 n = (if n < 32 then [digit32 n] else format32 (n div 32) @ [digit32 (n mod 32)])"

declare format32.simps [simp del]

text \<open>\<^verbatim>\<open>pattern[:pos]\<close> and \<^verbatim>\<open>pattern[pos+1:]\<close> for the last star, or the whole pattern.\<close>

definition split_pattern :: "string \<Rightarrow> string \<times> string" where
  "split_pattern pattern =
     (if CHR ''*'' \<in> set pattern
      then (let suffix = rev (takeWhile (\<lambda>c. c \<noteq> CHR ''*'') (rev pattern))
            in (take (length pattern - length suffix - 1) pattern, suffix))
      else (pattern, []))"

definition temp_name :: "string \<Rightarrow> string \<Rightarrow> nat \<Rightarrow> string" where
  "temp_name dir pattern msec =
     (case split_pattern pattern of (prefix, suffix) \<Rightarrow> Join dir prefix @ format32 msec @ suffix)"

lemma split_pattern_star: "CHR ''*'' \<notin> set suffix \<Longrightarrow> split_pattern (prefix @ CHR ''*'' # suffix) = (prefix, suffix)"
proof -
  assume s: "CHR ''*'' \<notin> set suffix"
  then have "takeWhile (\<lambda>c. c \<noteq> CHR ''*'') (rev (prefix @ CHR ''*'' # suffix)) = rev suffix"
    by (simp add: takeWhile_append takeWhile_eq_all_conv [THEN iffD2] takeWhile_append2)
  then show ?thesis by (simp add: split_pattern_def Let_def del: rev_append rev.simps)
qed

end
