(* ===== verification/Cedar_FS.thy ===== *)
theory Cedar_FS
  imports Cedar_Paths
begin

text \<open>
  What \<^verbatim>\<open>utils/files.go\<close> uses of the package \<^verbatim>\<open>os\<close>: a file system of directories and regular files with their modes,
  the process's working directory and umask, and a schedule of faults: each call may fail with any error
  of the system other than those the model produces itself, without effect (a write: after part of the data).
  There are no symbolic links and nobody else changes the file system between two calls.
\<close>

unbundle bit_operations_syntax

section \<open>Modes and flags\<close>

type_synonym filemode = "32 word"

definition ModeDir :: filemode where "ModeDir = push_bit 31 1"
definition ModeSetuid :: filemode where "ModeSetuid = push_bit 23 1"
definition ModeSetgid :: filemode where "ModeSetgid = push_bit 22 1"
definition ModeSticky :: filemode where "ModeSticky = push_bit 20 1"

text \<open>The bits that \<^verbatim>\<open>chmod\<close> and \<^verbatim>\<open>open\<close> take from a mode.\<close>

definition mode_bits :: filemode where
  "mode_bits = 0x1FF OR ModeSetuid OR ModeSetgid OR ModeSticky"

text \<open>\<open>within m perms\<close>: the mode \<open>m\<close> grants nothing that \<open>perms\<close> does not grant.\<close>

definition within :: "filemode \<Rightarrow> filemode \<Rightarrow> bool" where
  "within m perms \<longleftrightarrow> m AND NOT perms = 0"

lemma within_iff: "within m perms \<longleftrightarrow> (\<forall>n. bit m n \<longrightarrow> bit perms n)"
  using bit_imp_le_length [of m] by (auto simp: within_def bit_eq_iff bit_simps)

lemma within_and [simp]: "within (m AND p) m" "within (m AND p) p" "within m m"
  and within_trans: "within a b \<Longrightarrow> within b c \<Longrightarrow> within a c"
  and within_or: "within a (a OR b)"
  by (auto simp: within_iff bit_simps)

type_synonym flags = "32 word"

definition O_RDWR :: flags where "O_RDWR = 2"
definition O_CREATE :: flags where "O_CREATE = 0x40"
definition O_EXCL :: flags where "O_EXCL = 0x80"
definition O_TRUNC :: flags where "O_TRUNC = 0x200"

definition has :: "flags \<Rightarrow> flags \<Rightarrow> bool" where
  "has f b \<longleftrightarrow> f AND b \<noteq> 0"

text \<open>Open for writing: \<^verbatim>\<open>O_WRONLY\<close> is 1.\<close>

definition writes :: "flags \<Rightarrow> bool" where
  "writes f \<longleftrightarrow> f AND 3 \<noteq> 0"

section \<open>The file system\<close>

datatype node = Dir (node_mode: filemode) | File (node_mode: filemode) (file_data: bytes)

text \<open>The errors, with \<^verbatim>\<open>os.IsNotExist\<close> and \<^verbatim>\<open>os.IsExist\<close>.\<close>

datatype os_error = ENotExist | EExist | ENotDir | EIsDir | EOther nat

type_synonym key = "string list"

record fs =
  fs_nodes :: "key \<Rightarrow> node option"
  fs_cwd :: key
  fs_umask :: filemode
  fs_faults :: "(nat \<times> nat) option list"

text \<open>The next fault, if any: its error number and how much a write writes.\<close>

definition next_fault :: "fs \<Rightarrow> (nat \<times> nat) option \<times> fs" where
  "next_fault s = (case fs_faults s of [] \<Rightarrow> (None, s) | f # fs \<Rightarrow> (f, s\<lparr>fs_faults := fs\<rparr>))"

definition faulty :: "(fs \<Rightarrow> (os_error + 'a) \<times> fs) \<Rightarrow> fs \<Rightarrow> (os_error + 'a) \<times> fs" where
  "faulty f s = (case next_fault s of (None, s') \<Rightarrow> f s' | (Some (e, _), s') \<Rightarrow> (Inl (EOther e), s'))"

definition key_of :: "fs \<Rightarrow> string \<Rightarrow> key" where
  "key_of s p = resolve (fs_cwd s) p"

text \<open>The way to a node: every directory before it must be there.\<close>

fun walk :: "(key \<Rightarrow> node option) \<Rightarrow> key \<Rightarrow> key \<Rightarrow> os_error option" where
  "walk n d [] = None"
| "walk n d (x # xs) =
     (case n d of
        None \<Rightarrow> Some ENotExist
      | Some (File _ _) \<Rightarrow> Some ENotDir
      | Some (Dir _) \<Rightarrow> walk n (d @ [x]) xs)"

definition look_up :: "string \<Rightarrow> fs \<Rightarrow> os_error + node option" where
  "look_up p s =
     (if p = [] then Inl ENotExist
      else (case walk (fs_nodes s) [] (key_of s p) of
              Some e \<Rightarrow> Inl e | None \<Rightarrow> Inr (fs_nodes s (key_of s p))))"

definition set_node :: "key \<Rightarrow> node \<Rightarrow> fs \<Rightarrow> fs" where
  "set_node k n s = s\<lparr>fs_nodes := (fs_nodes s)(k \<mapsto> n)\<rparr>"

text \<open>\<^verbatim>\<open>Mode()\<close> and \<^verbatim>\<open>IsDir()\<close> of a \<^verbatim>\<open>FileInfo\<close>.\<close>

definition Mode :: "node \<Rightarrow> filemode" where
  "Mode n = (case n of Dir m \<Rightarrow> m OR ModeDir | File m _ \<Rightarrow> m)"

definition IsDir :: "node \<Rightarrow> bool" where
  "IsDir n = (case n of Dir _ \<Rightarrow> True | File _ _ \<Rightarrow> False)"

definition os_Stat :: "string \<Rightarrow> fs \<Rightarrow> (os_error + node) \<times> fs" where
  "os_Stat p = faulty (\<lambda>s. (case look_up p s of
      Inl e \<Rightarrow> Inl e | Inr None \<Rightarrow> Inl ENotExist | Inr (Some n) \<Rightarrow> Inr n, s))"

definition with_mode :: "filemode \<Rightarrow> node \<Rightarrow> node" where
  "with_mode m n = (case n of Dir _ \<Rightarrow> Dir (m AND mode_bits) | File _ d \<Rightarrow> File (m AND mode_bits) d)"

definition os_Chmod :: "string \<Rightarrow> filemode \<Rightarrow> fs \<Rightarrow> (os_error + unit) \<times> fs" where
  "os_Chmod p m = faulty (\<lambda>s. case look_up p s of
      Inl e \<Rightarrow> (Inl e, s)
    | Inr None \<Rightarrow> (Inl ENotExist, s)
    | Inr (Some n) \<Rightarrow> (Inr (), set_node (key_of s p) (with_mode m n) s))"

definition new_mode :: "filemode \<Rightarrow> fs \<Rightarrow> filemode" where
  "new_mode perms s = perms AND mode_bits AND NOT (fs_umask s)"

text \<open>\<^verbatim>\<open>os.MkdirAll\<close>: the directory \<open>d\<close> and then those on the way from it.\<close>

definition mkdir_one :: "filemode \<Rightarrow> key \<Rightarrow> fs \<Rightarrow> (os_error + unit) \<times> fs" where
  "mkdir_one perms d s =
     (case fs_nodes s d of
        Some (Dir _) \<Rightarrow> (Inr (), s)
      | Some (File _ _) \<Rightarrow> (Inl ENotDir, s)
      | None \<Rightarrow> faulty (\<lambda>s. (Inr (), set_node d (Dir (new_mode perms s)) s)) s)"

fun mkdir_all :: "filemode \<Rightarrow> key \<Rightarrow> key \<Rightarrow> fs \<Rightarrow> (os_error + unit) \<times> fs" where
  "mkdir_all perms d xs s =
     (case mkdir_one perms d s of
        (Inl e, s') \<Rightarrow> (Inl e, s')
      | (Inr _, s') \<Rightarrow> (case xs of [] \<Rightarrow> (Inr (), s') | x # xs' \<Rightarrow> mkdir_all perms (d @ [x]) xs' s'))"

declare mkdir_all.simps [simp del]

definition os_MkdirAll :: "string \<Rightarrow> filemode \<Rightarrow> fs \<Rightarrow> (os_error + unit) \<times> fs" where
  "os_MkdirAll p perms s = (if p = [] then (Inl ENotExist, s) else mkdir_all perms [] (key_of s p) s)"

text \<open>
  \<^verbatim>\<open>os.OpenFile\<close>; the result stands for the open file. Files are not moved or removed, so its key does.
\<close>

definition os_OpenFile :: "string \<Rightarrow> flags \<Rightarrow> filemode \<Rightarrow> fs \<Rightarrow> (os_error + key) \<times> fs" where
  "os_OpenFile p fl perm = faulty (\<lambda>s.
     let k = key_of s p
     in case look_up p s of
          Inl e \<Rightarrow> (Inl e, s)
        | Inr (Some n) \<Rightarrow>
            if has fl O_CREATE \<and> has fl O_EXCL then (Inl EExist, s)
            else (case n of
                    Dir _ \<Rightarrow> if writes fl \<or> has fl O_CREATE \<or> has fl O_TRUNC then (Inl EIsDir, s) else (Inr k, s)
                  | File m d \<Rightarrow> (Inr k, if has fl O_TRUNC then set_node k (File m []) s else s))
        | Inr None \<Rightarrow>
            if has fl O_CREATE then (Inr k, set_node k (File (new_mode perm s) []) s)
            else (Inl ENotExist, s))"

text \<open>Operations on an open file. A write on a file just opened begins at its start.\<close>

definition File_Stat :: "key \<Rightarrow> fs \<Rightarrow> (os_error + node) \<times> fs" where
  "File_Stat k = faulty (\<lambda>s. (case fs_nodes s k of None \<Rightarrow> Inl ENotExist | Some n \<Rightarrow> Inr n, s))"

definition File_Chmod :: "key \<Rightarrow> filemode \<Rightarrow> fs \<Rightarrow> (os_error + unit) \<times> fs" where
  "File_Chmod k m = faulty (\<lambda>s. case fs_nodes s k of
      None \<Rightarrow> (Inl ENotExist, s) | Some n \<Rightarrow> (Inr (), set_node k (with_mode m n) s))"

definition put_data :: "key \<Rightarrow> bytes \<Rightarrow> fs \<Rightarrow> fs" where
  "put_data k xs s =
     (case fs_nodes s k of
        Some (File m d) \<Rightarrow> set_node k (File m (xs @ drop (length xs) d)) s
      | _ \<Rightarrow> s)"

definition File_Write :: "key \<Rightarrow> bytes \<Rightarrow> fs \<Rightarrow> (os_error + unit) \<times> fs" where
  "File_Write k xs s =
     (case next_fault s of
        (None, s') \<Rightarrow> (Inr (), put_data k xs s')
      | (Some (e, n), s') \<Rightarrow> (Inl (EOther e), put_data k (take n xs) s'))"

text \<open>
  \<^verbatim>\<open>io.Copy\<close> between two files just opened: it reads what the source holds now, in chunks, and writes them.
\<close>

definition io_Copy :: "key \<Rightarrow> key \<Rightarrow> fs \<Rightarrow> (os_error + unit) \<times> fs" where
  "io_Copy dst src s =
     (case fs_nodes s src of
        Some (File _ d) \<Rightarrow> File_Write dst d s
      | Some (Dir _) \<Rightarrow> (Inl EIsDir, s)
      | None \<Rightarrow> (Inl ENotExist, s))"

lemma set_node_fields [simp]:
  "fs_nodes (set_node k n s) = (fs_nodes s)(k \<mapsto> n)" "fs_cwd (set_node k n s) = fs_cwd s"
  "fs_umask (set_node k n s) = fs_umask s" "fs_faults (set_node k n s) = fs_faults s"
  by (simp_all add: set_node_def)

lemma next_fault_fields:
  "next_fault s = (f, s') \<Longrightarrow> fs_nodes s' = fs_nodes s \<and> fs_cwd s' = fs_cwd s \<and> fs_umask s' = fs_umask s"
  by (auto simp: next_fault_def split: list.splits)

lemma faulty_cases:
  assumes "faulty g s = (r, s')"
  obtains u where "fs_nodes u = fs_nodes s" "fs_cwd u = fs_cwd s" "fs_umask u = fs_umask s" "g u = (r, s')"
  | e where "r = Inl (EOther e)" "fs_nodes s' = fs_nodes s" "fs_cwd s' = fs_cwd s" "fs_umask s' = fs_umask s"
proof -
  obtain f u where n: "next_fault s = (f, u)" by fastforce
  show thesis
  proof (cases f)
    case None
    with assms n have "g u = (r, s')" by (simp add: faulty_def)
    with next_fault_fields [OF n] show thesis by (intro that(1)) simp_all
  next
    case (Some a)
    with assms n have "r = Inl (EOther (fst a))" "s' = u" by (auto simp: faulty_def split: prod.splits)
    with next_fault_fields [OF n] show thesis by (intro that(2)) simp_all
  qed
qed

lemma key_of_cong: "fs_cwd u = fs_cwd s \<Longrightarrow> key_of u p = key_of s p"
  by (simp add: key_of_def)

lemma look_up_cong: "fs_nodes u = fs_nodes s \<Longrightarrow> fs_cwd u = fs_cwd s \<Longrightarrow> look_up p u = look_up p s"
  unfolding look_up_def key_of_def by (simp split: option.split)

lemma look_up_node: "look_up p s = Inr n \<Longrightarrow> fs_nodes s (key_of s p) = n \<and> p \<noteq> []"
  by (auto simp: look_up_def split: if_splits option.splits)

end
