(* ===== verification/Cedar_Files.thy ===== *)
theory Cedar_Files
  imports Cedar_FS
begin

text \<open>
  The file operations of \<^verbatim>\<open>utils/files.go\<close> on the file system of \<^theory_text>\<open>Cedar_FS\<close>: what they promise about permissions,
  directories and temporary files. \<^verbatim>\<open>Close\<close> of a file changes nothing and is left out.
\<close>

section \<open>Operations\<close>

text \<open>An \<^verbatim>\<open>error\<close>: of the system, wrapped, or one of those the file formats; \<open>None\<close> in a result is \<^verbatim>\<open>nil\<close>.\<close>

datatype file_error =
  Os os_error | Wrapped file_error string | NotDirectory string | DoesNotExist string | MustNotExist string

definition DefaultDirPerms :: filemode where
  "DefaultDirPerms = 0x1ED"

definition errors_Wrap :: "file_error option \<Rightarrow> string \<Rightarrow> file_error option" where
  "errors_Wrap err msg = (case err of None \<Rightarrow> None | Some e \<Rightarrow> Some (Wrapped e msg))"

fun err_of :: "(os_error + unit) \<times> fs \<Rightarrow> file_error option \<times> fs" where
  "err_of (Inl e, s) = (Some (Os e), s)"
| "err_of (Inr _, s) = (None, s)"

definition EnsureDirAndMaxPerms :: "string \<Rightarrow> filemode \<Rightarrow> fs \<Rightarrow> file_error option \<times> fs" where
  "EnsureDirAndMaxPerms p perms s =
     (case os_Stat p s of
        (Inl e, s1) \<Rightarrow> if e \<noteq> ENotExist then (Some (Os e), s1) else err_of (os_MkdirAll p perms s1)
      | (Inr stat, s1) \<Rightarrow>
          if \<not> IsDir stat then (Some (NotDirectory p), s1)
          else if Mode stat \<noteq> perms then err_of (os_Chmod p (Mode stat AND perms) s1)
          else (None, s1))"

definition EnsureFileMaxPerms :: "key \<Rightarrow> filemode \<Rightarrow> fs \<Rightarrow> file_error option \<times> fs" where
  "EnsureFileMaxPerms f perms s =
     (case File_Stat f s of
        (Inl e, s1) \<Rightarrow> (Some (Os e), s1)
      | (Inr stat, s1) \<Rightarrow> if Mode stat = perms then (None, s1) else err_of (File_Chmod f (Mode stat AND perms) s1))"

definition WriteFileWithMaxPerms :: "string \<Rightarrow> bytes \<Rightarrow> filemode \<Rightarrow> fs \<Rightarrow> file_error option \<times> fs" where
  "WriteFileWithMaxPerms p data perms s =
     (case os_OpenFile p (O_RDWR OR O_CREATE OR O_TRUNC) perms s of
        (Inl e, s1) \<Rightarrow> (Some (Os e), s1)
      | (Inr f, s1) \<Rightarrow>
          (case EnsureFileMaxPerms f perms s1 of
             (Some e, s2) \<Rightarrow> (Some e, s2)
           | (None, s2) \<Rightarrow> err_of (File_Write f data s2)))"

definition CopyFileWithMaxPerms :: "string \<Rightarrow> string \<Rightarrow> filemode \<Rightarrow> fs \<Rightarrow> file_error option \<times> fs" where
  "CopyFileWithMaxPerms srcPath dstPath perms s =
     (case os_OpenFile srcPath 0 0 s of
        (Inl e, s1) \<Rightarrow> (errors_Wrap (Some (Os e)) ''could not open source file'', s1)
      | (Inr src, s1) \<Rightarrow>
          (case os_OpenFile dstPath (O_RDWR OR O_CREATE OR O_TRUNC) perms s1 of
             (Inl e, s2) \<Rightarrow> (errors_Wrap (Some (Os e)) ''could not open destination file'', s2)
           | (Inr dst, s2) \<Rightarrow>
               (case EnsureFileMaxPerms dst perms s2 of
                  (Some e, s3) \<Rightarrow> (errors_Wrap (Some e) ''could not set file permissions'', s3)
                | (None, s3) \<Rightarrow>
                    (case err_of (io_Copy dst src s3) of
                       (err, s4) \<Rightarrow> (errors_Wrap err ''could not copy file contents'', s4)))))"

definition EnsureFilepathMaxPerms :: "string \<Rightarrow> filemode \<Rightarrow> fs \<Rightarrow> file_error option \<times> fs" where
  "EnsureFilepathMaxPerms p perms s =
     (case os_OpenFile p O_RDWR perms s of
        (Inl e, s1) \<Rightarrow> (Some (Os e), s1)
      | (Inr dst, s1) \<Rightarrow> EnsureFileMaxPerms dst perms s1)"

definition ExpandAndCheckPath :: "string \<Rightarrow> bool \<Rightarrow> fs \<Rightarrow> (file_error + string) \<times> fs" where
  "ExpandAndCheckPath pathname autoCreate s =
     (case (case os_Stat pathname s of
              (Inr _, s1) \<Rightarrow> (None, s1)
            | (Inl e, s1) \<Rightarrow>
                if e = ENotExist
                then (if autoCreate then err_of (os_MkdirAll pathname DefaultDirPerms s1)
                      else (Some (DoesNotExist pathname), s1))
                else (Some (Os e), s1)) of
        (Some err, s2) \<Rightarrow> (Inl err, s2)
      | (None, s2) \<Rightarrow> (Inr pathname, s2))"

definition CreateNewDir :: "string \<Rightarrow> string \<Rightarrow> fs \<Rightarrow> (file_error + string) \<times> fs" where
  "CreateNewDir basePath dirPath s =
     (let pathname = (if IsAbs dirPath then dirPath else Join basePath dirPath)
      in case os_Stat pathname s of
           (r, s1) \<Rightarrow>
             if r \<noteq> Inl ENotExist then (Inl (MustNotExist pathname), s1)
             else (case err_of (os_MkdirAll pathname DefaultDirPerms s1) of
                     (Some e, s2) \<Rightarrow> (Inl e, s2)
                   | (None, s2) \<Rightarrow> (Inr pathname, s2)))"

text \<open>
  The loop of \<^verbatim>\<open>CreateTemp\<close>. \<open>clock i\<close> is what the clock shows in round \<open>i\<close>; \<open>None\<close> says that the loop never ends.
  \<open>tmp\<close> is \<^verbatim>\<open>os.TempDir()\<close>.
\<close>

partial_function (option) temp_loop ::
  "string \<Rightarrow> string \<Rightarrow> flags \<Rightarrow> (nat \<Rightarrow> nat) \<Rightarrow> nat \<Rightarrow> fs \<Rightarrow> ((os_error + key) \<times> fs) option"
where
  [code]: "temp_loop dir pattern fileFlags clock i s =
     (case os_OpenFile (temp_name dir pattern (clock i)) (O_CREATE OR fileFlags) 0x180 s of
        (r, s1) \<Rightarrow> if r = Inl EExist then temp_loop dir pattern fileFlags clock (i + 1) s1 else Some (r, s1))"

definition CreateTemp ::
  "string \<Rightarrow> string \<Rightarrow> string \<Rightarrow> flags \<Rightarrow> (nat \<Rightarrow> nat) \<Rightarrow> fs \<Rightarrow> ((os_error + key) \<times> fs) option"
where
  "CreateTemp tmp dir pattern fileFlags clock s =
     temp_loop (if dir = [] then tmp else dir) pattern fileFlags clock 0 s"

section \<open>What the steps do to the nodes\<close>

lemma flag_simps [simp]:
  "has (O_RDWR OR O_CREATE OR O_TRUNC) O_CREATE" "\<not> has (O_RDWR OR O_CREATE OR O_TRUNC) O_EXCL"
  "has (O_RDWR OR O_CREATE OR O_TRUNC) O_TRUNC" "writes (O_RDWR OR O_CREATE OR O_TRUNC)"
  "\<not> has 0 O_CREATE" "\<not> has 0 O_TRUNC" "\<not> writes 0"
  "\<not> has O_RDWR O_CREATE" "\<not> has O_RDWR O_TRUNC" "writes O_RDWR"
  by (simp_all add: has_def writes_def O_RDWR_def O_CREATE_def O_TRUNC_def O_EXCL_def)

lemma Mode_simps [simp]: "Mode (File m d) = m" "Mode (Dir m) = m OR ModeDir" "IsDir (Dir m)" "\<not> IsDir (File m d)"
  by (simp_all add: Mode_def IsDir_def)

text \<open>Opening for writing, truncated: the file is there and empty, with its old mode or as created.\<close>

lemma open_truncated:
  assumes "os_OpenFile p (O_RDWR OR O_CREATE OR O_TRUNC) perms s = (r, s1)"
  shows "fs_cwd s1 = fs_cwd s"
    and "r = Inl e \<Longrightarrow> fs_nodes s1 = fs_nodes s"
    and "r = Inr k \<Longrightarrow> k = key_of s p \<and> (\<exists>m. fs_nodes s1 = (fs_nodes s)(k \<mapsto> File m [])
           \<and> (case fs_nodes s k of Some (File m0 _) \<Rightarrow> m = m0 | Some (Dir _) \<Rightarrow> False | None \<Rightarrow> m = new_mode perms s))"
proof -
  have *: "fs_cwd s1 = fs_cwd s \<and> (\<forall>e. r = Inl e \<longrightarrow> fs_nodes s1 = fs_nodes s)
    \<and> (\<forall>k. r = Inr k \<longrightarrow> k = key_of s p \<and> (\<exists>m. fs_nodes s1 = (fs_nodes s)(k \<mapsto> File m [])
           \<and> (case fs_nodes s k of Some (File m0 _) \<Rightarrow> m = m0 | Some (Dir _) \<Rightarrow> False | None \<Rightarrow> m = new_mode perms s)))"
    using assms [unfolded os_OpenFile_def]
  proof (cases rule: faulty_cases)
    case (1 u)
    then show ?thesis
      using look_up_cong [of u s p] key_of_cong [of u s p] look_up_node [of p u]
      by (auto simp: Let_def new_mode_def split: sum.splits option.splits node.splits)
  qed auto
  then show "fs_cwd s1 = fs_cwd s" "r = Inl e \<Longrightarrow> fs_nodes s1 = fs_nodes s"
    "r = Inr k \<Longrightarrow> k = key_of s p \<and> (\<exists>m. fs_nodes s1 = (fs_nodes s)(k \<mapsto> File m [])
           \<and> (case fs_nodes s k of Some (File m0 _) \<Rightarrow> m = m0 | Some (Dir _) \<Rightarrow> False | None \<Rightarrow> m = new_mode perms s))"
    by blast+
qed

lemma open_existing:
  assumes "os_OpenFile p fl perms s = (r, s1)" and "\<not> has fl O_CREATE" "\<not> has fl O_TRUNC"
  shows "fs_nodes s1 = fs_nodes s \<and> fs_cwd s1 = fs_cwd s \<and> fs_umask s1 = fs_umask s
    \<and> (\<forall>k. r = Inr k \<longrightarrow> k = key_of s p \<and> (\<exists>n. fs_nodes s k = Some n \<and> (writes fl \<longrightarrow> \<not> IsDir n)))"
  using assms(1) [unfolded os_OpenFile_def]
proof (cases rule: faulty_cases)
  case (1 u)
  then show ?thesis
    using look_up_cong [of u s p] key_of_cong [of u s p] look_up_node [of p u] assms(2,3)
    by (auto simp: Let_def split: sum.splits option.splits node.splits if_splits)
qed auto

lemma within_mode_bits: "within ((m AND p) AND mode_bits) p" "within ((m AND p) AND mode_bits) m"
  by (auto simp: within_iff bit_simps)

lemma ensure_file:
  assumes "EnsureFileMaxPerms k perms s = (r, s1)" and "fs_nodes s k = Some (File m d)"
  shows "\<exists>m'. fs_nodes s1 = (fs_nodes s)(k \<mapsto> File m' d) \<and> within m' m \<and> (r = None \<longrightarrow> within m' perms)"
proof -
  obtain a u where S: "File_Stat k s = (a, u)" by fastforce
  have u: "fs_nodes u = fs_nodes s \<and> (\<forall>n. a = Inr n \<longrightarrow> n = File m d)"
    using S [unfolded File_Stat_def] by (cases rule: faulty_cases) (use assms(2) in \<open>auto split: option.splits\<close>)
  have same: "fs_nodes s = (fs_nodes s)(k \<mapsto> File m d)" using assms(2) by auto
  show ?thesis
  proof (cases a)
    case (Inl e)
    with assms(1) S u same show ?thesis by (auto simp: EnsureFileMaxPerms_def)
  next
    case (Inr n)
    with u have n: "n = File m d" by simp
    show ?thesis
    proof (cases "m = perms")
      case True
      with assms(1) S u same Inr n show ?thesis by (auto simp: EnsureFileMaxPerms_def)
    next
      case False
      obtain b v where C: "File_Chmod k (m AND perms) u = (b, v)" by fastforce
      have v: "(fs_nodes v = fs_nodes s \<and> (\<exists>e. b = Inl e))
         \<or> fs_nodes v = (fs_nodes s)(k \<mapsto> File ((m AND perms) AND mode_bits) d)"
        using C [unfolded File_Chmod_def] by (cases rule: faulty_cases) (use assms(2) u in \<open>auto simp: with_mode_def\<close>)
      have "(r, s1) = err_of (b, v)" using assms(1) S Inr n False C by (simp add: EnsureFileMaxPerms_def)
      with v same within_mode_bits [of m perms] show ?thesis by (cases b) auto
    qed
  qed
qed

lemma write_empty:
  assumes "File_Write k xs s = (r, s1)" and "fs_nodes s k = Some (File m [])"
  shows "\<exists>n. fs_nodes s1 = (fs_nodes s)(k \<mapsto> File m (take n xs)) \<and> (\<forall>x. r = Inr x \<longrightarrow> take n xs = xs)"
proof -
  obtain f u where N: "next_fault s = (f, u)" by fastforce
  note u = next_fault_fields [OF N]
  show ?thesis
  proof (cases f)
    case None
    with assms N u show ?thesis by (intro exI [of _ "length xs"]) (auto simp: File_Write_def put_data_def)
  next
    case (Some a)
    with assms N u show ?thesis by (intro exI [of _ "snd a"]) (auto simp: File_Write_def put_data_def split: prod.splits)
  qed
qed

lemma open_and_restrict:
  assumes "os_OpenFile p (O_RDWR OR O_CREATE OR O_TRUNC) perms s = (Inr k, s1)"
    and "EnsureFileMaxPerms k perms s1 = (r, s2)"
  shows "k = key_of s p \<and> (\<exists>m. fs_nodes s2 = (fs_nodes s)(k \<mapsto> File m [])
    \<and> (\<forall>m0 d0. fs_nodes s k = Some (File m0 d0) \<longrightarrow> within m m0) \<and> (r = None \<longrightarrow> within m perms))"
proof -
  obtain m where m: "k = key_of s p" "fs_nodes s1 = (fs_nodes s)(k \<mapsto> File m [])"
    "case fs_nodes s k of Some (File m0 _) \<Rightarrow> m = m0 | Some (Dir _) \<Rightarrow> False | None \<Rightarrow> m = new_mode perms s"
    using open_truncated(3) [OF assms(1) refl] by blast
  then have "fs_nodes s1 k = Some (File m [])" by simp
  from ensure_file [OF assms(2) this] obtain m' where
    "fs_nodes s2 = (fs_nodes s1)(k \<mapsto> File m' [])" "within m' m" "r = None \<longrightarrow> within m' perms" by blast
  with m show ?thesis by (intro conjI exI [of _ m']) auto
qed

section \<open>Permissions of files\<close>

text \<open>
  What writing \<open>data\<close> to \<open>k\<close> may leave: nothing has changed and there is an error, or the file holds a part of the
  data, and its mode is within the mode it had, and within \<open>perms\<close> as soon as there is any data in it; without
  an error it holds all of it.
\<close>

definition restricted_write :: "filemode \<Rightarrow> bytes \<Rightarrow> key \<Rightarrow> file_error option \<Rightarrow> fs \<Rightarrow> fs \<Rightarrow> bool" where
  "restricted_write perms data k r s s' \<longleftrightarrow>
     (r \<noteq> None \<and> fs_nodes s' = fs_nodes s)
     \<or> (\<exists>m n. fs_nodes s' = (fs_nodes s)(k \<mapsto> File m (take n data))
        \<and> (\<forall>m0 d0. fs_nodes s k = Some (File m0 d0) \<longrightarrow> within m m0)
        \<and> (take n data \<noteq> [] \<longrightarrow> within m perms)
        \<and> (r = None \<longrightarrow> within m perms \<and> take n data = data))"

lemma restrict_and_write:
  assumes "os_OpenFile p (O_RDWR OR O_CREATE OR O_TRUNC) perms s = (Inr k, s1)"
    and "EnsureFileMaxPerms k perms s1 = (None, s2)" and "File_Write k data s2 = (a, s3)"
  shows "restricted_write perms data k (fst (err_of (a, s3))) s s3"
proof -
  obtain m where m: "fs_nodes s2 = (fs_nodes s)(k \<mapsto> File m [])"
    "\<forall>m0 d0. fs_nodes s k = Some (File m0 d0) \<longrightarrow> within m m0" "within m perms"
    using open_and_restrict [OF assms(1,2)] by blast
  then have "fs_nodes s2 k = Some (File m [])" by simp
  from write_empty [OF assms(3) this] obtain n where
    "fs_nodes s3 = (fs_nodes s2)(k \<mapsto> File m (take n data))" "\<forall>x. a = Inr x \<longrightarrow> take n data = data" by blast
  with m have "fs_nodes s3 = (fs_nodes s)(k \<mapsto> File m (take n data))
        \<and> (\<forall>m0 d0. fs_nodes s k = Some (File m0 d0) \<longrightarrow> within m m0) \<and> (take n data \<noteq> [] \<longrightarrow> within m perms)
        \<and> (fst (err_of (a, s3)) = None \<longrightarrow> within m perms \<and> take n data = data)" by (cases a) auto
  then show ?thesis unfolding restricted_write_def by (intro disjI2 exI [of _ m] exI [of _ n])
qed

lemma restrict_failed:
  assumes "os_OpenFile p (O_RDWR OR O_CREATE OR O_TRUNC) perms s = (Inr k, s1)"
    and "EnsureFileMaxPerms k perms s1 = (Some e, s2)"
  shows "restricted_write perms data k (Some e') s s2"
proof -
  obtain m where "fs_nodes s2 = (fs_nodes s)(k \<mapsto> File m [])"
    "\<forall>m0 d0. fs_nodes s k = Some (File m0 d0) \<longrightarrow> within m m0"
    using open_and_restrict [OF assms] by blast
  then show ?thesis unfolding restricted_write_def by (intro disjI2 exI [of _ m] exI [of _ 0]) auto
qed

text \<open>
  C33: Whatever fails, \<^verbatim>\<open>WriteFileWithMaxPerms\<close> touches only the file it names, never widens its mode and never puts data into
  it while the mode grants more than the maximum; without an error the file holds exactly the data.
\<close>

theorem write_file_max_perms:
  assumes "WriteFileWithMaxPerms p data perms s = (r, s')"
  shows "restricted_write perms data (key_of s p) r s s'"
proof -
  obtain a s1 where O: "os_OpenFile p (O_RDWR OR O_CREATE OR O_TRUNC) perms s = (a, s1)" by fastforce
  show ?thesis
  proof (cases a)
    case (Inl e)
    with open_truncated(2) [OF O Inl] assms O show ?thesis
      by (auto simp: WriteFileWithMaxPerms_def restricted_write_def)
  next
    case (Inr k)
    obtain b s2 where E: "EnsureFileMaxPerms k perms s1 = (b, s2)" by fastforce
    note O = O [unfolded Inr]
    have k: "k = key_of s p" using open_and_restrict [OF O E] by simp
    show ?thesis
    proof (cases b)
      case (Some e)
      with assms O E have "r = Some e" "s' = s2" by (auto simp: WriteFileWithMaxPerms_def)
      with restrict_failed [OF O E [unfolded Some]] k show ?thesis by simp
    next
      case None
      obtain c s3 where W: "File_Write k data s2 = (c, s3)" by fastforce
      have "(r, s') = err_of (c, s3)" using assms O E None W by (simp add: WriteFileWithMaxPerms_def)
      with restrict_and_write [OF O E [unfolded None] W] k show ?thesis by (cases c) auto
    qed
  qed
qed

text \<open>A file system with a directory, a file anyone may write, and no faults.\<close>

definition sample_fs :: fs where
  "sample_fs = \<lparr>fs_nodes = [[] \<mapsto> Dir 0x1ED, [''tmp''] \<mapsto> Dir 0x1FF, [''tmp'', ''a''] \<mapsto> File 0x1B6 [1, 2]],
     fs_cwd = [''tmp''], fs_umask = 0x12, fs_faults = []\<rparr>"

theorem write_file_max_perms_witness:
  "\<exists>m. fs_nodes (snd (WriteFileWithMaxPerms ''a'' [7] 0x180 sample_fs)) [''tmp'', ''a''] = Some (File m [7])
     \<and> within m 0x180"
proof -
  have r: "fst (WriteFileWithMaxPerms ''a'' [7] 0x180 sample_fs) = None" by code_simp
  have k: "key_of sample_fs ''a'' = [''tmp'', ''a'']" by code_simp
  obtain s' where "WriteFileWithMaxPerms ''a'' [7] 0x180 sample_fs = (None, s')" using r by (metis prod.collapse)
  from write_file_max_perms [OF this] this k show ?thesis by (auto simp: restricted_write_def)
qed

lemma restricted_write_cong: "fs_nodes u = fs_nodes s \<Longrightarrow> restricted_write perms data k r u s' = restricted_write perms data k r s s'"
  by (simp add: restricted_write_def)

text \<open>What a copy writes: the data of the source, but nothing when the destination is the same file, already truncated.\<close>

definition copied :: "fs \<Rightarrow> key \<Rightarrow> key \<Rightarrow> bytes" where
  "copied s src dst = (case fs_nodes s src of Some (File _ d) \<Rightarrow> if src = dst then [] else d | _ \<Rightarrow> [])"

lemma copy_opened:
  assumes O: "os_OpenFile p (O_RDWR OR O_CREATE OR O_TRUNC) perms s = (Inr k, s1)"
    and E: "EnsureFileMaxPerms k perms s1 = (None, s2)" and src: "fs_nodes s src = Some n"
    and C: "err_of (io_Copy k src s2) = (r, s3)"
  shows "restricted_write perms (copied s src k) k r s s3"
proof -
  obtain m where k: "k = key_of s p" and m: "fs_nodes s2 = (fs_nodes s)(k \<mapsto> File m [])"
    and w: "\<forall>m0 d0. fs_nodes s k = Some (File m0 d0) \<longrightarrow> within m m0"
    using open_and_restrict [OF O E] by blast
  show ?thesis
  proof (cases "\<exists>md. n = Dir md \<and> src \<noteq> k")
    case True
    with src m C have "r = Some (Os EIsDir)" "s3 = s2" by (auto simp: io_Copy_def)
    with m w show ?thesis
      unfolding restricted_write_def by (intro disjI2 exI [of _ m] exI [of _ 0]) auto
  next
    case False
    have "fs_nodes s k \<noteq> Some (Dir md)" for md using open_truncated(3) [OF O refl] by auto
    with False src have "io_Copy k src s2 = File_Write k (copied s src k) s2"
      by (cases n) (auto simp: io_Copy_def m copied_def)
    moreover obtain a u where W: "File_Write k (copied s src k) s2 = (a, u)" by fastforce
    ultimately have "err_of (a, u) = (r, s3)" using C by simp
    then have "u = s3" "r = fst (err_of (a, s3))" by (cases a; simp)+
    with restrict_and_write [OF O E] W show ?thesis by blast
  qed
qed

lemma errors_Wrap_None [simp]: "errors_Wrap err msg = None \<longleftrightarrow> err = None"
  by (cases err) (simp_all add: errors_Wrap_def)

lemma restricted_write_err: "(r = None \<longleftrightarrow> r' = None) \<Longrightarrow> restricted_write perms d k r s s' = restricted_write perms d k r' s s'"
  by (auto simp: restricted_write_def)

text \<open>
  C34: \<^verbatim>\<open>CopyFileWithMaxPerms\<close> keeps the same promise for its destination, whatever fails; without an error the
  destination holds what the source held before, except when both paths name the same file: then the file
  is truncated before it is read and its data are lost without an error.
\<close>

theorem copy_file_max_perms:
  assumes "CopyFileWithMaxPerms srcPath dstPath perms s = (r, s')"
  shows "restricted_write perms (copied s (key_of s srcPath) (key_of s dstPath)) (key_of s dstPath) r s s'"
proof -
  obtain a s1 where S: "os_OpenFile srcPath 0 0 s = (a, s1)" by fastforce
  have s1: "fs_nodes s1 = fs_nodes s" "fs_cwd s1 = fs_cwd s"
    and a: "\<And>k. a = Inr k \<Longrightarrow> k = key_of s srcPath \<and> (\<exists>n. fs_nodes s k = Some n)"
    using open_existing [OF S] by auto
  obtain b s2 where O: "os_OpenFile dstPath (O_RDWR OR O_CREATE OR O_TRUNC) perms s1 = (b, s2)" by fastforce
  show ?thesis
  proof (cases a)
    case (Inl e)
    with assms S s1 show ?thesis by (auto simp: CopyFileWithMaxPerms_def restricted_write_def errors_Wrap_def)
  next
    case src: (Inr src)
    with a obtain n where n: "src = key_of s srcPath" "fs_nodes s src = Some n" by blast
    show ?thesis
    proof (cases b)
      case (Inl e)
      with assms S src O s1 open_truncated(2) [OF O Inl] show ?thesis
        by (auto simp: CopyFileWithMaxPerms_def restricted_write_def errors_Wrap_def)
    next
      case (Inr k)
      note O = O [unfolded Inr]
      obtain c s3 where E: "EnsureFileMaxPerms k perms s2 = (c, s3)" by fastforce
      have k: "k = key_of s dstPath" using open_and_restrict [OF O E] key_of_cong [OF s1(2)] by simp
      show ?thesis
      proof (cases c)
        case (Some e)
        with assms S src O E have "s' = s3" "r \<noteq> None" by (auto simp: CopyFileWithMaxPerms_def errors_Wrap_def)
        with restrict_failed [OF O E [unfolded Some]] k restricted_write_cong [OF s1(1)] show ?thesis
          by (metis not_None_eq)
      next
        case None
        obtain d s4 where C: "err_of (io_Copy k src s3) = (d, s4)" by fastforce
        have "copied s1 src k = copied s src k" using s1 by (simp add: copied_def)
        with copy_opened [OF O E [unfolded None] _ C] n s1
        have "restricted_write perms (copied s src k) k d s s4" by (simp add: restricted_write_cong [of s1 s])
        moreover have "s' = s4" "r = None \<longleftrightarrow> d = None"
          using assms S src O E None C by (auto simp: CopyFileWithMaxPerms_def)
        ultimately show ?thesis using n k restricted_write_err [of r d] by simp
      qed
    qed
  qed
qed

theorem copy_file_max_perms_witness:
  "\<exists>m. fs_nodes (snd (CopyFileWithMaxPerms ''a'' ''./a'' 0x1FF sample_fs)) [''tmp'', ''a''] = Some (File m [])"
proof -
  have r: "fst (CopyFileWithMaxPerms ''a'' ''./a'' 0x1FF sample_fs) = None" by code_simp
  have k: "key_of sample_fs ''a'' = [''tmp'', ''a'']" "key_of sample_fs ''./a'' = [''tmp'', ''a'']" by code_simp+
  have c: "copied sample_fs [''tmp'', ''a''] [''tmp'', ''a''] = []" by code_simp
  obtain s' where "CopyFileWithMaxPerms ''a'' ''./a'' 0x1FF sample_fs = (None, s')" using r by (metis prod.collapse)
  from copy_file_max_perms [OF this] this k c show ?thesis by (auto simp: restricted_write_def)
qed

end
