(* ===== verification/Cedar_Dirs.thy ===== *)
theory Cedar_Dirs
  imports Cedar_Files
begin

text \<open>
  What the operations of \<^verbatim>\<open>utils/files.go\<close> on existing files, on directories and on temporary files promise.
\<close>

section \<open>Existing files\<close>

lemma ensure_filepath_max_perms:
  assumes "EnsureFilepathMaxPerms p perms s = (r, s')"
  shows "(r \<noteq> None \<and> fs_nodes s' = fs_nodes s)
    \<or> (\<exists>m0 m d. fs_nodes s (key_of s p) = Some (File m0 d) \<and> fs_nodes s' = (fs_nodes s)(key_of s p \<mapsto> File m d)
        \<and> within m m0 \<and> (r = None \<longrightarrow> within m perms))"
proof -
  obtain a s1 where O: "os_OpenFile p O_RDWR perms s = (a, s1)" by fastforce
  note s1 = open_existing [OF O, simplified]
  show ?thesis
  proof (cases a)
    case (Inl e)
    with assms O s1 show ?thesis by (auto simp: EnsureFilepathMaxPerms_def)
  next
    case (Inr k)
    with s1 obtain n where n: "k = key_of s p" "fs_nodes s k = Some n" "\<not> IsDir n" by auto
    then obtain m0 d where f: "fs_nodes s k = Some (File m0 d)" by (cases n) auto
    have E: "EnsureFileMaxPerms k perms s1 = (r, s')" using assms O Inr by (simp add: EnsureFilepathMaxPerms_def)
    from ensure_file [OF E, of m0 d] f s1 obtain m where
      "fs_nodes s' = (fs_nodes s)(k \<mapsto> File m d)" "within m m0" "r = None \<longrightarrow> within m perms" by auto
    with n(1) f show ?thesis by (intro disjI2 exI [of _ m0] exI [of _ m] exI [of _ d]) auto
  qed
qed

section \<open>Directories\<close>

text \<open>What is new in \<open>s'\<close>: directories on the way to \<open>k\<close> that were missing, with modes within \<open>perms\<close>.\<close>

definition only_new_dirs :: "filemode \<Rightarrow> key \<Rightarrow> fs \<Rightarrow> fs \<Rightarrow> bool" where
  "only_new_dirs perms k s s' \<longleftrightarrow>
     (\<forall>j. fs_nodes s' j = fs_nodes s j
        \<or> (fs_nodes s j = None \<and> (\<exists>m ys. fs_nodes s' j = Some (Dir m) \<and> within m perms \<and> k = j @ ys)))"

lemma only_new_dirs_refl: "fs_nodes s' = fs_nodes s \<Longrightarrow> only_new_dirs perms k s s'"
  by (simp add: only_new_dirs_def)

lemma only_new_dirs_trans:
  "only_new_dirs perms k s u \<Longrightarrow> only_new_dirs perms k u s' \<Longrightarrow> only_new_dirs perms k s s'"
  unfolding only_new_dirs_def by (metis option.distinct(1))

lemma new_mode_within: "within (new_mode perms s) perms"
  by (auto simp: new_mode_def within_iff bit_simps)

lemma mkdir_one_result:
  assumes "mkdir_one perms d s = (r, s')" and "k = d @ ys"
  shows "only_new_dirs perms k s s' \<and> (\<forall>x. r = Inr x \<longrightarrow> (\<exists>m. fs_nodes s' d = Some (Dir m)))"
proof (cases "fs_nodes s d")
  case None
  with assms(1) have "faulty (\<lambda>s. (Inr (), set_node d (Dir (new_mode perms s)) s)) s = (r, s')"
    by (simp add: mkdir_one_def)
  then show ?thesis
  proof (cases rule: faulty_cases)
    case (1 u)
    with None assms(2) new_mode_within [of perms u] show ?thesis by (auto simp: only_new_dirs_def split: if_splits)
  qed (auto simp: only_new_dirs_refl)
next
  case (Some n)
  with assms(1) show ?thesis by (cases n) (auto simp: mkdir_one_def only_new_dirs_refl)
qed

lemma only_new_dirs_keeps: "only_new_dirs perms k s s' \<Longrightarrow> fs_nodes s j = Some n \<Longrightarrow> fs_nodes s' j = Some n"
  unfolding only_new_dirs_def by (metis option.distinct(1))

lemma mkdir_all_result:
  "mkdir_all perms d xs s = (r, s') \<Longrightarrow> only_new_dirs perms (d @ xs) s s'
     \<and> (\<forall>x. r = Inr x \<longrightarrow> (\<exists>m. fs_nodes s' (d @ xs) = Some (Dir m)))"
proof (induction perms d xs s rule: mkdir_all.induct)
  case (1 perms d xs s)
  obtain a u where M: "mkdir_one perms d s = (a, u)" by fastforce
  note m = mkdir_one_result [OF M refl, of xs]
  have R: "(r, s') = (case a of Inl e \<Rightarrow> (Inl e, u)
      | Inr _ \<Rightarrow> (case xs of [] \<Rightarrow> (Inr (), u) | y # ys \<Rightarrow> mkdir_all perms (d @ [y]) ys u))"
    using 1(2) M by (subst (asm) mkdir_all.simps) (simp split: sum.splits)
  show ?case
  proof (cases a)
    case (Inl e)
    with R m show ?thesis by simp
  next
    case a: (Inr x)
    show ?thesis
    proof (cases xs)
      case Nil
      with R m a show ?thesis by simp
    next
      case (Cons y ys)
      with R a have "mkdir_all perms (d @ [y]) ys u = (r, s')" by simp
      from 1(1) [OF M [symmetric] a Cons this] m Cons show ?thesis
        by (auto intro: only_new_dirs_trans)
    qed
  qed
qed

lemma MkdirAll_result:
  assumes "os_MkdirAll p perms s = (r, s')"
  shows "only_new_dirs perms (key_of s p) s s' \<and> (\<forall>x. r = Inr x \<longrightarrow> (\<exists>m. fs_nodes s' (key_of s p) = Some (Dir m)))"
proof (cases "p = []")
  case True
  with assms show ?thesis by (auto simp: os_MkdirAll_def only_new_dirs_refl)
next
  case False
  with assms have "mkdir_all perms [] (key_of s p) s = (r, s')" by (simp add: os_MkdirAll_def)
  from mkdir_all_result [OF this] show ?thesis by simp
qed

lemma Stat_result:
  assumes "os_Stat p s = (r, s')"
  shows "fs_nodes s' = fs_nodes s \<and> fs_cwd s' = fs_cwd s
    \<and> (r = Inl ENotExist \<longrightarrow> look_up p s = Inl ENotExist \<or> look_up p s = Inr None)
    \<and> (\<forall>n. r = Inr n \<longrightarrow> look_up p s = Inr (Some n))"
  using assms [unfolded os_Stat_def]
proof (cases rule: faulty_cases)
  case (1 u)
  then have "look_up p u = look_up p s" by (intro look_up_cong)
  with 1 show ?thesis by (cases "look_up p s") (auto split: option.splits)
qed auto

lemma Chmod_result:
  assumes "os_Chmod p m s = (r, s')" and "look_up p s = Inr (Some n)"
  shows "(\<exists>e. r = Inl e) \<and> fs_nodes s' = fs_nodes s
    \<or> r = Inr () \<and> fs_nodes s' = (fs_nodes s)(key_of s p \<mapsto> with_mode m n)"
  using assms(1) [unfolded os_Chmod_def]
proof (cases rule: faulty_cases)
  case (1 u)
  then have "look_up p u = look_up p s" "key_of u p = key_of s p" by (auto intro: look_up_cong key_of_cong)
  with 1(4) assms(2) have "r = Inr ()" "s' = set_node (key_of s p) (with_mode m n) u" by auto
  with 1(1) show ?thesis by simp
qed auto

lemma no_dir_bit: "bit mode_bits n \<Longrightarrow> \<not> bit ModeDir n"
proof -
  have "ModeDir AND mode_bits = 0" by code_simp
  then have "\<not> bit (ModeDir AND mode_bits) n" by simp
  then show "bit mode_bits n \<Longrightarrow> \<not> bit ModeDir n" by (simp add: bit_and_iff)
qed

lemma err_of_None: "(r, s') = err_of x \<Longrightarrow> r = None \<Longrightarrow> fst x = Inr () \<and> snd x = s'"
  and err_of_snd: "(r, s') = err_of x \<Longrightarrow> snd x = s'"
  by (cases x rule: err_of.cases; simp)+

text \<open>\<^verbatim>\<open>EnsureDirAndMaxPerms\<close> where there is nothing yet, and on a directory.\<close>

lemma ensure_missing_dir:
  assumes "EnsureDirAndMaxPerms p perms s = (r, s')" and "os_Stat p s = (Inl ENotExist, s1)"
  shows "only_new_dirs perms (key_of s p) s s'
    \<and> (r = None \<longrightarrow> (\<exists>m. fs_nodes s' (key_of s p) = Some (Dir m) \<and> (look_up p s \<noteq> Inl ENotExist \<longrightarrow> within m perms)))"
proof -
  note s1 = Stat_result [OF assms(2)]
  have key: "key_of s1 p = key_of s p" using s1 by (auto intro: key_of_cong)
  have E: "(r, s') = err_of (os_MkdirAll p perms s1)" using assms by (simp add: EnsureDirAndMaxPerms_def)
  obtain b u where M: "os_MkdirAll p perms s1 = (b, u)" by fastforce
  have u: "s' = u" "r = None \<longrightarrow> b = Inr ()" using E M by (cases b; simp)+
  have new: "only_new_dirs perms (key_of s p) s s'" "b = Inr () \<longrightarrow> (\<exists>m. fs_nodes s' (key_of s p) = Some (Dir m))"
    using MkdirAll_result [OF M] u s1 key by (auto simp: only_new_dirs_def)
  have "within m perms" if "fs_nodes s' (key_of s p) = Some (Dir m)" "look_up p s \<noteq> Inl ENotExist" for m
  proof -
    have "look_up p s = Inr None" using s1 that(2) by auto
    then have "fs_nodes s (key_of s p) = None" using look_up_node [of p s None] by simp
    with new(1) that(1) show ?thesis unfolding only_new_dirs_def by (metis node.inject(1) option.distinct(1) option.inject)
  qed
  with new u(2) show ?thesis by blast
qed

lemma ensure_existing_dir:
  assumes "EnsureDirAndMaxPerms p perms s = (r, s')" and "os_Stat p s = (Inr (Dir m0), s1)"
  shows "fs_nodes s (key_of s p) = Some (Dir m0)
    \<and> (fs_nodes s' = fs_nodes s \<and> (r = None \<longrightarrow> within m0 perms)
       \<or> (\<exists>m. within m m0 \<and> within m perms \<and> fs_nodes s' = (fs_nodes s)(key_of s p \<mapsto> Dir m)))"
proof -
  note s1 = Stat_result [OF assms(2)]
  then have same: "fs_nodes s1 = fs_nodes s" "fs_cwd s1 = fs_cwd s" by auto
  have key: "key_of s1 p = key_of s p" and look: "look_up p s1 = look_up p s"
    using key_of_cong [OF same(2)] look_up_cong [OF same] by auto
  from s1 have n: "look_up p s = Inr (Some (Dir m0))" by simp
  then have node: "fs_nodes s (key_of s p) = Some (Dir m0)" using look_up_node by blast
  show ?thesis
  proof (cases "Mode (Dir m0) = perms")
    case True
    with assms s1 have "r = None" "fs_nodes s' = fs_nodes s" by (auto simp: EnsureDirAndMaxPerms_def)
    moreover have "within m0 perms" using True within_or [of m0 ModeDir] by simp
    ultimately show ?thesis using node by simp
  next
    case False
    let ?m = "((m0 OR ModeDir) AND perms) AND mode_bits"
    have w: "within ?m m0" "within ?m perms"
      by (auto simp: within_iff bit_simps dest: no_dir_bit)
    obtain b u where C: "os_Chmod p (Mode (Dir m0) AND perms) s1 = (b, u)" by fastforce
    have "(r, s') = err_of (b, u)" using assms False C by (simp add: EnsureDirAndMaxPerms_def)
    then have u: "s' = u" "r = None \<longrightarrow> b = Inr ()" by (cases b; simp)+
    from Chmod_result [OF C] n look key s1 have
      "(\<exists>e. b = Inl e) \<and> fs_nodes u = fs_nodes s \<or> b = Inr () \<and> fs_nodes u = (fs_nodes s)(key_of s p \<mapsto> Dir ?m)"
      by (auto simp: with_mode_def)
    with u node w show ?thesis by auto
  qed
qed

text \<open>
  C35: Whatever fails, \<^verbatim>\<open>EnsureDirAndMaxPerms\<close> leaves every file as it is; it either changes nothing but the mode of the
  directory it names, to one within its mode before, or creates missing directories on the way to it, with
  modes within the maximum. Without an error the path is a directory, within the maximum if it
  existed before. A file of that name gives an error.
\<close>

theorem ensure_dir_max_perms:
  assumes "EnsureDirAndMaxPerms p perms s = (r, s')"
  shows "(only_new_dirs perms (key_of s p) s s'
      \<or> (\<exists>m0 m. fs_nodes s (key_of s p) = Some (Dir m0) \<and> within m m0
            \<and> fs_nodes s' = (fs_nodes s)(key_of s p \<mapsto> Dir m)))
    \<and> (r = None \<longrightarrow> (\<exists>m. fs_nodes s' (key_of s p) = Some (Dir m)
            \<and> (look_up p s \<noteq> Inl ENotExist \<longrightarrow> within m perms)))"
proof -
  obtain a s1 where S: "os_Stat p s = (a, s1)" by fastforce
  note s1 = Stat_result [OF S]
  consider "a = Inl ENotExist" | e where "a = Inl e" "e \<noteq> ENotExist"
    | m where "a = Inr (Dir m)" | m d where "a = Inr (File m d)"
    by (metis node.exhaust sum.exhaust)
  then show ?thesis
  proof cases
    case 1
    with ensure_missing_dir [OF assms] S show ?thesis by blast
  next
    case 3
    with ensure_existing_dir [OF assms] S show ?thesis by (fastforce simp: only_new_dirs_refl)
  qed (use assms S s1 in \<open>auto simp: EnsureDirAndMaxPerms_def only_new_dirs_refl\<close>)
qed

theorem ensure_dir_max_perms_witness:
  "\<exists>m. fs_nodes (snd (EnsureDirAndMaxPerms ''/tmp'' 0x1C0 sample_fs)) [''tmp''] = Some (Dir m) \<and> within m 0x1C0"
proof -
  have r: "fst (EnsureDirAndMaxPerms ''/tmp'' 0x1C0 sample_fs) = None" by code_simp
  have k: "key_of sample_fs ''/tmp'' = [''tmp'']" and l: "look_up ''/tmp'' sample_fs \<noteq> Inl ENotExist" by code_simp+
  obtain s' where "EnsureDirAndMaxPerms ''/tmp'' 0x1C0 sample_fs = (None, s')" using r by (metis prod.collapse)
  from ensure_dir_max_perms [OF this] this k l show ?thesis by auto
qed

lemma create_new_dir:
  assumes "CreateNewDir basePath dirPath s = (Inr pathname, s')"
  shows "pathname = (if IsAbs dirPath then dirPath else Join basePath dirPath)
    \<and> look_up pathname s \<in> {Inl ENotExist, Inr None} \<and> only_new_dirs DefaultDirPerms (key_of s pathname) s s'
    \<and> (\<exists>m. fs_nodes s' (key_of s pathname) = Some (Dir m))"
proof -
  let ?p = "if IsAbs dirPath then dirPath else Join basePath dirPath"
  obtain a s1 where S: "os_Stat ?p s = (a, s1)" by fastforce
  obtain b s2 where M: "os_MkdirAll ?p DefaultDirPerms s1 = (b, s2)" by fastforce
  have a: "a = Inl ENotExist" using assms S by (auto simp: CreateNewDir_def Let_def split: if_splits)
  with assms S M have "(case err_of (b, s2) of (Some e, s2) \<Rightarrow> (Inl e, s2) | (None, s2) \<Rightarrow> (Inr ?p, s2)) = (Inr pathname, s')"
    by (simp add: CreateNewDir_def Let_def del: if_split)
  then have "pathname = ?p" "s' = s2" "b = Inr ()" by (cases b; simp)+
  moreover have "only_new_dirs DefaultDirPerms (key_of s ?p) s s2" "\<exists>m. fs_nodes s2 (key_of s ?p) = Some (Dir m)"
    using MkdirAll_result [OF M] Stat_result [OF S] key_of_cong [of s1 s ?p] \<open>b = Inr ()\<close> by (auto simp: only_new_dirs_def)
  ultimately show ?thesis using Stat_result [OF S] a by auto
qed

text \<open>\<^verbatim>\<open>ExpandAndCheckPath\<close> returns its argument, also when a file (and no directory) has that name.\<close>

lemma expand_path_accepts_files:
  assumes "fs_faults s = []" and "look_up p s = Inr (Some n)"
  shows "ExpandAndCheckPath p autoCreate s = (Inr p, s)"
  using assms by (simp add: ExpandAndCheckPath_def os_Stat_def faulty_def next_fault_def)

section \<open>Temporary files\<close>

lemma has_or: "has (f OR g) b \<longleftrightarrow> has f b \<or> has g b"
  by (auto simp: has_def bit_eq_iff bit_simps)

lemma create_flags [simp]:
  "has (O_CREATE OR fl) O_CREATE" "has (O_CREATE OR fl) O_EXCL = has fl O_EXCL" "has (O_CREATE OR fl) O_TRUNC = has fl O_TRUNC"
  by (simp_all add: has_or) (simp_all add: has_def O_CREATE_def O_EXCL_def O_TRUNC_def)

lemma open_create:
  assumes "os_OpenFile p (O_CREATE OR fl) perm s = (r, s1)"
  shows "(r = Inl EExist \<longrightarrow> has fl O_EXCL \<and> fs_nodes s1 = fs_nodes s \<and> fs_cwd s1 = fs_cwd s \<and> fs_nodes s (key_of s p) \<noteq> None)
    \<and> (\<forall>k. r = Inr k \<longrightarrow> k = key_of s p
        \<and> (if has fl O_EXCL
           then fs_nodes s k = None \<and> (\<exists>m. fs_nodes s1 = (fs_nodes s)(k \<mapsto> File m []) \<and> within m perm)
           else (fs_nodes s k = None \<longrightarrow> (\<exists>m. fs_nodes s1 = (fs_nodes s)(k \<mapsto> File m []) \<and> within m perm))
             \<and> (\<forall>m d. fs_nodes s k = Some (File m d) \<longrightarrow> fs_nodes s1 k = Some (File m (if has fl O_TRUNC then [] else d)))))"
  using assms [unfolded os_OpenFile_def]
proof (cases rule: faulty_cases)
  case (1 u)
  have look: "look_up p u = look_up p s" and key: "key_of u p = key_of s p"
    using 1 by (auto intro: look_up_cong key_of_cong)
  show ?thesis
  proof (cases "look_up p s")
    case (Inl e)
    with 1(4) look have "r = Inl e" by (simp add: Let_def)
    moreover have "e \<noteq> EExist"
    proof -
      have "walk n d xs \<noteq> Some EExist" for n d xs by (induction xs arbitrary: d) (auto split: option.splits node.splits)
      with Inl show ?thesis by (auto simp: look_up_def split: if_splits option.splits)
    qed
    ultimately show ?thesis by simp
  next
    case (Inr n)
    have node: "fs_nodes s (key_of s p) = n" using look_up_node [OF Inr] by simp
    show ?thesis
    proof (cases n)
      case None
      with 1(4) Inr look key have "r = Inr (key_of s p)" "s1 = set_node (key_of s p) (File (new_mode perm u) []) u"
        by (auto simp: Let_def)
      with 1(1) node None new_mode_within [of perm u] show ?thesis by auto
    next
      case (Some x)
      with 1 Inr look key node show ?thesis by (cases x) (auto simp: Let_def split: if_splits)
    qed
  qed
qed auto

text \<open>When an open reports that the file exists: no fault, \<^verbatim>\<open>O_EXCL\<close>, and there is a node; then only the fault is used up.\<close>

lemma look_up_not_exist: "look_up p s \<noteq> Inl EExist"
proof -
  have "walk n d xs \<noteq> Some EExist" for n d xs by (induction xs arbitrary: d) (auto split: option.splits node.splits)
  then show ?thesis by (auto simp: look_up_def split: if_splits option.splits)
qed

lemma os_OpenFile_run:
  "os_OpenFile p fl perm s =
     (case next_fault s of
        (Some (e, _), u) \<Rightarrow> (Inl (EOther e), u)
      | (None, u) \<Rightarrow>
          (case look_up p s of
             Inl e \<Rightarrow> (Inl e, u)
           | Inr (Some n) \<Rightarrow>
               if has fl O_CREATE \<and> has fl O_EXCL then (Inl EExist, u)
               else (case n of
                       Dir _ \<Rightarrow> if writes fl \<or> has fl O_CREATE \<or> has fl O_TRUNC then (Inl EIsDir, u) else (Inr (key_of s p), u)
                     | File m d \<Rightarrow> (Inr (key_of s p), if has fl O_TRUNC then set_node (key_of s p) (File m []) u else u))
           | Inr None \<Rightarrow>
               if has fl O_CREATE then (Inr (key_of s p), set_node (key_of s p) (File (new_mode perm u) []) u)
               else (Inl ENotExist, u)))"
proof -
  obtain f u where n: "next_fault s = (f, u)" by fastforce
  have "look_up p u = look_up p s" "key_of u p = key_of s p"
    using next_fault_fields [OF n] look_up_cong [of u s p] key_of_cong [of u s p] by blast+
  with n show ?thesis by (cases f) (simp_all only: os_OpenFile_def faulty_def split_beta Let_def prod.case option.case fst_conv snd_conv)
qed

lemma open_exists:
  "os_OpenFile p (O_CREATE OR fl) perm s = (Inl EExist, s1) \<longleftrightarrow>
     has fl O_EXCL \<and> (\<exists>n. look_up p s = Inr (Some n)) \<and> (fs_faults s = [] \<or> hd (fs_faults s) = None)
     \<and> s1 = s\<lparr>fs_faults := tl (fs_faults s)\<rparr>"
proof -
  have "next_fault s = (if fs_faults s = [] then None else hd (fs_faults s), s\<lparr>fs_faults := tl (fs_faults s)\<rparr>)"
    by (cases "fs_faults s") (simp_all add: next_fault_def)
  moreover obtain f u where n: "next_fault s = (f, u)" by fastforce
  ultimately have f: "f = None \<longleftrightarrow> fs_faults s = [] \<or> hd (fs_faults s) = None" and u: "u = s\<lparr>fs_faults := tl (fs_faults s)\<rparr>"
    by (auto split: if_splits)
  have "os_OpenFile p (O_CREATE OR fl) perm s = (Inl EExist, s1) \<longleftrightarrow>
      has fl O_EXCL \<and> (\<exists>n. look_up p s = Inr (Some n)) \<and> f = None \<and> s1 = u"
  proof (cases "look_up p s")
    case (Inl e)
    with n look_up_not_exist [of p s] show ?thesis by (cases f) (auto simp: os_OpenFile_run)
  next
    case (Inr m)
    with n show ?thesis by (cases f; cases m) (auto simp: os_OpenFile_run split: node.split)
  qed
  then show ?thesis using f u by simp
qed

lemma open_error_keeps:
  assumes "os_OpenFile p fl perm s = (Inl e, s1)"
  shows "fs_nodes s1 = fs_nodes s"
  using assms [unfolded os_OpenFile_def]
proof (cases rule: faulty_cases)
  case (1 u)
  then show ?thesis by (auto simp: Let_def split: sum.splits option.splits if_splits node.splits)
qed auto

text \<open>The round number \<open>j\<close>, if it comes to it, and the endless loop: every name is taken and nothing fails.\<close>

lemma temp_loop_next:
  "temp_loop dir pattern fl clock i s = None \<longleftrightarrow>
     has fl O_EXCL \<and> (\<exists>n. look_up (temp_name dir pattern (clock i)) s = Inr (Some n)) \<and> (fs_faults s = [] \<or> hd (fs_faults s) = None)
     \<and> temp_loop dir pattern fl clock (i + 1) (s\<lparr>fs_faults := tl (fs_faults s)\<rparr>) = None"
proof -
  obtain r s1 where O: "os_OpenFile (temp_name dir pattern (clock i)) (O_CREATE OR fl) 0x180 s = (r, s1)" by fastforce
  show ?thesis
  proof (cases "r = Inl EExist")
    case True
    with O open_exists [of "temp_name dir pattern (clock i)" fl _ s s1] show ?thesis by (subst temp_loop.simps) simp
  next
    case False
    then have "\<nexists>s2. os_OpenFile (temp_name dir pattern (clock i)) (O_CREATE OR fl) 0x180 s = (Inl EExist, s2)" using O by simp
    then have "\<not> (has fl O_EXCL \<and> (\<exists>n. look_up (temp_name dir pattern (clock i)) s = Inr (Some n))
        \<and> (fs_faults s = [] \<or> hd (fs_faults s) = None))"
      unfolding open_exists by blast
    with False O show ?thesis by (subst temp_loop.simps) auto
  qed
qed

lemmas temp_loop_induct = temp_loop.raw_induct [rotated, consumes 1, case_names Loop]

definition endless :: "string \<Rightarrow> string \<Rightarrow> flags \<Rightarrow> (nat \<Rightarrow> nat) \<Rightarrow> nat \<Rightarrow> fs \<Rightarrow> bool" where
  "endless dir pattern fl clock i s \<longleftrightarrow> has fl O_EXCL \<and> set (fs_faults s) \<subseteq> {None}
     \<and> (\<forall>j \<ge> i. \<exists>n. look_up (temp_name dir pattern (clock j)) s = Inr (Some n))"

lemma endless_next: "endless dir pattern fl clock i s \<Longrightarrow> endless dir pattern fl clock (i + 1) (s\<lparr>fs_faults := tl (fs_faults s)\<rparr>)"
  by (cases "fs_faults s") (auto simp: endless_def look_up_cong [of "s\<lparr>fs_faults := _\<rparr>" s])

lemma temp_loop_returns: "temp_loop dir pattern fl clock i s = Some y \<Longrightarrow> \<not> endless dir pattern fl clock i s"
proof (induction rule: temp_loop_induct)
  case (Loop loop dir pattern fl clock i s y)
  obtain r s1 where O: "os_OpenFile (temp_name dir pattern (clock i)) (O_CREATE OR fl) 0x180 s = (r, s1)" by fastforce
  show ?case
  proof
    assume e: "endless dir pattern fl clock i s"
    then have "fs_faults s = [] \<or> hd (fs_faults s) = None" by (cases "fs_faults s") (auto simp: endless_def)
    with e O open_exists [of "temp_name dir pattern (clock i)" fl _ s "s\<lparr>fs_faults := tl (fs_faults s)\<rparr>"]
    have "r = Inl EExist" "s1 = s\<lparr>fs_faults := tl (fs_faults s)\<rparr>" by (auto simp: endless_def)
    with Loop(2) O have "loop dir pattern fl clock (i + 1) (s\<lparr>fs_faults := tl (fs_faults s)\<rparr>) = Some y" by simp
    then have "\<not> endless dir pattern fl clock (i + 1) (s\<lparr>fs_faults := tl (fs_faults s)\<rparr>)" by (rule Loop(1))
    with endless_next [OF e] show False by blast
  qed
qed

lemma temp_loop_runs_on:
  assumes "temp_loop dir pattern fl clock i s = None"
  shows "(\<exists>n. look_up (temp_name dir pattern (clock (i + j))) s = Inr (Some n)) \<and> (j < length (fs_faults s) \<longrightarrow> fs_faults s ! j = None)"
  using assms
proof (induction j arbitrary: i s)
  case 0
  then show ?case using temp_loop_next [of dir pattern fl clock i s] by (cases "fs_faults s") auto
next
  case (Suc j)
  let ?s = "s\<lparr>fs_faults := tl (fs_faults s)\<rparr>"
  have "temp_loop dir pattern fl clock (i + 1) ?s = None" using Suc.prems temp_loop_next [of dir pattern fl clock i s] by blast
  from Suc.IH [OF this] look_up_cong [of ?s s] show ?case by (cases "fs_faults s") simp_all
qed

lemma temp_loop_endless: "temp_loop dir pattern fl clock i s = None \<longleftrightarrow> endless dir pattern fl clock i s"
proof
  assume l: "temp_loop dir pattern fl clock i s = None"
  then have "has fl O_EXCL" using temp_loop_next by blast
  moreover have "set (fs_faults s) \<subseteq> {None}" using temp_loop_runs_on [OF l] by (auto simp: in_set_conv_nth)
  moreover have "\<exists>n. look_up (temp_name dir pattern (clock j)) s = Inr (Some n)" if "i \<le> j" for j
    using temp_loop_runs_on [OF l, of "j - i"] that by simp
  ultimately show "endless dir pattern fl clock i s" by (simp add: endless_def)
next
  assume "endless dir pattern fl clock i s"
  then show "temp_loop dir pattern fl clock i s = None" using temp_loop_returns by (metis option.exhaust)
qed

text \<open>What the loop returns: the file of the first free name, of the first name, or an error.\<close>

definition temp_outcome ::
  "string \<Rightarrow> string \<Rightarrow> flags \<Rightarrow> (nat \<Rightarrow> nat) \<Rightarrow> nat \<Rightarrow> fs \<Rightarrow> (os_error + key) \<times> fs \<Rightarrow> bool"
where
  "temp_outcome dir pattern fl clock i s y \<longleftrightarrow>
     (case y of
        (Inl e, s') \<Rightarrow> e \<noteq> EExist \<and> fs_nodes s' = fs_nodes s
      | (Inr k, s') \<Rightarrow> \<exists>j \<ge> i. k = key_of s (temp_name dir pattern (clock j))
          \<and> (if has fl O_EXCL
             then fs_nodes s k = None \<and> (\<forall>l. i \<le> l \<and> l < j \<longrightarrow> fs_nodes s (key_of s (temp_name dir pattern (clock l))) \<noteq> None)
               \<and> (\<exists>m. fs_nodes s' = (fs_nodes s)(k \<mapsto> File m []) \<and> within m 0x180)
             else j = i
               \<and> (fs_nodes s k = None \<longrightarrow> (\<exists>m. fs_nodes s' = (fs_nodes s)(k \<mapsto> File m []) \<and> within m 0x180))
               \<and> (\<forall>m d. fs_nodes s k = Some (File m d) \<longrightarrow> fs_nodes s' k = Some (File m (if has fl O_TRUNC then [] else d)))))"

lemma temp_outcome_next:
  assumes o: "temp_outcome dir pattern fl clock (i + 1) s1 y" and "fs_nodes s1 = fs_nodes s" "fs_cwd s1 = fs_cwd s"
    and "has fl O_EXCL" and "fs_nodes s (key_of s (temp_name dir pattern (clock i))) \<noteq> None"
  shows "temp_outcome dir pattern fl clock i s y"
proof -
  have key: "key_of s1 p = key_of s p" for p using assms(3) by (rule key_of_cong)
  obtain r s' where y: "y = (r, s')" by fastforce
  show ?thesis
  proof (cases r)
    case (Inl e)
    with o y assms(2) show ?thesis by (simp add: temp_outcome_def)
  next
    case (Inr k)
    with o y obtain j m where j: "i + 1 \<le> j" "k = key_of s (temp_name dir pattern (clock j))" "fs_nodes s k = None"
      "\<And>l. i + 1 \<le> l \<Longrightarrow> l < j \<Longrightarrow> fs_nodes s (key_of s (temp_name dir pattern (clock l))) \<noteq> None"
      "fs_nodes s' = (fs_nodes s)(k \<mapsto> File m [])" "within m 0x180"
      using assms(2,4) by (auto simp: temp_outcome_def key)
    have "fs_nodes s (key_of s (temp_name dir pattern (clock l))) \<noteq> None" if "i \<le> l" "l < j" for l
      using j(4) [of l] that assms(5) by (cases "l = i") auto
    with Inr y j assms(4) show ?thesis unfolding temp_outcome_def by (auto intro!: exI [of _ j])
  qed
qed

lemma temp_loop_result: "temp_loop dir pattern fl clock i s = Some y \<Longrightarrow> temp_outcome dir pattern fl clock i s y"
proof (induction rule: temp_loop_induct)
  case (Loop loop dir pattern fl clock i s y)
  obtain r s1 where O: "os_OpenFile (temp_name dir pattern (clock i)) (O_CREATE OR fl) 0x180 s = (r, s1)" by fastforce
  note o = open_create [OF O]
  show ?case
  proof (cases "r = Inl EExist")
    case True
    with Loop(2) O have "loop dir pattern fl clock (i + 1) s1 = Some y" by simp
    then have "temp_outcome dir pattern fl clock (i + 1) s1 y" by (rule Loop(1))
    then show ?thesis by (rule temp_outcome_next) (use o True in auto)
  next
    case False
    with Loop(2) O have y: "y = (r, s1)" by simp
    show ?thesis
    proof (cases r)
      case (Inl e)
      with False y O open_error_keeps show ?thesis by (auto simp: temp_outcome_def)
    next
      case (Inr k)
      with y o show ?thesis unfolding temp_outcome_def by (auto intro!: exI [of _ i])
    qed
  qed
qed

text \<open>
  C36: \<^verbatim>\<open>CreateTemp\<close> returns unless the flags contain \<^verbatim>\<open>O_EXCL\<close>, no call fails and the name of every time that the clock shows is taken
  (so it does return as soon as the clock shows a time whose name is free). With \<^verbatim>\<open>O_EXCL\<close> it makes a new, empty file that only its
  owner can use, under the first name that is free. Without that flag it takes the first name, and if a file has it already, opens
  that file, its mode and, unless truncated, its data kept: the file is not new. When it returns an error, which is never that the
  file exists, no file was made or changed.
\<close>

theorem CreateTemp_result:
  fixes tmp dir pattern fl clock s
  defines "name i \<equiv> temp_name (if dir = [] then tmp else dir) pattern (clock i)"
  shows "(CreateTemp tmp dir pattern fl clock s = None \<longleftrightarrow>
        has fl O_EXCL \<and> set (fs_faults s) \<subseteq> {None} \<and> (\<forall>i. \<exists>n. look_up (name i) s = Inr (Some n)))
    \<and> (\<forall>k s'. CreateTemp tmp dir pattern fl clock s = Some (Inr k, s') \<longrightarrow>
        (\<exists>i. k = key_of s (name i)
          \<and> (if has fl O_EXCL
             then fs_nodes s k = None \<and> (\<forall>j < i. fs_nodes s (key_of s (name j)) \<noteq> None)
               \<and> (\<exists>m. fs_nodes s' = (fs_nodes s)(k \<mapsto> File m []) \<and> within m 0x180)
             else i = 0
               \<and> (fs_nodes s k = None \<longrightarrow> (\<exists>m. fs_nodes s' = (fs_nodes s)(k \<mapsto> File m []) \<and> within m 0x180))
               \<and> (\<forall>m d. fs_nodes s k = Some (File m d) \<longrightarrow> fs_nodes s' k = Some (File m (if has fl O_TRUNC then [] else d))))))
    \<and> (\<forall>e s'. CreateTemp tmp dir pattern fl clock s = Some (Inl e, s') \<longrightarrow> e \<noteq> EExist \<and> fs_nodes s' = fs_nodes s)"
proof -
  have c: "CreateTemp tmp dir pattern fl clock s = temp_loop (if dir = [] then tmp else dir) pattern fl clock 0 s"
    by (simp add: CreateTemp_def)
  have out: "temp_outcome (if dir = [] then tmp else dir) pattern fl clock 0 s y" if "CreateTemp tmp dir pattern fl clock s = Some y" for y
    using that temp_loop_result unfolding c by blast
  show ?thesis
  proof (intro conjI allI impI)
    show "CreateTemp tmp dir pattern fl clock s = None \<longleftrightarrow>
        has fl O_EXCL \<and> set (fs_faults s) \<subseteq> {None} \<and> (\<forall>i. \<exists>n. look_up (name i) s = Inr (Some n))"
      unfolding c temp_loop_endless by (simp add: endless_def name_def)
  next
    fix k s' assume "CreateTemp tmp dir pattern fl clock s = Some (Inr k, s')"
    from out [OF this] show "\<exists>i. k = key_of s (name i)
        \<and> (if has fl O_EXCL
           then fs_nodes s k = None \<and> (\<forall>j < i. fs_nodes s (key_of s (name j)) \<noteq> None)
             \<and> (\<exists>m. fs_nodes s' = (fs_nodes s)(k \<mapsto> File m []) \<and> within m 0x180)
           else i = 0
             \<and> (fs_nodes s k = None \<longrightarrow> (\<exists>m. fs_nodes s' = (fs_nodes s)(k \<mapsto> File m []) \<and> within m 0x180))
             \<and> (\<forall>m d. fs_nodes s k = Some (File m d) \<longrightarrow> fs_nodes s' k = Some (File m (if has fl O_TRUNC then [] else d))))"
      unfolding temp_outcome_def prod.case sum.case name_def by (simp only: le0 simp_thms)
  next
    fix e s' assume "CreateTemp tmp dir pattern fl clock s = Some (Inl e, s')"
    from out [OF this] show "e \<noteq> EExist" "fs_nodes s' = fs_nodes s" by (simp_all add: temp_outcome_def)
  qed
qed

text \<open>The name of the time 1 is free, then it is taken; the clock stands still or goes on.\<close>

theorem CreateTemp_result_witness:
  "\<exists>m s'. CreateTemp ''/tmp'' [] ''a*'' O_EXCL (\<lambda>_. 1) sample_fs = Some (Inr [''tmp'', ''a1''], s')
     \<and> fs_nodes s' [''tmp'', ''a1''] = Some (File m []) \<and> within m 0x180
     \<and> CreateTemp ''/tmp'' [] ''a*'' O_EXCL (\<lambda>_. 1) s' = None
     \<and> CreateTemp ''/tmp'' [] ''a*'' O_EXCL (\<lambda>i. i + 1) s' \<noteq> None"
proof -
  have "\<not> Option.is_none (CreateTemp ''/tmp'' [] ''a*'' O_EXCL (\<lambda>_. 1) sample_fs)" by code_simp
  then obtain r s' where E: "CreateTemp ''/tmp'' [] ''a*'' O_EXCL (\<lambda>_. 1) sample_fs = Some (r, s')"
    by (auto simp: Option.is_none_def)
  then have s': "s' = snd (the (CreateTemp ''/tmp'' [] ''a*'' O_EXCL (\<lambda>_. 1) sample_fs))"
    and r: "r = fst (the (CreateTemp ''/tmp'' [] ''a*'' O_EXCL (\<lambda>_. 1) sample_fs))" by simp_all
  have key: "r = Inr [''tmp'', ''a1'']" unfolding r by code_simp
  have ex: "has O_EXCL O_EXCL" by code_simp
  note first = CreateTemp_result [of "''/tmp''" "[]" "''a*''" O_EXCL "\<lambda>_. 1" sample_fs, THEN conjunct2, THEN conjunct1, rule_format,
      OF E [unfolded key]]
  obtain m where m: "fs_nodes s' = (fs_nodes sample_fs)([''tmp'', ''a1''] \<mapsto> File m [])" "within m 0x180"
    using first unfolding if_P [OF ex] by blast
  have nofault: "fs_faults s' = []" unfolding s' by code_simp
  have "look_up (temp_name ''/tmp'' ''a*'' 1) s' \<noteq> Inr None \<and> \<not> (case look_up (temp_name ''/tmp'' ''a*'' 1) s' of Inl _ \<Rightarrow> True | Inr _ \<Rightarrow> False)"
    unfolding s' by code_simp
  then have one: "\<exists>n. look_up (temp_name ''/tmp'' ''a*'' 1) s' = Inr (Some n)" by (auto split: sum.splits)
  have "look_up (temp_name ''/tmp'' ''a*'' (1 + 1)) s' = Inr None" unfolding s' by code_simp
  then have two: "\<not> (\<forall>i :: nat. \<exists>n. look_up (temp_name ''/tmp'' ''a*'' (i + 1)) s' = Inr (Some n))"
    by (metis Inr_inject option.distinct(1))
  show ?thesis
    using CreateTemp_result [of "''/tmp''" "[]" "''a*''" O_EXCL "\<lambda>_. 1" s']
      CreateTemp_result [of "''/tmp''" "[]" "''a*''" O_EXCL "\<lambda>i. i + 1" s'] one two ex nofault E key m
    by (intro exI [of _ m] exI [of _ s']) (simp del: One_nat_def)
qed

text \<open>Where the file is: \<^verbatim>\<open>path.Join\<close> drops the slash after the directory when the prefix is empty.\<close>

lemma join_slash_append: "xs \<noteq> [] \<Longrightarrow> join_slash (xs @ [y]) = join_slash xs @ CHR ''/'' # y"
  by (induction xs rule: join_slash.induct) auto

lemma join_slash_last: "join_slash (xs @ [y @ z]) = join_slash (xs @ [y]) @ z"
  by (cases "xs = []") (auto simp: join_slash_append)

lemma digit32_plain: "digit32 d \<noteq> CHR ''/'' \<and> digit32 d \<noteq> CHR ''.''" if "d < 32"
proof -
  have "list_all (\<lambda>d. digit32 d \<noteq> CHR ''/'' \<and> digit32 d \<noteq> CHR ''.'') [0..<32]" by code_simp
  with that show ?thesis by (simp add: list_all_iff)
qed

lemma format32_plain: "format32 n \<noteq> [] \<and> (\<forall>c \<in> set (format32 n). c \<noteq> CHR ''/'' \<and> c \<noteq> CHR ''.'')"
proof (induction n rule: format32.induct)
  case (1 n)
  then show ?case using digit32_plain [of n] digit32_plain [of "n mod 32"] by (subst (1 2) format32.simps) auto
qed

lemma plain_temp: "CHR ''/'' \<notin> set a \<Longrightarrow> CHR ''/'' \<notin> set b \<Longrightarrow> plain (a @ format32 n @ b)"
proof -
  assume s: "CHR ''/'' \<notin> set a" "CHR ''/'' \<notin> set b"
  obtain c cs where f: "format32 n = c # cs" using format32_plain [of n] by (cases "format32 n") auto
  with format32_plain [of n] have "c \<noteq> CHR ''.''" by auto
  then have "c \<notin> set ''.''" "c \<notin> set ''..''" by auto
  moreover have "c \<in> set (a @ format32 n @ b)" using f by simp
  ultimately have "a @ format32 n @ b \<noteq> ''.''" "a @ format32 n @ b \<noteq> ''..''" by metis+
  with s f format32_plain [of n] show ?thesis by (auto simp: plain_def)
qed

text \<open>
  In an existing directory, the temporary file for a pattern whose prefix is not empty lies in that directory; for a
  pattern that begins with the star it lies beside the directory, in the directory above, with the name
  of the directory as its prefix.
\<close>

theorem temp_file_place:
  assumes "list_all plain ds" "ds \<noteq> []" "CHR ''/'' \<notin> set suffix" "CHR ''*'' \<notin> set suffix"
    and "prefix = [] \<or> plain prefix"
  shows "key_of s (temp_name (abs_path ds) (prefix @ CHR ''*'' # suffix) msec)
    = (if prefix = [] then butlast ds @ [last ds @ format32 msec @ suffix] else ds @ [prefix @ format32 msec @ suffix])"
proof (cases "prefix = []")
  case True
  have "Join (abs_path ds) [] = abs_path ds" using assms(1) by (simp add: Join_def abs_path_def Clean_abs_path [unfolded abs_path_def])
  then have "temp_name (abs_path ds) (prefix @ CHR ''*'' # suffix) msec = abs_path ds @ format32 msec @ suffix"
    using True assms(4) split_pattern_star [of suffix "[]"] by (simp add: temp_name_def)
  also have "\<dots> = abs_path (butlast ds @ [last ds @ format32 msec @ suffix])"
    using assms(2) by (simp add: abs_path_def join_slash_last)
  also have "key_of s \<dots> = butlast ds @ [last ds @ format32 msec @ suffix]"
  proof -
    have "list_all plain (butlast ds)" using assms(1) by (auto simp: list_all_iff dest: in_set_butlastD)
    moreover have "CHR ''/'' \<notin> set (last ds)" using assms(1,2) by (auto simp: list_all_iff plain_def)
    ultimately show ?thesis using assms(3) by (simp add: key_of_def resolve_abs_path plain_temp)
  qed
  finally show ?thesis using True by simp
next
  case False
  with assms(5) have p: "plain prefix" by simp
  have "Join (abs_path ds) prefix = Clean (abs_path (ds @ [prefix]))"
    using False assms(2) by (simp add: Join_def abs_path_def join_slash_append)
  also have "\<dots> = abs_path (ds @ [prefix])" using assms(1) p by (simp add: Clean_abs_path)
  finally have "temp_name (abs_path ds) (prefix @ CHR ''*'' # suffix) msec = abs_path (ds @ [prefix]) @ format32 msec @ suffix"
    using assms(4) by (simp add: temp_name_def split_pattern_star)
  also have "\<dots> = abs_path (ds @ [prefix @ format32 msec @ suffix])"
    by (simp add: abs_path_def join_slash_last)
  also have "key_of s \<dots> = ds @ [prefix @ format32 msec @ suffix]"
    using assms(1,3) p by (simp add: key_of_def resolve_abs_path plain_temp plain_def [of prefix])
  finally show ?thesis using False by simp
qed

theorem temp_file_place_witness:
  "key_of sample_fs (temp_name ''/tmp'' ''*.txt'' 33) = [''tmp11.txt'']
    \<and> key_of sample_fs (temp_name ''/tmp'' ''a*.txt'' 33) = [''tmp'', ''a11.txt'']"
proof -
  have f: "format32 33 = ''11''" by code_simp
  have d: "abs_path [''tmp''] = ''/tmp''" by (simp add: abs_path_def)
  from temp_file_place [of "[''tmp'']" "''.txt''" "[]" sample_fs 33] temp_file_place [of "[''tmp'']" "''.txt''" "''a''" sample_fs 33]
  show ?thesis by (simp add: f d plain_def)
qed

end
