(* ===== verification/Cedar_HTTP.thy ===== *)
theory Cedar_HTTP
  imports Cedar_Values
begin

text \<open>
  \<^verbatim>\<open>utils/http.go\<close>: filling a struct from the headers and the query of a request according to the tags of its
  fields, guessing content types, and the client with the goroutine that closes its idle connections.
\<close>

section \<open>Tags\<close>

text \<open>
  \<^verbatim>\<open>FindAllStringSubmatch\<close> of the expression \<^verbatim>\<open>(header|query):"([^"]+)"\<close>: the leftmost match, and so on after it. A match is
  the source, the name and the rest of the string.
\<close>

datatype source = Src_header | Src_query

definition match_key :: "string \<Rightarrow> string \<Rightarrow> (string \<times> string) option" where
  "match_key key s =
     (if take (length key) s = key
      then (let rest = drop (length key) s;
                name = takeWhile (\<lambda>c. c \<noteq> CHR 0x22) rest;
                after = dropWhile (\<lambda>c. c \<noteq> CHR 0x22) rest
            in if name \<noteq> [] \<and> after \<noteq> [] then Some (name, tl after) else None)
      else None)"

definition match_here :: "string \<Rightarrow> (source \<times> string \<times> string) option" where
  "match_here s =
     (case match_key (''header:'' @ [CHR 0x22]) s of
        Some (name, rest) \<Rightarrow> Some (Src_header, name, rest)
      | None \<Rightarrow> (case match_key (''query:'' @ [CHR 0x22]) s of
                  Some (name, rest) \<Rightarrow> Some (Src_query, name, rest) | None \<Rightarrow> None))"

lemma match_key_shorter: "match_key key s = Some (name, rest) \<Longrightarrow> length rest < length s"
proof -
  assume m: "match_key key s = Some (name, rest)"
  let ?after = "dropWhile (\<lambda>c. c \<noteq> CHR 0x22) (drop (length key) s)"
  from m have "?after \<noteq> []" "rest = tl ?after" by (auto simp: match_key_def Let_def split: if_splits)
  moreover have "length ?after \<le> length (drop (length key) s)" by (rule length_dropWhile_le)
  ultimately show ?thesis by (cases ?after) (auto simp del: length_drop, auto)
qed

lemma match_here_shorter: "match_here s = Some (src, name, rest) \<Longrightarrow> length rest < length s"
  by (auto simp: match_here_def split: option.splits dest: match_key_shorter)

function find_tags :: "string \<Rightarrow> (source \<times> string) list" where
  "find_tags s =
     (case match_here s of
        Some (src, name, rest) \<Rightarrow> (src, name) # find_tags rest
      | None \<Rightarrow> (case s of [] \<Rightarrow> [] | _ # s' \<Rightarrow> find_tags s'))"
  by pat_completeness auto
termination
  by (relation "measure length") (auto dest: match_here_shorter)

declare find_tags.simps [simp del]

text \<open>
  \<^verbatim>\<open>StructTag.Get\<close>: pairs \<^verbatim>\<open>name:"value"\<close> with blanks between them; a value that \<^verbatim>\<open>strconv.Unquote\<close> would change or reject is
  taken as it stands.
\<close>

fun quoted :: "string \<Rightarrow> string \<Rightarrow> (string \<times> string) option" where
  "quoted acc [] = None"
| "quoted acc (c # s) =
     (if c = CHR 0x22 then Some (rev acc, s)
      else if c = CHR 0x5C then (case s of [] \<Rightarrow> None | d # s' \<Rightarrow> quoted (d # c # acc) s')
      else quoted (c # acc) s)"

lemma quoted_shorter: "quoted acc s = Some (v, rest) \<Longrightarrow> length rest < length s"
  by (induction acc s rule: quoted.induct) (auto split: if_splits list.splits)

definition tag_name_char :: "char \<Rightarrow> bool" where
  "tag_name_char c \<longleftrightarrow> (of_char c :: nat) > 32 \<and> c \<noteq> CHR '':'' \<and> c \<noteq> CHR 0x22 \<and> c \<noteq> CHR 0x7F"

definition tag_head :: "string \<Rightarrow> (string \<times> string \<times> string) option" where
  "tag_head tag =
     (let t = dropWhile (\<lambda>c. c = CHR '' '') tag;
          name = takeWhile tag_name_char t;
          rest = dropWhile tag_name_char t
      in if name = [] then None
         else (case rest of
                 c # d # q \<Rightarrow>
                   if c = CHR '':'' \<and> d = CHR 0x22
                   then (case quoted [] q of None \<Rightarrow> None | Some (v, tag') \<Rightarrow> Some (name, v, tag'))
                   else None
               | _ \<Rightarrow> None))"

lemma tag_head_shorter: "tag_head tag = Some (name, v, tag') \<Longrightarrow> length tag' < length tag"
proof -
  assume h: "tag_head tag = Some (name, v, tag')"
  let ?t = "dropWhile (\<lambda>c. c = CHR '' '') tag"
  obtain c d q where "dropWhile tag_name_char ?t = c # d # q" "quoted [] q = Some (v, tag')"
    using h by (auto simp: tag_head_def Let_def split: if_splits list.splits option.splits prod.splits)
  moreover have "length (dropWhile tag_name_char ?t) \<le> length tag"
    using length_dropWhile_le [of tag_name_char ?t] length_dropWhile_le [of "\<lambda>c. c = CHR '' ''" tag] by simp
  ultimately show ?thesis using quoted_shorter [of "[]" q v tag'] by simp
qed

function tag_get :: "string \<Rightarrow> string \<Rightarrow> string" where
  "tag_get key tag =
     (case tag_head tag of
        None \<Rightarrow> []
      | Some (name, v, tag') \<Rightarrow> if name = key then v else tag_get key tag')"
  by pat_completeness auto
termination
  by (relation "measure (\<lambda>(key, tag). length tag)") (auto dest: tag_head_shorter)

declare tag_get.simps [simp del]

section \<open>Filling a struct from a request\<close>

text \<open>
  The type of a field, as far as the code asks about it: a \<^verbatim>\<open>TextUnmarshaler\<close> (with its \<^verbatim>\<open>UnmarshalText\<close>), a type to and from
  which strings convert, one that only converts to a string (a number: \<^verbatim>\<open>ConvertibleTo\<close> is asked in the
  wrong direction and \<^verbatim>\<open>Convert\<close> then panics), another one.
\<close>

datatype ('v, 'e) field_type = FT_unmarshaler "string \<Rightarrow> 'e + 'v" | FT_string | FT_to_string | FT_other

text \<open>
  \<open>f_shape\<close>: a pointer (\<^verbatim>\<open>nil\<close> or not), addressable, neither. The fields of \<^verbatim>\<open>reflect.ValueOf(into).Elem()\<close> are addressable.
  \<open>f_exported\<close>: \<^verbatim>\<open>Interface()\<close> of a field that is not exported, or of its address, panics inside reflect.
\<close>

datatype shape = Sh_nil_pointer | Sh_pointer | Sh_addressable | Sh_value

record ('v, 'e) field =
  f_Name :: string
  f_Tag :: string
  f_exported :: bool
  f_shape :: shape
  f_type :: "('v, 'e) field_type"

datatype 'v field_value = FV_string string | FV_text 'v

datatype 'e http_error = CannotUnmarshal string | MissingField string | UnmarshalFailed 'e

text \<open>What became of one field: set, left alone, an error, a panic.\<close>

datatype ('v, 'e) field_result = FR_set "'v field_value" | FR_none | FR_error "'e http_error" | FR_panic

text \<open>The request: \<^verbatim>\<open>Header.Get\<close> and \<^verbatim>\<open>URL.Query().Get\<close>.\<close>

record request =
  r_header :: "string \<Rightarrow> string"
  r_query :: "string \<Rightarrow> string"

fun source_value :: "request \<Rightarrow> source \<times> string \<Rightarrow> string" where
  "source_value r (Src_header, name) = r_header r name"
| "source_value r (Src_query, name) = r_query r name"

definition unmarshalHTTPRequestField :: "('v, 'e) field \<Rightarrow> string \<Rightarrow> ('v, 'e) field_result" where
  "unmarshalHTTPRequestField f val =
     (if \<not> f_exported f then FR_panic
      else case f_type f of
        FT_unmarshaler um \<Rightarrow> (case um val of Inl e \<Rightarrow> FR_error (UnmarshalFailed e) | Inr v \<Rightarrow> FR_set (FV_text v))
      | FT_string \<Rightarrow> if f_shape f = Sh_nil_pointer then FR_panic else FR_set (FV_string val)
      | FT_to_string \<Rightarrow> FR_panic
      | FT_other \<Rightarrow> FR_panic)"

text \<open>The loop over the matches of a tag.\<close>

fun match_loop :: "request \<Rightarrow> ('v, 'e) field \<Rightarrow> (source \<times> string) list \<Rightarrow> ('v, 'e) field_result" where
  "match_loop r f [] = FR_none"
| "match_loop r f (m # ms) =
     (let val = source_value r m
      in if val = [] then match_loop r f ms
         else if f_shape f = Sh_value then FR_error (CannotUnmarshal (f_Name f))
         else unmarshalHTTPRequestField f val)"

definition request_field :: "request \<Rightarrow> ('v, 'e) field \<Rightarrow> ('v, 'e) field_result" where
  "request_field r f =
     (case match_loop r f (find_tags (f_Tag f)) of
        FR_none \<Rightarrow> if tag_get ''required'' (f_Tag f) \<noteq> [] then FR_error (MissingField (f_Name f)) else FR_none
      | res \<Rightarrow> res)"

text \<open>The loop over the fields, with the results of the fields before.\<close>

datatype 'e http_outcome = Http_nil | Http_error "'e http_error" | Http_panic

fun fields_loop ::
  "request \<Rightarrow> ('v, 'e) field list \<Rightarrow> 'v field_value option list \<Rightarrow> 'e http_outcome \<times> 'v field_value option list"
where
  "fields_loop r [] acc = (Http_nil, acc)"
| "fields_loop r (f # fs) acc =
     (case request_field r f of
        FR_error e \<Rightarrow> (Http_error e, acc @ map (\<lambda>_. None) (f # fs))
      | FR_panic \<Rightarrow> (Http_panic, acc @ map (\<lambda>_. None) (f # fs))
      | FR_none \<Rightarrow> fields_loop r fs (acc @ [None])
      | FR_set v \<Rightarrow> fields_loop r fs (acc @ [Some v]))"

definition UnmarshalHTTPRequest ::
  "('v, 'e) field list \<Rightarrow> request \<Rightarrow> 'e http_outcome \<times> 'v field_value option list"
where
  "UnmarshalHTTPRequest into r = fields_loop r into []"

text \<open>The value meant for a field: that of the first of its sources, in the order of the tag, that has one.\<close>

definition first_value :: "request \<Rightarrow> ('v, 'e) field \<Rightarrow> string option" where
  "first_value r f = find (\<lambda>v. v \<noteq> []) (map (source_value r) (find_tags (f_Tag f)))"

lemma field_set_or_fails: "unmarshalHTTPRequestField f v \<noteq> FR_none"
  by (auto simp: unmarshalHTTPRequestField_def split: field_type.splits sum.splits)

lemma match_loop_first:
  "match_loop r f ms =
     (case find (\<lambda>v. v \<noteq> []) (map (source_value r) ms) of
        None \<Rightarrow> FR_none
      | Some v \<Rightarrow> if f_shape f = Sh_value then FR_error (CannotUnmarshal (f_Name f)) else unmarshalHTTPRequestField f v)"
  by (induction ms) (auto simp: Let_def)

lemma request_field_first:
  "request_field r f =
     (case first_value r f of
        None \<Rightarrow> if tag_get ''required'' (f_Tag f) \<noteq> [] then FR_error (MissingField (f_Name f)) else FR_none
      | Some v \<Rightarrow> if f_shape f = Sh_value then FR_error (CannotUnmarshal (f_Name f)) else unmarshalHTTPRequestField f v)"
proof (cases "first_value r f")
  case None
  then show ?thesis by (simp add: request_field_def match_loop_first first_value_def)
next
  case (Some v)
  then show ?thesis using field_set_or_fails [of f v]
    by (auto simp: request_field_def match_loop_first first_value_def split: field_result.splits)
qed

definition settled :: "request \<Rightarrow> ('v, 'e) field \<Rightarrow> bool" where
  "settled r f \<longleftrightarrow> (case request_field r f of FR_set _ \<Rightarrow> True | FR_none \<Rightarrow> True | _ \<Rightarrow> False)"

definition assigned :: "request \<Rightarrow> ('v, 'e) field \<Rightarrow> 'v field_value option" where
  "assigned r f = (case request_field r f of FR_set v \<Rightarrow> Some v | _ \<Rightarrow> None)"

definition failure :: "('v, 'e) field_result \<Rightarrow> 'e http_outcome" where
  "failure res = (case res of FR_error e \<Rightarrow> Http_error e | FR_panic \<Rightarrow> Http_panic | _ \<Rightarrow> Http_nil)"

lemma fields_loop_result:
  "fields_loop r fs acc =
     (let n = length (takeWhile (settled r) fs)
      in (if n < length fs then failure (request_field r (fs ! n)) else Http_nil,
          acc @ map (assigned r) (take n fs) @ replicate (length fs - n) None))"
proof (induction fs arbitrary: acc)
  case (Cons f fs)
  show ?case
  proof (cases "request_field r f")
    case (FR_set v)
    then show ?thesis by (simp add: Cons.IH Let_def settled_def assigned_def)
  next
    case FR_none
    then show ?thesis by (simp add: Cons.IH Let_def settled_def assigned_def)
  qed (simp_all add: Let_def settled_def failure_def map_replicate_const)
qed simp

lemma match_key_first:
  assumes "name \<noteq> []" "CHR 0x22 \<notin> set name"
  shows "match_key key (key @ name @ CHR 0x22 # rest) = Some (name, rest)"
proof -
  have "\<forall>c \<in> set name. c \<noteq> CHR 0x22" using assms(2) by auto
  then have "takeWhile (\<lambda>c. c \<noteq> CHR 0x22) (name @ CHR 0x22 # rest) = name"
    "dropWhile (\<lambda>c. c \<noteq> CHR 0x22) (name @ CHR 0x22 # rest) = CHR 0x22 # rest"
    by (simp_all add: takeWhile_append2 dropWhile_append2)
  with assms(1) show ?thesis by (simp add: match_key_def Let_def)
qed

text \<open>The first entry of a tag is found.\<close>

lemma find_tags_header:
  assumes "name \<noteq> []" "CHR 0x22 \<notin> set name"
  shows "find_tags ((''header:'' @ [CHR 0x22]) @ name @ CHR 0x22 # rest) = (Src_header, name) # find_tags rest"
  by (subst find_tags.simps) (simp only: match_here_def match_key_first [OF assms] option.case prod.case)


definition sample_fields :: "(nat, nat) field list" where
  "sample_fields =
     [\<lparr>f_Name = ''ID'', f_Tag = ''header:'' @ [CHR 0x22] @ ''X-Id'' @ [CHR 0x22] @ '' query:'' @ [CHR 0x22] @ ''id'' @ [CHR 0x22],
       f_exported = True, f_shape = Sh_addressable, f_type = FT_string\<rparr>]"

definition sample_request :: request where
  "sample_request = \<lparr>r_header = (\<lambda>_. []), r_query = (\<lambda>n. if n = ''id'' then ''7'' else [])\<rparr>"


section \<open>Content types\<close>

definition GuessContentTypeFromFilename :: "string \<Rightarrow> string" where
  "GuessContentTypeFromFilename filename =
     (let parts = Split (CHR ''.'') filename
      in if length parts > 1
         then (let ext = ToLower (parts ! (length parts - 1))
               in if ext = ''txt'' then ''text/plain''
                  else if ext = ''html'' then ''text/html''
                  else if ext = ''js'' then ''application/js''
                  else if ext = ''json'' then ''application/json''
                  else if ext = ''png'' then ''image/png''
                  else if ext = ''jpg'' \<or> ext = ''jpeg'' then ''image/jpeg''
                  else ''application/octet-stream'')
         else ''application/octet-stream'')"

lemma guess_no_dot: "CHR ''.'' \<notin> set s \<Longrightarrow> GuessContentTypeFromFilename s = ''application/octet-stream''"
  by (simp add: GuessContentTypeFromFilename_def Split_no_sep)

lemma guess_extension:
  "CHR ''.'' \<notin> set ext \<Longrightarrow> GuessContentTypeFromFilename (base @ CHR ''.'' # ext) = GuessContentTypeFromFilename (CHR ''.'' # ext)"
proof -
  assume e: "CHR ''.'' \<notin> set ext"
  have l: "Split (CHR ''.'') (p @ CHR ''.'' # ext) ! (length (Split (CHR ''.'') (p @ CHR ''.'' # ext)) - 1) = ext" for p
    using last_Split_append [OF e, of p] by (simp add: last_conv_nth)
  have m: "(length (Split (CHR ''.'') (p @ CHR ''.'' # ext)) > 1) = True" for p by (induction p) auto
  show ?thesis unfolding GuessContentTypeFromFilename_def Let_def
    by (simp only: l m l [of "[]", unfolded append_Nil] m [of "[]", unfolded append_Nil] if_True)
qed

text \<open>
  \<^verbatim>\<open>SniffContentType\<close>: \<open>got\<close> and \<open>err\<close> are what \<^verbatim>\<open>data.Read\<close> gives, \<open>detect\<close> is \<^verbatim>\<open>http.DetectContentType\<close>. The whole buffer is
  looked at, not only what was read.
\<close>

definition SniffContentType :: "(bytes \<Rightarrow> string) \<Rightarrow> string \<Rightarrow> bytes \<Rightarrow> 'e option \<Rightarrow> 'e + string" where
  "SniffContentType detect filename got err =
     (let buffer = take 512 got @ replicate (512 - length got) 0
      in case err of
           Some e \<Rightarrow> Inl e
         | None \<Rightarrow>
             (let contentType = detect buffer
              in Inr (if contentType = ''application/octet-stream'' then GuessContentTypeFromFilename filename
                      else contentType)))"

section \<open>Responses\<close>

text \<open>
  A response: its headers in the order they were added, and its body. \<open>encode\<close> is the JSON encoder; where it fails \<^verbatim>\<open>RespondJSON\<close>
  panics, after it has added the header and possibly written a part of the text.
\<close>

record response =
  resp_Header :: "(string \<times> string) list"
  resp_body :: bytes

datatype respond_result = Responded response | Respond_panic response

definition RespondJSON :: "('v \<Rightarrow> bytes \<times> 'e option) \<Rightarrow> 'v \<Rightarrow> response \<Rightarrow> respond_result" where
  "RespondJSON encode data resp =
     (let resp1 = resp\<lparr>resp_Header := resp_Header resp @ [(''Content-Type'', ''application/json'')]\<rparr>
      in case encode data of
           (written, err) \<Rightarrow>
             let resp2 = resp1\<lparr>resp_body := resp_body resp1 @ written\<rparr>
             in (case err of None \<Rightarrow> Responded resp2 | Some e \<Rightarrow> Respond_panic resp2))"

text \<open>\<^verbatim>\<open>UnrestrictedCors\<close>: the options it gives to the package \<^verbatim>\<open>github.com/rs/cors\<close>, whose handler is the argument \<open>new_cors\<close>.\<close>

record cors_options =
  co_AllowOriginFunc :: "string \<Rightarrow> bool"
  co_AllowedMethods :: "string list"
  co_AllowedHeaders :: "string list"
  co_ExposedHeaders :: "string list"
  co_AllowCredentials :: bool

definition UnrestrictedCors :: "(cors_options \<Rightarrow> 'h \<Rightarrow> 'h) \<Rightarrow> 'h \<Rightarrow> 'h" where
  "UnrestrictedCors new_cors handler =
     new_cors
       \<lparr>co_AllowOriginFunc = (\<lambda>_. True),
        co_AllowedMethods = [''GET'', ''POST'', ''PUT'', ''PATCH'', ''AUTHORIZE'', ''SUBSCRIBE'', ''ACK'', ''OPTIONS'', ''HEAD''],
        co_AllowedHeaders = [''*''], co_ExposedHeaders = [''*''], co_AllowCredentials = True\<rparr> handler"

section \<open>The client\<close>

text \<open>
  \<^verbatim>\<open>HTTPClient\<close>: the channel \<^verbatim>\<open>chStop\<close>, whether the goroutine that closes idle connections runs, and how
  often it has closed them.
\<close>

text \<open>The options of the client and of its transport. \<^verbatim>\<open>tls.VersionTLS13\<close> is \<open>0x304\<close>, \<^verbatim>\<open>tls.RequestClientCert\<close> is \<open>1\<close>.\<close>

record ('jar, 'cert) client_options =
  co_Timeout :: int64
  co_Jar :: 'jar
  co_MinVersion :: nat
  co_MaxVersion :: nat
  co_Certificates :: "'cert list"
  co_ClientAuth :: nat
  co_InsecureSkipVerify :: bool

definition http_options :: "int64 \<Rightarrow> 'jar \<Rightarrow> 'cert list \<Rightarrow> ('jar, 'cert) client_options" where
  "http_options requestTimeout cookieJar tlsCerts =
     \<lparr>co_Timeout = requestTimeout, co_Jar = cookieJar, co_MinVersion = 0x304, co_MaxVersion = 0x304,
      co_Certificates = tlsCerts, co_ClientAuth = 1, co_InsecureSkipVerify = True\<rparr>"

record ('jar, 'cert) http_client =
  hc_options :: "('jar, 'cert) client_options"
  hc_stop :: chan
  hc_reaping :: bool
  hc_closed_idle :: nat

definition MakeHTTPClient :: "int64 \<Rightarrow> int64 \<Rightarrow> 'jar \<Rightarrow> 'cert list \<Rightarrow> ('jar, 'cert) http_client" where
  "MakeHTTPClient requestTimeout reapIdleConnsInterval cookieJar tlsCerts =
     \<lparr>hc_options = http_options requestTimeout cookieJar tlsCerts,
      hc_stop = ChOpen, hc_reaping = (0 <s reapIdleConnsInterval), hc_closed_idle = 0\<rparr>"

definition HTTPClient_Close :: "('jar, 'cert) http_client \<Rightarrow> ('jar, 'cert) http_client option" where
  "HTTPClient_Close c = (case chan_close (hc_stop c) of None \<Rightarrow> None | Some ch \<Rightarrow> Some (c\<lparr>hc_stop := ch\<rparr>))"

inductive http_step :: "('jar, 'cert) http_client \<Rightarrow> ('jar, 'cert) http_client \<Rightarrow> bool" where
  http_tick: "hc_reaping c \<Longrightarrow> http_step c (c\<lparr>hc_closed_idle := hc_closed_idle c + 1\<rparr>)"
| http_close: "HTTPClient_Close c = Some c' \<Longrightarrow> http_step c c'"
| http_stopped: "hc_reaping c \<Longrightarrow> chan_ready (hc_stop c) \<Longrightarrow>
     http_step c (c\<lparr>hc_closed_idle := hc_closed_idle c + 1, hc_reaping := False\<rparr>)"

text \<open>After \<^verbatim>\<open>Close\<close> the goroutine can end, closing the idle connections once more; a second \<^verbatim>\<open>Close\<close> panics.\<close>

lemma http_client_stops:
  assumes "HTTPClient_Close c = Some c'" "hc_reaping c"
  shows "\<exists>d. http_step c' d \<and> \<not> hc_reaping d \<and> hc_closed_idle d = hc_closed_idle c + 1"
    and "HTTPClient_Close c' = None"
proof -
  have c': "c' = c\<lparr>hc_stop := ChClosed\<rparr>" using assms(1) by (auto simp: HTTPClient_Close_def split: option.splits)
  have "http_step c' (c'\<lparr>hc_closed_idle := hc_closed_idle c' + 1, hc_reaping := False\<rparr>)"
    using assms(2) c' by (intro http_stopped) simp_all
  then show "\<exists>d. http_step c' d \<and> \<not> hc_reaping d \<and> hc_closed_idle d = hc_closed_idle c + 1"
    using c' by (intro exI [of _ "c'\<lparr>hc_closed_idle := hc_closed_idle c' + 1, hc_reaping := False\<rparr>"]) simp
  show "HTTPClient_Close c' = None" by (simp add: c' HTTPClient_Close_def)
qed

end
