(* ===== verification/Cedar_Scheduler.thy ===== *)
theory Cedar_Scheduler
  imports Cedar_Pool_Props Cedar_Time
begin

text \<open>
  The static scheduler of \<^verbatim>\<open>process/pool_worker.go\<close> together with the pool: when an item is worked on again.
\<close>

record static_scheduler =
  ss_checkForRetriesInterval :: duration
  ss_retryAfter :: duration

definition NewStaticScheduler :: "duration \<Rightarrow> duration \<Rightarrow> static_scheduler" where
  "NewStaticScheduler interval retryAfter = \<lparr>ss_checkForRetriesInterval = interval, ss_retryAfter = retryAfter\<rparr>"

definition CheckForRetriesInterval :: "static_scheduler \<Rightarrow> duration" where
  "CheckForRetriesInterval s = ss_checkForRetriesInterval s"

text \<open>\<open>now\<close> is what \<^verbatim>\<open>time.Now()\<close> gives.\<close>

definition RetryWhen :: "time \<Rightarrow> static_scheduler \<Rightarrow> time" where
  "RetryWhen now s = Time_Add now (ss_retryAfter s)"

text \<open>Steps without a forced retry of \<open>k\<close> and without a tick of the clock later than \<open>T\<close>.\<close>

definition quiet_next ::
    "'sem sem_ops \<Rightarrow> ('i \<Rightarrow> 'k) \<Rightarrow> 'k \<Rightarrow> time \<Rightarrow> ('k, 'i, 'sem) psys \<Rightarrow> ('k, 'i, 'sem) psys \<Rightarrow> bool" where
  "quiet_next ops ID k T s t \<longleftrightarrow>
     (\<exists>e. pool_step ops ID e s t \<and> e \<noteq> Client_force k \<and> (\<forall>now. e = Handler now \<longrightarrow> now \<le> T))"

definition waits_until :: "'k \<Rightarrow> time \<Rightarrow> ('k, 'i, 'sem) psys \<Rightarrow> bool" where
  "waits_until k T s \<longleftrightarrow>
     (\<exists>en. poolItems (pool s) k = Some en \<and> pi_state en = InRetryPool \<and> pi_retryWhen en = T)"

lemma waits_step:
  assumes "quiet_next ops ID k T s t" and "psys_inv held ID s" and "waits_until k T s"
  shows "waits_until k T t"
proof -
  obtain e en where e: "pool_step ops ID e s t" "e \<noteq> Client_force k" "\<forall>now. e = Handler now \<longrightarrow> now \<le> T"
    and en: "poolItems (pool s) k = Some en" "pi_state en = InRetryPool" "pi_retryWhen en = T"
    using assms(1,3) by (auto simp: quiet_next_def waits_until_def)
  obtain en' where en': "poolItems (pool t) k = Some en'" "en' = en \<or> entry_step e k (workers s) ID en en'"
    using entry_moves [OF e(1) assms(2) en(1)] by blast
  have "\<not> entry_step e k (workers s) ID en en'"
    using e(2,3) en(2,3) by (auto simp: entry_step_def)
  with en' en show ?thesis by (auto simp: waits_until_def)
qed

lemma waits_steps:
  assumes "(quiet_next ops ID k T)\<^sup>*\<^sup>* s t" and "semaphore ops n held" and "psys_inv held ID s" and "waits_until k T s"
  shows "psys_inv held ID t \<and> waits_until k T t"
  using assms(1)
proof (induction rule: rtranclp_induct)
  case (step u v)
  then have "pool_next ops ID u v" by (auto simp: quiet_next_def pool_next_def)
  then have "psys_inv held ID v" using psys_steps_inv [OF assms(2), of ID u v] step.IH by blast
  with waits_step [OF step.hyps(2)] step.IH show ?case by blast
qed (use assms in simp)

lemma waiting_nowhere:
  assumes "psys_inv held ID s" and "waits_until k T s"
  shows "queued k (pool s) = 0 \<and> held_by_d k (deliverer s) = 0 \<and> (\<forall>w \<in> set (workers s). held_by_w ID k w = 0)"
proof -
  have "\<not> avail k (pool s)" using assms(2) by (auto simp: waits_until_def avail_def)
  with pool_okD(6) [OF psys_invD(1) [OF assms(1)], of k] show ?thesis by (simp add: away_def)
qed

text \<open>
  C20: An item whose work asks for a retry at time \<open>now\<close> is not available again, and in nobody's hands, before a tick later
  than \<open>now\<close> plus the scheduler's \<^verbatim>\<open>retryAfter\<close>, unless a client forces its retry: whatever else the
  clients, the workers and the clock do meanwhile.
\<close>

theorem retry_waits_for_scheduler:
  assumes "semaphore ops n held"
    and "reachable (pool_init ops n) (pool_next ops ID) s"
    and "i < length (workers s)" "workers s ! i = Wk_report item True"
    and "RetryLater ops (ID item) (RetryWhen now sched) (pool s) = Some p"
    and "(quiet_next ops ID (ID item) (RetryWhen now sched))\<^sup>*\<^sup>* (s\<lparr>workers := (workers s)[i := Wk_top], pool := p\<rparr>) t"
  shows "waits_until (ID item) (now + sint (ss_retryAfter sched)) t
    \<and> queued (ID item) (pool t) = 0 \<and> held_by_d (ID item) (deliverer t) = 0
    \<and> (\<forall>w \<in> set (workers t). held_by_w ID (ID item) w = 0)"
proof -
  let ?T = "RetryWhen now sched" and ?s = "s\<lparr>workers := (workers s)[i := Wk_top], pool := p\<rparr>"
  have s: "psys_inv held ID s" using assms(1,2) by (rule reachable_psys_inv)
  have "pool_next ops ID s ?s"
    unfolding pool_next_def by (rule exI [of _ "Worker i"], rule step_w_retry) (fact assms)+
  then have inv: "psys_inv held ID ?s" using psys_steps_inv [OF assms(1) s] by blast
  obtain p' where "setState (ID item) InRetryPool ?T (pool s) = Some p'" "release_one ops p' = Some p"
    using assms(5) by (auto simp: RetryLater_def split: option.splits)
  then have "waits_until (ID item) ?T ?s"
    by (auto simp: waits_until_def setState_def release_one_items split: option.splits)
  from waits_steps [OF assms(6,1) inv this] waiting_nowhere [of held ID t "ID item" ?T] show ?thesis
    by (simp add: RetryWhen_def Time_Add_def)
qed

text \<open>The second worker asks for a retry at time 3, with a scheduler that waits for 4.\<close>

definition answering :: "(nat, nat, nat) psys" where
  "answering = the (moves (capped 2) (\<lambda>i. i) [M_work 1 (Some 7)] working)"

theorem retry_waits_for_scheduler_witness:
  "waits_until 6 7 (answering\<lparr>workers := (workers answering)[1 := Wk_top],
     pool := the (RetryLater (capped 2) 6 7 (pool answering))\<rparr>)"
proof -
  have "moves (capped 2) (\<lambda>i. i) [M_work 1 (Some 7)] working = Some answering"
    unfolding answering_def by (rule some_the) code_simp
  then have r: "reachable (pool_init (capped 2) 2) (pool_next (capped 2) (\<lambda>i. i)) answering"
    using working_reachable by (rule moves_reachable)
  have w: "1 < length (workers answering)" "workers answering ! 1 = Wk_report 6 True" by code_simp+
  have p: "RetryLater (capped 2) 6 7 (pool answering) = Some (the (RetryLater (capped 2) 6 7 (pool answering)))"
    by (rule some_the) code_simp
  have T: "RetryWhen 3 (NewStaticScheduler 1 4) = 7" by (simp add: RetryWhen_def NewStaticScheduler_def Time_Add_def)
  from retry_waits_for_scheduler [OF capped_semaphore r w, of 3 "NewStaticScheduler 1 4",
      unfolded T, OF p rtranclp.rtrancl_refl]
  show ?thesis by (simp add: NewStaticScheduler_def)
qed

end
