(* ===== verification/Cedar_Pool_Close.thy ===== *)
theory Cedar_Pool_Close
  imports Cedar_Pool_Props
begin

text \<open>
  What closing does to a pool: when the contexts of its goroutines are done, they end by themselves.
\<close>

definition cancelled :: "('k, 'i, 'sem) psys \<Rightarrow> bool" where
  "cancelled s \<longleftrightarrow> d_ctx s \<and> (\<forall>i < length (workers s). w_ctx s i)"

definition all_returned :: "('k, 'i, 'sem) psys \<Rightarrow> bool" where
  "all_returned s \<longleftrightarrow> deliverer s = D_return \<and> (\<forall>w \<in> set (workers s). w = Wk_return)"

lemma works_contexts:
  assumes "pool_works ops ID s t"
  shows "d_ctx t = d_ctx s \<and> w_ctx t = w_ctx s \<and> length (workers t) = length (workers s)"
proof -
  obtain e where e: "internal e" and st: "pool_step ops ID e s t" using assms by (auto simp: pool_works_def)
  from st show ?thesis by cases (use e in \<open>simp_all add: internal_def\<close>)
qed

lemma works_cancelled: "(pool_works ops ID)\<^sup>*\<^sup>* s t \<Longrightarrow> cancelled s \<Longrightarrow> cancelled t"
  by (induction rule: rtranclp_induct) (auto simp: cancelled_def dest: works_contexts)

lemma works_next: "(pool_works ops ID)\<^sup>*\<^sup>* s t \<Longrightarrow> (pool_next ops ID)\<^sup>*\<^sup>* s t"
  by (induction rule: rtranclp_induct) (auto simp: pool_works_def pool_next_def intro: rtranclp.rtrancl_into_rtrancl)

lemma cancelled_deliverer_steps:
  assumes inv: "psys_inv held ID s" and "d_ctx s" and "deliverer s \<noteq> D_return"
  shows "\<exists>t. pool_step ops ID Deliverer s t"
proof (cases "deliverer s")
  case D_retrieve
  then have "pool_step ops ID Deliverer s (s\<lparr>deliverer := D_loop (fst (RetrieveAll (itemsAvailable (pool s)))),
      pool := (pool s)\<lparr>itemsAvailable := snd (RetrieveAll (itemsAvailable (pool s)))\<rparr>\<rparr>)"
    by (intro step_d_retrieve) (simp_all add: prod_eq_iff)
  then show ?thesis by blast
next
  case (D_loop ids)
  show ?thesis
  proof (cases ids)
    case (Cons uid ids')
    with D_loop deliver_next(1) [OF inv, of uid ids'] show ?thesis by (blast intro: step_d_next)
  qed (use D_loop in \<open>blast intro: step_d_again\<close>)
qed (use assms(2,3) in \<open>blast intro: step_d_done\<close>)+

lemma cancelled_worker_steps:
  assumes sem: "semaphore ops n held" and inv: "psys_inv held ID s" and i: "i < length (workers s)"
    and ctx: "w_ctx s i" and w: "workers s ! i \<noteq> Wk_return"
  shows "\<exists>t. pool_step ops ID (Worker i) s t"
proof (cases "permits (workers s ! i) = 1 \<and> workers s ! i \<noteq> Wk_select")
  case True
  then show ?thesis using busy_worker_steps [OF sem inv i] by blast
next
  case False
  then consider "workers s ! i = Wk_top" | "workers s ! i = Wk_acquire" | "workers s ! i = Wk_select"
    using w by (cases "workers s ! i") auto
  then show ?thesis
  proof cases
    case 3
    then obtain p where "release_one ops (pool s) = Some p"
      using release_one_Some [OF sem permits_pos [OF inv i]] by auto
    with 3 show ?thesis using i ctx by (blast intro: step_w_select_err)
  qed (use i ctx in \<open>blast intro: step_w_stop step_w_acquire_err\<close>)+
qed

lemma cancelled_rest_returned:
  assumes sem: "semaphore ops n held" and inv: "psys_inv held ID s" and c: "cancelled s"
    and rest: "\<nexists>t. pool_works ops ID s t"
  shows "all_returned s \<and> held (pool_sem (pool s)) = 0"
proof -
  have stuck: "\<not> pool_step ops ID e s t" if "internal e" for e t
    using rest that unfolding pool_works_def by blast
  have d: "deliverer s = D_return"
    using cancelled_deliverer_steps [OF inv, of ops] stuck [of Deliverer] c by (auto simp: cancelled_def internal_def)
  have w: "workers s ! i = Wk_return" if "i < length (workers s)" for i
    using cancelled_worker_steps [OF sem inv that] stuck [of "Worker i"] c that by (auto simp: cancelled_def internal_def)
  then have all: "\<forall>w \<in> set (workers s). w = Wk_return" by (auto simp: in_set_conv_nth)
  then have "sum_list (map permits (workers s)) = 0" by (auto simp: sum_list_eq_0_iff)
  with psys_invD(4) [OF inv] d all show ?thesis by (simp add: all_returned_def)
qed

lemma works_rest: "\<exists>t. (pool_works ops ID)\<^sup>*\<^sup>* s t \<and> (\<nexists>u. pool_works ops ID t u)"
proof (induction "weight s" arbitrary: s rule: less_induct)
  case less
  show ?case
  proof (cases "\<exists>u. pool_works ops ID s u")
    case True
    then obtain u where u: "pool_works ops ID s u" by blast
    then have "weight u < weight s" using works_weight by (auto simp: pool_works_def)
    from less [OF this] u show ?thesis by (blast intro: converse_rtranclp_into_rtranclp)
  qed blast
qed

text \<open>
  Once the contexts of the deliverer and of all workers are done, they end without anyone's help: they can come to
  rest, and wherever they come to rest all of them have returned and every permit of the semaphore has been
  given back, whatever they were doing and whatever \<^verbatim>\<open>Work\<close> answers.
\<close>

theorem cancelled_pool_stops:
  assumes "semaphore ops n held"
    and "reachable (pool_init ops n) (pool_next ops ID) s" and "cancelled s"
  shows "(\<exists>t. (pool_works ops ID)\<^sup>*\<^sup>* s t \<and> (\<nexists>u. pool_works ops ID t u))
    \<and> (\<forall>t. (pool_works ops ID)\<^sup>*\<^sup>* s t \<and> (\<nexists>u. pool_works ops ID t u) \<longrightarrow>
          all_returned t \<and> held (pool_sem (pool t)) = 0 \<and> length (workers t) = length (workers s))"
proof -
  have inv: "psys_inv held ID t" if "(pool_works ops ID)\<^sup>*\<^sup>* s t" for t
    using psys_steps_inv [OF assms(1) reachable_psys_inv [OF assms(1,2)] works_next [OF that]] .
  have "length (workers t) = length (workers s)" if "(pool_works ops ID)\<^sup>*\<^sup>* s t" for t
    using that by (induction rule: rtranclp_induct) (auto dest: works_contexts)
  with inv works_cancelled [OF _ assms(3)] cancelled_rest_returned [OF assms(1)] works_rest show ?thesis by blast
qed

text \<open>Two workers at work when everything is cancelled.\<close>

definition working_cancelled :: "(nat, nat, nat) psys" where
  "working_cancelled = working\<lparr>d_ctx := True, h_ctx := True, w_ctx := (\<lambda>_. True)\<rparr>"

lemma working_cancelled_reachable: "reachable (pool_init (capped 2) 2) (pool_next (capped 2) (\<lambda>i. i)) working_cancelled"
proof -
  have "pool_step (capped 2) (\<lambda>i. i) Cancel working working_cancelled"
    using step_cancel [of "capped 2" "\<lambda>i. i" working, where d = True and h = True and w = "\<lambda>_. True"] by (simp add: working_cancelled_def)
  then have "pool_next (capped 2) (\<lambda>i. i) working working_cancelled" unfolding pool_next_def by (rule exI)
  with working_reachable show ?thesis by (rule reachable_step)
qed

theorem cancelled_pool_stops_witness:
  "\<exists>t. (pool_works (capped 2) (\<lambda>i. i))\<^sup>*\<^sup>* working_cancelled t \<and> all_returned t \<and> pool_sem (pool t) = 0 \<and> length (workers t) = 2"
proof -
  have "cancelled working_cancelled" by (simp add: cancelled_def working_cancelled_def)
  moreover have "length (workers working_cancelled) = 2" by code_simp
  ultimately show ?thesis
    using cancelled_pool_stops [OF capped_semaphore working_cancelled_reachable] by metis
qed

end
