(* ===== verification/Cedar_Task_Ticker.thy ===== *)
theory Cedar_Task_Ticker
  imports Cedar_Ticker Cedar_Periodic
begin

text \<open>
  A periodic task over an \<^verbatim>\<open>ExponentialBackoffTicker\<close>: the two machines side by side. A tick is one step of both; every
  other step belongs to one of them. What each promises alone holds in the composition.
\<close>

section \<open>The composition\<close>

record task_sys =
  ts_ticker :: ticker
  ts_task :: task

text \<open>\<^verbatim>\<open>OnContextStarted\<close> starts the ticker, and then the goroutine of the task.\<close>

definition start_task :: "duration \<Rightarrow> duration \<Rightarrow> task_sys" where
  "start_task mn mx = \<lparr>ts_ticker = Ticker_Start (NewExponentialBackoffTicker mn mx), ts_task = NewPeriodicTask\<rparr>"

text \<open>\<^verbatim>\<open>Close\<close> of the task is a call of the ticker's \<^verbatim>\<open>Close\<close>.\<close>

definition PeriodicTask_Close :: "task_sys \<Rightarrow> task_sys" where
  "PeriodicTask_Close s = s\<lparr>ts_ticker := (ts_ticker s)\<lparr>tk_calls := tk_calls (ts_ticker s) @ [Q_close]\<rparr>\<rparr>"

definition takes_tick :: "task \<Rightarrow> task \<Rightarrow> bool" where
  "takes_tick t t' \<longleftrightarrow> pt_pc t = P_select \<and> t' = t\<lparr>pt_pc := P_tick\<rparr>"

inductive task_sys_step :: "task_sys \<Rightarrow> task_sys \<Rightarrow> bool" where
  ts_ticks: "ticker_step (ts_ticker s) k \<Longrightarrow> tk_ticks k = tk_ticks (ts_ticker s) + 1 \<Longrightarrow> takes_tick (ts_task s) t \<Longrightarrow>
     task_sys_step s (s\<lparr>ts_ticker := k, ts_task := t\<rparr>)"
| ts_ticker_only: "ticker_step (ts_ticker s) k \<Longrightarrow> tk_ticks k = tk_ticks (ts_ticker s) \<Longrightarrow>
     task_sys_step s (s\<lparr>ts_ticker := k\<rparr>)"
| ts_task_only: "task_step (ts_task s) t \<Longrightarrow> \<not> takes_tick (ts_task s) t \<Longrightarrow> task_sys_step s (s\<lparr>ts_task := t\<rparr>)"

lemma Close_step: "task_sys_step s (PeriodicTask_Close s)"
  unfolding PeriodicTask_Close_def by (rule ts_ticker_only, rule tk_call) simp_all

definition task_sys_init :: "task_sys \<Rightarrow> bool" where
  "task_sys_init s \<longleftrightarrow> (\<exists>mn mx. s = start_task mn mx)"

text \<open>Every tick received is a request made, or about to be made.\<close>

definition task_sys_inv :: "task_sys \<Rightarrow> bool" where
  [go_inv]: "task_sys_inv s \<longleftrightarrow> ticker_inv (ts_ticker s) \<and> task_inv (ts_task s)
     \<and> tk_ticks (ts_ticker s) \<le> pt_requests (ts_task s) + (if pt_pc (ts_task s) = P_tick then 1 else 0)"

lemma task_retrieve_requests: "pt_requests (task_retrieve t) = pt_requests t"
  by (simp add: task_retrieve_def split: prod.splits option.splits)

lemma task_retrieve_pc: "pt_pc (task_retrieve t) = P_select \<or> pt_pc (task_retrieve t) = P_run"
  by (simp add: task_retrieve_def split: prod.splits option.splits)

lemma task_step_requests:
  assumes "task_step t t'" "\<not> takes_tick t t'"
  shows "pt_requests t + (if pt_pc t = P_tick then 1 else 0) \<le> pt_requests t' + (if pt_pc t' = P_tick then 1 else 0)"
  using assms
proof cases
  case task_retrieved
  then show ?thesis by (simp add: task_retrieve_requests)
qed (auto simp: Enqueue_def takes_tick_def)

lemma task_sys_step_inv: "task_sys_inv s \<Longrightarrow> task_sys_step s s' \<Longrightarrow> task_sys_inv s'"
proof (erule task_sys_step.cases, goal_cases)
  case (1 v k t)
  then have "task_step (ts_task v) t" by (auto simp: takes_tick_def intro: task_ticked)
  with 1 task_step_inv [of "ts_task v" t] ticker_step_inv [of "ts_ticker v" k] show ?case
    by (auto simp: task_sys_inv_def takes_tick_def)
next
  case (2 v k)
  with ticker_step_inv [of "ts_ticker v" k] show ?case by (auto simp: task_sys_inv_def)
next
  case (3 v t)
  with task_step_inv [of "ts_task v" t] task_step_requests [of "ts_task v" t] show ?case
    by (auto simp: task_sys_inv_def)
qed

lemma task_sys_init_inv: "task_sys_init s \<Longrightarrow> task_sys_inv s"
proof -
  assume "task_sys_init s"
  then obtain mn mx where s: "s = start_task mn mx" by (auto simp: task_sys_init_def)
  have "ticker_inv (NewExponentialBackoffTicker mn mx)" by (rule ticker_init_inv) (auto simp: ticker_init_def)
  then have "ticker_inv (ts_ticker s)" by (simp add: s start_task_def ticker_step_inv [OF _ tk_start])
  moreover have "task_inv (ts_task s)" by (simp add: s start_task_def task_init_inv task_init_def)
  ultimately show ?thesis
    by (simp add: task_sys_inv_def s start_task_def Ticker_Start_def NewExponentialBackoffTicker_def)
qed

interpretation task_ticker: invariant_system task_sys_init task_sys_step task_sys_inv
  by unfold_locales (rule task_sys_init_inv, assumption, rule task_sys_step_inv)

section \<open>After Close\<close>

lemma ts_task_move:
  assumes "task_step t t'" "pt_pc t' \<noteq> P_tick"
  shows "task_sys_step (s\<lparr>ts_task := t\<rparr>) (s\<lparr>ts_task := t'\<rparr>)"
proof -
  have "\<not> takes_tick t t'" using assms(2) by (auto simp: takes_tick_def)
  with assms(1) ts_task_only [of "s\<lparr>ts_task := t\<rparr>" t'] show ?thesis by simp
qed

text \<open>From the begin of the ticker's loop and the task's \<^verbatim>\<open>select\<close>, a tick and a run of the task can follow.\<close>

lemma tick_delivered:
  assumes k: "thread_at k T_begin (ts_ticker s)" and pc: "pt_pc (ts_task s) = P_select"
  shows "\<exists>tk. task_sys_step\<^sup>*\<^sup>* s (s\<lparr>ts_ticker := tk, ts_task := (ts_task s)\<lparr>pt_pc := P_tick\<rparr>\<rparr>)
    \<and> tk_stop tk = tk_stop (ts_ticker s)"
proof -
  let ?k1 = "arm_timer 0 k (ts_ticker s)"
  let ?k2 = "set_thread k T_send ?k1"
  let ?k3 = "set_thread k after_end (?k2\<lparr>tk_ticks := tk_ticks ?k2 + 1\<rparr>)"
  have k1: "ticker_step (ts_ticker s) ?k1" using k by (rule tk_arm)
  have k2: "ticker_step ?k1 ?k2" using k by (intro tk_timer) (auto simp: thread_at_def)
  have k3: "ticker_step ?k2 ?k3" using k by (intro tk_tick) (auto simp: thread_at_def set_thread_def)
  have "task_sys_step s (s\<lparr>ts_ticker := ?k1\<rparr>)" using k1 by (rule ts_ticker_only) simp
  moreover have "task_sys_step (s\<lparr>ts_ticker := ?k1\<rparr>) (s\<lparr>ts_ticker := ?k2\<rparr>)"
    using ts_ticker_only [of "s\<lparr>ts_ticker := ?k1\<rparr>" ?k2] k2 by (simp add: set_thread_def)
  moreover have "task_sys_step (s\<lparr>ts_ticker := ?k2\<rparr>) (s\<lparr>ts_ticker := ?k3, ts_task := (ts_task s)\<lparr>pt_pc := P_tick\<rparr>\<rparr>)"
    using ts_ticks [of "s\<lparr>ts_ticker := ?k2\<rparr>" ?k3 "(ts_task s)\<lparr>pt_pc := P_tick\<rparr>"] k3 pc
    by (simp add: set_thread_def takes_tick_def)
  ultimately have "task_sys_step\<^sup>*\<^sup>* s (s\<lparr>ts_ticker := ?k3, ts_task := (ts_task s)\<lparr>pt_pc := P_tick\<rparr>\<rparr>)"
    by (meson converse_rtranclp_into_rtranclp rtranclp.rtrancl_refl)
  moreover have "tk_stop ?k3 = tk_stop (ts_ticker s)" by (simp add: set_thread_def)
  ultimately show ?thesis by blast
qed

lemma request_runs:
  assumes inv: "task_inv t" and pc: "pt_pc t = P_tick"
  shows "\<exists>t'. task_sys_step\<^sup>*\<^sup>* (s\<lparr>ts_task := t\<rparr>) (s\<lparr>ts_task := t'\<rparr>)
    \<and> pt_pc t' = P_run \<and> length (pt_runs t') = length (pt_runs t) + 1"
proof -
  define t2 where "t2 = (Enqueue t)\<lparr>pt_pc := P_select\<rparr>"
  define t3 where "t3 = t2\<lparr>pt_mailbox := (pt_mailbox t2)\<lparr>mb_notify := False\<rparr>, pt_pc := P_retrieve\<rparr>"
  have "task_step t t2" unfolding t2_def using pc by (rule task_tick_enqueue)
  then have s2: "task_sys_step (s\<lparr>ts_task := t\<rparr>) (s\<lparr>ts_task := t2\<rparr>)" by (rule ts_task_move) (simp add: t2_def)
  have "Notify (pt_mailbox t2) = Some ((pt_mailbox t2)\<lparr>mb_notify := False\<rparr>)" by (simp add: t2_def Enqueue_def Notify_def)
  then have "task_step t2 t3" unfolding t3_def by (intro task_notified) (simp_all add: t2_def)
  then have s3: "task_sys_step (s\<lparr>ts_task := t2\<rparr>) (s\<lparr>ts_task := t3\<rparr>)" by (rule ts_task_move) (simp add: t3_def)
  have "contents (pt_mailbox t3) = [Some ()]"
    using Enqueue_contents [OF inv] by (simp add: t3_def t2_def contents_def)
  then obtain mb where "Retrieve (pt_mailbox t3) = (Some (), mb)" using Retrieve_oldest by blast
  then have run: "pt_pc (task_retrieve t3) = P_run" "length (pt_runs (task_retrieve t3)) = length (pt_runs t) + 1"
    by (simp_all add: task_retrieve_def t3_def t2_def Enqueue_def)
  have "task_step t3 (task_retrieve t3)" by (rule task_retrieved) (simp add: t3_def)
  then have s4: "task_sys_step (s\<lparr>ts_task := t3\<rparr>) (s\<lparr>ts_task := task_retrieve t3\<rparr>)" by (rule ts_task_move) (simp add: run)
  from s2 s3 s4 have "task_sys_step\<^sup>*\<^sup>* (s\<lparr>ts_task := t\<rparr>) (s\<lparr>ts_task := task_retrieve t3\<rparr>)"
    by (meson converse_rtranclp_into_rtranclp rtranclp.rtrancl_refl)
  with run show ?thesis by blast
qed

lemma tick_and_run:
  assumes inv: "task_sys_inv s" and k: "thread_at k T_begin (ts_ticker s)" and pc: "pt_pc (ts_task s) = P_select"
  shows "\<exists>s'. task_sys_step\<^sup>*\<^sup>* s s' \<and> pt_pc (ts_task s') = P_run \<and> tk_stop (ts_ticker s') = tk_stop (ts_ticker s)
    \<and> length (pt_runs (ts_task s')) = length (pt_runs (ts_task s)) + 1"
proof -
  let ?t = "(ts_task s)\<lparr>pt_pc := P_tick\<rparr>"
  obtain tk where tk: "task_sys_step\<^sup>*\<^sup>* s (s\<lparr>ts_ticker := tk, ts_task := ?t\<rparr>)" "tk_stop tk = tk_stop (ts_ticker s)"
    using tick_delivered [OF k pc] by blast
  have "task_inv ?t" using inv pc by (intro task_inv_pc) (auto simp: task_sys_inv_def)
  from request_runs [OF this, of "s\<lparr>ts_ticker := tk\<rparr>"] obtain t' where
    t': "task_sys_step\<^sup>*\<^sup>* (s\<lparr>ts_ticker := tk, ts_task := ?t\<rparr>) (s\<lparr>ts_ticker := tk, ts_task := t'\<rparr>)"
      "pt_pc t' = P_run" "length (pt_runs t') = length (pt_runs (ts_task s)) + 1" by auto
  from rtranclp_trans [OF tk(1) t'(1)] t' tk(2) show ?thesis
    by (intro exI [of _ "s\<lparr>ts_ticker := tk, ts_task := t'\<rparr>"]) simp
qed

text \<open>
  C31: In a periodic task on a backoff ticker every tick received is a request, and when the task's goroutine is at its
  \<^verbatim>\<open>select\<close> with no notification pending, its last run started after the last tick. But \<^verbatim>\<open>Close\<close>, which only
  closes the ticker, never returns, and after it the ticker may tick and the task may run again.
\<close>

theorem periodic_task_on_ticker:
  assumes "reachable task_sys_init task_sys_step s" and "pt_pc (ts_task s) = P_select"
  shows "tk_ticks (ts_ticker s) \<le> pt_requests (ts_task s)
    \<and> (Notify (pt_mailbox (ts_task s)) = None \<longrightarrow> answered (ts_task s))
    \<and> Q_close_return \<notin> set (tk_calls (ts_ticker s))
    \<and> (thread_at k T_begin (ts_ticker s) \<longrightarrow>
        (\<exists>s'. task_sys_step\<^sup>*\<^sup>* s s' \<and> pt_pc (ts_task s') = P_run \<and> tk_stop (ts_ticker s') = tk_stop (ts_ticker s)
           \<and> length (pt_runs (ts_task s')) = length (pt_runs (ts_task s)) + 1))"
proof -
  have inv: "task_sys_inv s" using assms(1) by (rule task_ticker.reachable_inv)
  then have "tk_ticks (ts_ticker s) \<le> pt_requests (ts_task s)" "Q_close_return \<notin> set (tk_calls (ts_ticker s))"
    using assms(2) by (auto simp: task_sys_inv_def ticker_inv_def)
  moreover have "Notify (pt_mailbox (ts_task s)) = None \<longrightarrow> answered (ts_task s)"
    using inv assms(2) by (auto simp: task_sys_inv_def task_inv_def Notify_def)
  ultimately show ?thesis using tick_and_run [OF inv _ assms(2)] by blast
qed

definition closing_task :: task_sys where
  "closing_task = \<lparr>ts_ticker = closing_ticker, ts_task = NewPeriodicTask\<rparr>"

lemma closing_task_reachable: "reachable task_sys_init task_sys_step closing_task"
proof -
  let ?s = "start_task 100 500"
  let ?k = "(ts_ticker ?s)\<lparr>tk_calls := [Q_close]\<rparr>"
  have s: "reachable task_sys_init task_sys_step ?s" by (rule reachable_init) (auto simp: task_sys_init_def)
  have "PeriodicTask_Close ?s = ?s\<lparr>ts_ticker := ?k\<rparr>"
    by (simp add: PeriodicTask_Close_def start_task_def Ticker_Start_def NewExponentialBackoffTicker_def)
  with reachable_step [OF s Close_step] have r: "reachable task_sys_init task_sys_step (?s\<lparr>ts_ticker := ?k\<rparr>)" by simp
  have "call_at 0 Q_close ?k" by (simp add: call_at_def)
  then have "ticker_step ?k (close_stop 0 ?k)" by (rule tk_close)
  moreover have "tk_ticks (close_stop 0 ?k) = tk_ticks ?k"
    by (simp add: close_stop_def set_tcall_def split: option.splits)
  ultimately have "task_sys_step (?s\<lparr>ts_ticker := ?k\<rparr>) (?s\<lparr>ts_ticker := close_stop 0 ?k\<rparr>)"
    using ts_ticker_only [of "?s\<lparr>ts_ticker := ?k\<rparr>" "close_stop 0 ?k"] by simp
  with r have "reachable task_sys_init task_sys_step (?s\<lparr>ts_ticker := close_stop 0 ?k\<rparr>)" by (rule reachable_step)
  then show ?thesis by (simp add: start_task_def closing_task_def closing_ticker_def)
qed

theorem periodic_task_on_ticker_witness:
  "tk_stop (ts_ticker closing_task) = ChClosed \<and> tk_calls (ts_ticker closing_task) = [Q_await_done]
    \<and> (\<exists>s'. task_sys_step\<^sup>*\<^sup>* closing_task s' \<and> pt_pc (ts_task s') = P_run \<and> tk_stop (ts_ticker s') = ChClosed)"
proof -
  have t: "pt_pc (ts_task closing_task) = P_select" by (simp add: closing_task_def NewPeriodicTask_def)
  have "thread_at 0 T_begin (ts_ticker closing_task)" "tk_stop (ts_ticker closing_task) = ChClosed"
    "tk_calls (ts_ticker closing_task) = [Q_await_done]"
    by (simp_all add: closing_task_def closing_ticker_def close_stop_def ticker_ops)
  with periodic_task_on_ticker [OF closing_task_reachable t, of 0] show ?thesis by auto
qed

end
