(* ===== verification/Cedar_Certs.thy ===== *)
theory Cedar_Certs
  imports Cedar_Encoding Cedar_Time
begin

text \<open>
  \<^verbatim>\<open>utils/certs.go\<close>: the type switches over keys, the device id of a public key and the certificate that is asked of
  \<^verbatim>\<open>crypto/x509\<close>. Key generation, signing and marshalling of keys are functions of the crypto library and arguments
  here.
\<close>

unbundle bit_operations_syntax

section \<open>Keys\<close>

text \<open>A public ECDSA key: the size of its curve in bits, and the point. RSA keys are opaque; \<open>Other_public\<close> is any other value.\<close>

record ec_public =
  ec_BitSize :: nat
  ec_X :: nat
  ec_Y :: nat

datatype 'r public_key = RSA_public 'r | ECDSA_public ec_public | Other_public

text \<open>A private key has its public key as a field; \<open>'d\<close> is the rest of it.\<close>

datatype ('d, 'r) private_key = RSA_private 'd 'r | ECDSA_private 'd ec_public | Other_private

text \<open>\<open>None\<close> is \<^verbatim>\<open>nil\<close>.\<close>

definition publicKey :: "('d, 'r) private_key \<Rightarrow> 'r public_key option" where
  "publicKey priv =
     (case priv of
        RSA_private d pk \<Rightarrow> Some (RSA_public pk)
      | ECDSA_private d pk \<Rightarrow> Some (ECDSA_public pk)
      | Other_private \<Rightarrow> None)"

text \<open>\<^verbatim>\<open>FillBytes\<close>: a number in big-endian order in \<open>n\<close> bytes; and \<^verbatim>\<open>elliptic.MarshalCompressed\<close>.\<close>

fun fill_bytes :: "nat \<Rightarrow> nat \<Rightarrow> bytes" where
  "fill_bytes 0 x = []"
| "fill_bytes (Suc n) x = fill_bytes n (x div 256) @ [of_nat (x mod 256)]"

definition MarshalCompressed :: "ec_public \<Rightarrow> bytes" where
  "MarshalCompressed k =
     (of_nat (ec_Y k mod 2) OR 2) # fill_bytes ((ec_BitSize k + 7) div 8) (ec_X k)"

definition DeviceIDFromX509Pubkey :: "'r public_key \<Rightarrow> bytes" where
  "DeviceIDFromX509Pubkey pubkey =
     (case pubkey of
        ECDSA_public k \<Rightarrow> (let bs = MarshalCompressed k in hex_encode bs)
      | RSA_public k \<Rightarrow> []
      | Other_public \<Rightarrow> [])"

text \<open>A PEM block, or the exit of the process with status 2.\<close>

datatype pem_result = Pem_block string bytes | Pem_nil | Exit int

definition pemBlockForKey ::
    "('d \<Rightarrow> bytes) \<Rightarrow> ('d \<Rightarrow> bytes option) \<Rightarrow> ('d, 'r) private_key \<Rightarrow> pem_result" where
  "pemBlockForKey MarshalPKCS1 MarshalEC priv =
     (case priv of
        RSA_private d pk \<Rightarrow> Pem_block ''RSA PRIVATE KEY'' (MarshalPKCS1 d)
      | ECDSA_private d pk \<Rightarrow>
          (case MarshalEC d of None \<Rightarrow> Exit 2 | Some b \<Rightarrow> Pem_block ''EC PRIVATE KEY'' b)
      | Other_private \<Rightarrow> Pem_nil)"

section \<open>The certificate\<close>

text \<open>The template; the uses of the key are those of the code, and constant.\<close>

record cert_template =
  ct_SerialNumber :: int
  ct_CommonName :: string
  ct_NotBefore :: time
  ct_NotAfter :: time
  ct_IsCA :: bool
  ct_IPAddresses :: "string list"

text \<open>\<open>now1\<close> and \<open>now2\<close> are the two readings of the clock.\<close>

definition cert_request :: "time \<Rightarrow> time \<Rightarrow> cert_template" where
  "cert_request now1 now2 =
     \<lparr>ct_SerialNumber = 1, ct_CommonName = ''redwood'', ct_NotBefore = now1,
      ct_NotAfter = Time_Add now2 (3600 * 1000000000 * 24 * 180), ct_IsCA = True,
      ct_IPAddresses = [''127.0.0.1'', ''10.0.0.2'']\<rparr>"

definition MakeSelfSignedX509Certificate ::
    "('e + ('d, 'r) private_key) \<Rightarrow>
     (cert_template \<Rightarrow> cert_template \<Rightarrow> 'r public_key option \<Rightarrow> ('d, 'r) private_key \<Rightarrow> 'e + bytes) \<Rightarrow>
     time \<Rightarrow> time \<Rightarrow> 'e + bytes list \<times> ('d, 'r) private_key" where
  "MakeSelfSignedX509Certificate generated CreateCertificate now1 now2 =
     (case generated of
        Inl e \<Rightarrow> Inl e
      | Inr priv \<Rightarrow>
          (let template = cert_request now1 now2
           in case CreateCertificate template template (publicKey priv) priv of
                Inl e \<Rightarrow> Inl e
              | Inr derBytes \<Rightarrow> Inr ([derBytes], priv)))"

lemma cert_valid_for_180_days: "ct_NotAfter (cert_request now1 now2) = now2 + 180 * 24 * 3600 * 10 ^ 9"
  by (simp add: cert_request_def Time_Add_def)

section \<open>Device ids\<close>

lemma length_fill_bytes [simp]: "length (fill_bytes n x) = n"
  by (induction n arbitrary: x) auto

lemma of_nat_byte_inject: "a < 256 \<Longrightarrow> b < 256 \<Longrightarrow> (of_nat a :: byte) = of_nat b \<Longrightarrow> a = b"
proof -
  assume ab: "a < 256" "b < 256" and "(of_nat a :: byte) = of_nat b"
  then have "unat (of_nat a :: byte) = unat (of_nat b :: byte)" by (simp only:)
  with ab show "a = b" by (simp add: unsigned_of_nat take_bit_nat_eq_self)
qed

lemma fill_bytes_inject: "x < 256 ^ n \<Longrightarrow> y < 256 ^ n \<Longrightarrow> fill_bytes n x = fill_bytes n y \<Longrightarrow> x = y"
proof (induction n arbitrary: x y)
  case (Suc n)
  then have "fill_bytes n (x div 256) = fill_bytes n (y div 256)"
    and m: "(of_nat (x mod 256) :: byte) = of_nat (y mod 256)" by auto
  with Suc have "x div 256 = y div 256" by (simp add: less_mult_imp_div_less)
  moreover have "x mod 256 = y mod 256" using m by (intro of_nat_byte_inject) simp_all
  ultimately show ?case by (metis div_mult_mod_eq)
qed simp

interpretation plain_hex: text_codec hex_encode "\<lambda>t. hex_value (hex_decode t)" "set hextable"
  by unfold_locales (simp_all add: hex_decode_encode set_hex_encode)

text \<open>
  The device id of an ECDSA key determines its point up to the sign of the second coordinate, which its parity gives; every
  RSA key has the same, empty device id.
\<close>

lemma device_id_determines_point:
  assumes "ec_BitSize k = ec_BitSize l" "ec_X k < 2 ^ ec_BitSize k" "ec_X l < 2 ^ ec_BitSize l"
    and "DeviceIDFromX509Pubkey (ECDSA_public k) = DeviceIDFromX509Pubkey (ECDSA_public l)"
  shows "ec_X k = ec_X l \<and> ec_Y k mod 2 = ec_Y l mod 2"
proof -
  let ?n = "(ec_BitSize k + 7) div 8"
  have "hex_encode (MarshalCompressed k) = hex_encode (MarshalCompressed l)"
    using assms(4) by (simp add: DeviceIDFromX509Pubkey_def Let_def)
  then have m: "MarshalCompressed k = MarshalCompressed l" by (simp only: plain_hex.encode_inject)
  have "ec_BitSize k \<le> 8 * ?n" by simp
  then have "(2 :: nat) ^ ec_BitSize k \<le> 2 ^ (8 * ?n)" by (rule power_increasing) simp
  also have "\<dots> = 256 ^ ?n" by (simp add: power_mult)
  finally have "ec_X k < 256 ^ ?n" "ec_X l < 256 ^ ?n" using assms(1-3) by auto
  with m assms(1) have "ec_X k = ec_X l" by (intro fill_bytes_inject [of _ ?n]) (auto simp: MarshalCompressed_def)
  moreover have "ec_Y k mod 2 = ec_Y l mod 2"
  proof -
    have "((of_nat (ec_Y k mod 2) OR 2) :: byte) = of_nat (ec_Y l mod 2) OR 2" using m by (simp add: MarshalCompressed_def)
    then show ?thesis by (cases "ec_Y k mod 2 = 0"; cases "ec_Y l mod 2 = 0") auto
  qed
  ultimately show ?thesis by simp
qed

lemma rsa_device_ids_equal: "DeviceIDFromX509Pubkey (RSA_public a) = DeviceIDFromX509Pubkey (RSA_public b)"
  by (simp add: DeviceIDFromX509Pubkey_def)

end
