(* ===== verification/Cedar_Float.thy ===== *)
theory Cedar_Float
  imports Complex_Main Cedar_Prelude "HOL-Library.Log_Nat"
begin

text \<open>
  Go's \<^verbatim>\<open>float64\<close> as far as \<^verbatim>\<open>FileSize\<close> of \<^verbatim>\<open>utils/files.go\<close> computes with it: non-negative numbers in the IEEE 754
  format of 64 bits, with the operations the language defines as the exact result rounded to the nearest number of the
  format, ties to even. A number is kept as the fraction it is.
\<close>

section \<open>Numbers and rounding\<close>

text \<open>\<open>Fin n k\<close> is \<open>n / 2 ^ k\<close>.\<close>

datatype float64 = Fin nat nat | Inf

text \<open>The quotient of two numbers, rounded to the nearest number, ties to even.\<close>

definition div_even :: "nat \<Rightarrow> nat \<Rightarrow> nat" where
  "div_even a b = (let d = a div b; r = a mod b in if 2 * r < b \<or> 2 * r = b \<and> even d then d else d + 1)"

text \<open>\<open>scaled p q e\<close> is the fraction \<open>p / q\<close> divided by \<open>2 powi e\<close>.\<close>

definition scaled :: "nat \<Rightarrow> nat \<Rightarrow> int \<Rightarrow> nat \<times> nat" where
  "scaled p q e = (if 0 \<le> e then (p, q * 2 ^ nat e) else (p * 2 ^ nat (- e), q))"

text \<open>The exponent that makes a fraction a significand of 53 bits: see \<open>exponent_bounds\<close>.\<close>

definition exponent :: "nat \<Rightarrow> nat \<Rightarrow> int" where
  "exponent p q =
     (let l = int (floorlog 2 p) - int (floorlog 2 q)
      in case scaled p q l of (a, b) \<Rightarrow> if b \<le> a then l - 52 else l - 53)"

text \<open>The nearest \<^verbatim>\<open>float64\<close> of \<open>p / q\<close>: subnormal below \<open>2 ^ - 1022\<close>, infinite from \<open>2 ^ 1024 - 2 ^ 970\<close> on.\<close>

definition round_float :: "nat \<Rightarrow> nat \<Rightarrow> float64" where
  "round_float p q =
     (if p = 0 then Fin 0 0
      else let e = max (- 1074) (exponent p q)
           in case scaled p q e of
                (a, b) \<Rightarrow>
                  let m = div_even a b
                  in if 971 < e \<or> e = 971 \<and> m = 2 ^ 53 then Inf
                     else if 0 \<le> e then Fin (m * 2 ^ nat e) 0 else Fin m (nat (- e)))"

section \<open>The operations\<close>

text \<open>\<^verbatim>\<open>float64(n)\<close>, \<^verbatim>\<open>x * y\<close> and \<^verbatim>\<open>x / y\<close> for \<^verbatim>\<open>0 < y\<close>.\<close>

definition float_of_nat :: "nat \<Rightarrow> float64" where
  "float_of_nat n = round_float n 1"

fun float_mult :: "float64 \<Rightarrow> float64 \<Rightarrow> float64" where
  "float_mult (Fin a j) (Fin b k) = round_float (a * b) (2 ^ (j + k))"
| "float_mult x y = Inf"

fun float_div :: "float64 \<Rightarrow> float64 \<Rightarrow> float64" where
  "float_div (Fin a j) (Fin b k) = round_float (a * 2 ^ k) (b * 2 ^ j)"
| "float_div Inf y = Inf"
| "float_div x Inf = Fin 0 0"

text \<open>
  \<^verbatim>\<open>uint64(x)\<close>: the fraction is cut off. Out of the range of \<^verbatim>\<open>uint64\<close> the value depends on the implementation of the
  language, \<open>out_of_range\<close>.
\<close>

fun uint64_of_float :: "(float64 \<Rightarrow> uint64) \<Rightarrow> float64 \<Rightarrow> uint64" where
  "uint64_of_float out_of_range (Fin n k) = (if n div 2 ^ k < 2 ^ 64 then of_nat (n div 2 ^ k) else out_of_range (Fin n k))"
| "uint64_of_float out_of_range Inf = out_of_range Inf"

text \<open>The value of a number.\<close>

fun float_val :: "float64 \<Rightarrow> real" where
  "float_val (Fin n k) = real n / 2 ^ k"
| "float_val Inf = 0"

section \<open>Rounding: properties\<close>

lemma div_even_close:
  assumes "0 < b"
  shows "\<bar>real (div_even a b) - real a / real b\<bar> \<le> 1 / 2"
proof -
  have q: "real a / real b = real (a div b) + real (a mod b) / real b"
  proof -
    have "real a = real b * real (a div b) + real (a mod b)" by (simp flip: of_nat_mult of_nat_add)
    with assms show ?thesis by (simp add: field_simps)
  qed
  have r: "real (a mod b) < real b" using assms by simp
  show ?thesis
  proof (cases "2 * (a mod b) < b \<or> 2 * (a mod b) = b \<and> even (a div b)")
    case True
    then have "2 * (a mod b) \<le> b" by auto
    then have "2 * real (a mod b) \<le> real b" by linarith
    with True assms show ?thesis by (simp add: div_even_def Let_def q field_simps)
  next
    case False
    then have "b \<le> 2 * (a mod b)" by auto
    then have "real b \<le> 2 * real (a mod b)" by linarith
    with False assms r show ?thesis by (simp add: div_even_def Let_def q abs_le_iff field_simps)
  qed
qed

lemma div_even_exact: "0 < b \<Longrightarrow> div_even (a * b) b = a"
  by (simp add: div_even_def)

lemma scaled_val:
  assumes "0 < q" "scaled p q e = (a, b)"
  shows "0 < b" "real a / real b = real p / real q / 2 powi e"
  using assms by (auto simp: scaled_def power_int_def power_one_over split: if_splits)

lemma floorlog_fraction:
  assumes "0 < p" "0 < q"
  defines "l \<equiv> int (floorlog 2 p) - int (floorlog 2 q)"
  shows "2 powi (l - 1) < real p / real q" "real p / real q < 2 powi (l + 1)"
proof -
  have "2 ^ (floorlog 2 p - 1) \<le> p" "p < 2 ^ floorlog 2 p" "2 ^ (floorlog 2 q - 1) \<le> q" "q < 2 ^ floorlog 2 q"
    using floorlog_bounds [of p 2] floorlog_bounds [of q 2] assms(1,2) by simp_all
  moreover have pos: "0 < floorlog 2 p" "0 < floorlog 2 q"
    using assms by (simp_all add: floorlog_def)
  ultimately have b: "2 powi (int (floorlog 2 p) - 1) \<le> real p" "real p < 2 powi int (floorlog 2 p)"
    "2 powi (int (floorlog 2 q) - 1) \<le> real q" "real q < 2 powi int (floorlog 2 q)"
    by (simp_all add: power_int_def nat_diff_distrib flip: of_nat_less_iff of_nat_le_iff)
  show "2 powi (l - 1) < real p / real q"
  proof -
    have "2 powi (l - 1) * real q < 2 powi (l - 1) * 2 powi int (floorlog 2 q)"
      using b(4) by simp
    also have "\<dots> = 2 powi (int (floorlog 2 p) - 1)" by (simp add: l_def del: power_int_of_nat flip: power_int_add)
    finally show ?thesis using b(1) assms(2) by (simp add: field_simps)
  qed
  show "real p / real q < 2 powi (l + 1)"
  proof -
    have "real p < 2 powi (l + 1) * 2 powi (int (floorlog 2 q) - 1)" using b(2) by (simp add: l_def del: power_int_of_nat flip: power_int_add)
    also have "\<dots> \<le> 2 powi (l + 1) * real q" using b(3) by simp
    finally show ?thesis using assms(2) by (simp add: field_simps)
  qed
qed

lemma power2_less: "(2::real) powi a < 2 powi b \<Longrightarrow> a < b"
  using power_int_increasing [of b a "2::real"] by (cases "a < b") simp_all

lemma power2_le: "(2::real) powi a \<le> 2 powi b \<Longrightarrow> a \<le> b"
  using power_int_strict_increasing [of b a "2::real"] by (cases "a \<le> b") simp_all

lemma exponent_bounds:
  assumes "0 < p" "0 < q"
  shows "2 powi (52 + exponent p q) \<le> real p / real q" "real p / real q < 2 powi (53 + exponent p q)"
proof -
  define l where "l = int (floorlog 2 p) - int (floorlog 2 q)"
  obtain a b where s: "scaled p q l = (a, b)" by fastforce
  have l: "2 powi (l - 1) < real p / real q" "real p / real q < 2 powi (l + 1)"
    using floorlog_fraction [OF assms] by (simp_all add: l_def)
  have c: "b \<le> a \<longleftrightarrow> 2 powi l \<le> real p / real q"
  proof -
    have "b \<le> a \<longleftrightarrow> 1 \<le> real a / real b" using scaled_val(1) [OF assms(2) s] by simp
    also have "\<dots> \<longleftrightarrow> 2 powi l \<le> real p / real q"
      unfolding scaled_val(2) [OF assms(2) s] using assms(2) by (simp add: field_simps)
    finally show ?thesis .
  qed
  have e: "exponent p q = (if b \<le> a then l - 52 else l - 53)"
    by (simp add: exponent_def s flip: l_def)
  show "2 powi (52 + exponent p q) \<le> real p / real q"
    using c l(1) by (simp add: e)
  show "real p / real q < 2 powi (53 + exponent p q)"
    using c l(2) by (simp add: e add.commute)
qed

text \<open>In the range of the normal numbers the relative error is at most \<open>2 ^ - 53\<close>.\<close>

lemma round_float_close:
  assumes "0 < p" "0 < q" "1 / 2 \<le> real p / real q" "real p / real q \<le> 2 ^ 1000"
  obtains n k where "round_float p q = Fin n k" "\<bar>real n / 2 ^ k - real p / real q\<bar> \<le> real p / real q / 2 ^ 53"
proof -
  define e where "e = exponent p q"
  have x: "2 powi (52 + e) \<le> real p / real q" "real p / real q < 2 powi (53 + e)"
    using exponent_bounds [OF assms(1,2)] by (simp_all add: e_def)
  have "(2::real) powi (- 1) < 2 powi (53 + e)" using x(2) assms(3) by (simp only: power_int_minus power_int_1_right inverse_eq_divide)
  from power2_less [OF this] have lo: "- 54 < e" by simp
  have "(2::real) powi (52 + e) \<le> 2 powi 1000" using x(1) assms(4) by simp
  from power2_le [OF this] have hi: "e \<le> 948" by simp
  obtain a b where s: "scaled p q e = (a, b)" by fastforce
  define m where "m = div_even a b"
  define n where "n = (if 0 \<le> e then m * 2 ^ nat e else m)"
  define k where "k = (if 0 \<le> e then 0 else nat (- e))"
  have r: "round_float p q = Fin n k"
    using assms(1) lo hi s by (simp add: round_float_def max_def n_def k_def m_def flip: e_def)
  have v: "real n / 2 ^ k = real m * 2 powi e"
    by (simp add: n_def k_def power_int_def power_one_over field_simps)
  have ab: "real p / real q = real a / real b * 2 powi e"
    by (simp add: scaled_val(2) [OF assms(2) s])
  have "\<bar>real n / 2 ^ k - real p / real q\<bar> = \<bar>real m - real a / real b\<bar> * 2 powi e"
    unfolding v ab left_diff_distrib [symmetric] abs_mult by simp
  also have "\<dots> \<le> 1 / 2 * 2 powi e"
    unfolding m_def by (intro mult_right_mono div_even_close scaled_val(1) [OF assms(2) s]) simp
  also have "\<dots> = 2 powi (52 + e) / 2 ^ 53" by (simp add: power_int_add)
  also have "\<dots> \<le> real p / real q / 2 ^ 53" using x(1) by (intro divide_right_mono) auto
  finally show thesis by (intro that [OF r])
qed

text \<open>Results that are natural numbers of up to 53 bits are exact.\<close>

lemma round_float_exact:
  assumes "0 < n" "n < 2 ^ 53" "0 < q"
  shows "\<exists>k. round_float (n * q) q = Fin (n * 2 ^ k) k"
proof -
  define e where "e = exponent (n * q) q"
  have p: "0 < n * q" "real (n * q) / real q = real n" using assms by simp_all
  have "2 powi (52 + e) \<le> real n" using exponent_bounds(1) [OF p(1) assms(3)] p(2) by (simp add: e_def)
  also have "\<dots> < 2 powi 53" using assms(2) by (simp flip: of_nat_less_iff)
  finally have "52 + e < 53" by (rule power2_less)
  then have hi: "e \<le> 0" by simp
  have "2 powi 0 \<le> real n" using assms(1) by simp
  also have "\<dots> < 2 powi (53 + e)" using exponent_bounds(2) [OF p(1) assms(3)] p(2) by (simp add: e_def)
  finally have "0 < 53 + e" by (rule power2_less)
  then have m: "max (- 1074) e = e" by simp
  have s: "scaled (n * q) q e = (n * 2 ^ nat (- e) * q, q)" using hi by (simp add: scaled_def)
  have "round_float (n * q) q = Fin (n * 2 ^ nat (- e)) (nat (- e))"
    unfolding round_float_def e_def [symmetric] Let_def m s using hi p(1) assms(3) by (simp add: div_even_exact)
  then show ?thesis by blast
qed

lemma float_of_nat_exact: "n < 2 ^ 53 \<Longrightarrow> \<exists>k. float_of_nat n = Fin (n * 2 ^ k) k"
  using round_float_exact [of n 1] by (cases "n = 0") (auto simp: float_of_nat_def round_float_def)

lemma float_mult_exact:
  assumes "m * n < 2 ^ 53"
  shows "\<exists>k. float_mult (Fin (m * 2 ^ i) i) (Fin (n * 2 ^ j) j) = Fin (m * n * 2 ^ k) k"
proof -
  have "float_mult (Fin (m * 2 ^ i) i) (Fin (n * 2 ^ j) j) = round_float (m * n * 2 ^ (i + j)) (2 ^ (i + j))"
    by (simp add: power_add ac_simps)
  with assms round_float_exact [of "m * n" "2 ^ (i + j)"] show ?thesis
    by (cases "m * n = 0") (auto simp: round_float_def)
qed

lemma uint64_of_float_exact: "n < 2 ^ 64 \<Longrightarrow> uint64_of_float f (Fin (n * 2 ^ k) k) = of_nat n"
  by simp

end
