(* ===== verification/Cedar_FileSize.thy ===== *)
theory Cedar_FileSize
  imports Cedar_Float Cedar_Text
begin

text \<open>
  \<^verbatim>\<open>FileSize\<close> of \<^verbatim>\<open>utils/files.go\<close>: a number of bytes, printed with a unit and two decimals and read back through a regular
  expression and \<^verbatim>\<open>float64\<close>.
\<close>

section \<open>Sizes and units\<close>

type_synonym FileSize = uint64

definition KB :: FileSize where "KB = 1024"
definition MB :: FileSize where "MB = 1000000"
definition GB :: FileSize where "GB = 1000 * MB"
definition TB :: FileSize where "TB = 1000 * GB"

lemma unat_units: "unat KB = 1024" "unat MB = 10 ^ 6" "unat GB = 10 ^ 9" "unat TB = 10 ^ 12"
  by (simp_all add: KB_def MB_def GB_def TB_def)

section \<open>Printing\<close>

text \<open>\<^verbatim>\<open>%.2f\<close>: the exact value, rounded to hundredths, ties to even.\<close>

definition digit :: "nat \<Rightarrow> char" where
  "digit d = char_of (48 + d)"

fun Sprintf_2f :: "float64 \<Rightarrow> string" where
  "Sprintf_2f (Fin n k) =
     (let h = div_even (100 * n) (2 ^ k)
      in decimal (h div 100) @ ''.'' @ [digit (h div 10 mod 10), digit (h mod 10)])"
| "Sprintf_2f Inf = ''+Inf''"

definition float_of_size :: "FileSize \<Rightarrow> float64" where
  "float_of_size s = float_of_nat (unat s)"

definition FileSize_MarshalText :: "FileSize \<Rightarrow> string" where
  "FileSize_MarshalText s =
     (if s > TB then Sprintf_2f (float_div (float_of_size s) (float_of_size TB)) @ ''tb''
      else if s > GB then Sprintf_2f (float_div (float_of_size s) (float_of_size GB)) @ ''gb''
      else if s > MB then Sprintf_2f (float_div (float_of_size s) (float_of_size MB)) @ ''mb''
      else if s > KB then Sprintf_2f (float_div (float_of_size s) (float_of_size KB)) @ ''kb''
      else decimal (unat s) @ ''b'')"

definition FileSize_String :: "FileSize \<Rightarrow> string" where
  "FileSize_String s = FileSize_MarshalText s"

section \<open>Reading\<close>

text \<open>
  The regular expression \<^verbatim>\<open>(\d+\.?\d*)(tb|gb|mb|kb|b)?\<close>. Its repetitions take as much as they can, and whatever they take
  the rest of the expression matches too, so that they never give anything back.
\<close>

definition unit_match :: "string \<Rightarrow> string \<times> string" where
  "unit_match s =
     (if take 2 s = ''tb'' \<or> take 2 s = ''gb'' \<or> take 2 s = ''mb'' \<or> take 2 s = ''kb'' then (take 2 s, drop 2 s)
      else if take 1 s = ''b'' then (''b'', drop 1 s) else ('''', s))"

definition number_match :: "string \<Rightarrow> string \<times> string" where
  "number_match s =
     (let ds = takeWhile is_digit s; rest = dropWhile is_digit s
      in if take 1 rest = ''.''
         then (ds @ ''.'' @ takeWhile is_digit (drop 1 rest), dropWhile is_digit (drop 1 rest))
         else (ds, rest))"

text \<open>The match that begins at the first digit of a text, with its two groups, and what follows it.\<close>

definition submatch :: "string \<Rightarrow> string list \<times> string" where
  "submatch s =
     (case number_match s of
        (num, rest) \<Rightarrow> (case unit_match rest of (unit, rest') \<Rightarrow> ([num @ unit, num, unit], rest')))"

lemma number_match_append: "number_match s = (num, rest) \<Longrightarrow> s = num @ rest"
proof -
  assume m: "number_match s = (num, rest)"
  show ?thesis
  proof (cases "take 1 (dropWhile is_digit s) = ''.''")
    case True
    then obtain r where d: "dropWhile is_digit s = CHR ''.'' # r" by (cases "dropWhile is_digit s") auto
    with m have n: "num = takeWhile is_digit s @ CHR ''.'' # takeWhile is_digit r" "rest = dropWhile is_digit r"
      by (simp_all add: number_match_def)
    have "num @ rest = takeWhile is_digit s @ CHR ''.'' # r" by (simp add: n)
    also have "\<dots> = s" by (simp flip: d)
    finally show ?thesis by simp
  next
    case False
    with m show ?thesis by (auto simp: number_match_def Let_def)
  qed
qed

lemma unit_match_append: "unit_match s = (unit, rest) \<Longrightarrow> s = unit @ rest"
proof -
  have "fst (unit_match s) @ snd (unit_match s) = s"
    using append_take_drop_id [of 2 s] append_take_drop_id [of 1 s]
    unfolding unit_match_def by (simp only: fst_conv snd_conv append_Nil split: if_split) metis
  then show "unit_match s = (unit, rest) \<Longrightarrow> s = unit @ rest" by simp
qed

lemma number_match_nonempty: "is_digit c \<Longrightarrow> number_match (c # s) = (num, rest) \<Longrightarrow> num \<noteq> []"
  by (auto simp: number_match_def Let_def split: if_splits)

text \<open>\<^verbatim>\<open>FindAllStringSubmatch(s, -1)\<close>: the leftmost match, and so on behind it.\<close>

function FindAllStringSubmatch :: "string \<Rightarrow> string list list" where
  "FindAllStringSubmatch s =
     (case dropWhile (\<lambda>c. \<not> is_digit c) s of
        [] \<Rightarrow> []
      | c # cs \<Rightarrow> (case submatch (c # cs) of (m, rest) \<Rightarrow> m # FindAllStringSubmatch rest))"
  by pat_completeness auto

termination
proof (relation "measure length", goal_cases)
  case (2 s c cs m rest)
  then have c: "is_digit c" using hd_dropWhile [of "\<lambda>c. \<not> is_digit c" s] by auto
  obtain num r where n: "number_match (c # cs) = (num, r)" by fastforce
  obtain unit r' where u: "unit_match r = (unit, r')" by fastforce
  from 2 n u have "m = [num @ unit, num, unit]" "rest = r'" by (auto simp: submatch_def)
  with number_match_append [OF n] unit_match_append [OF u] number_match_nonempty [OF c n]
  have "length rest < length (c # cs)" by (simp del: length_Cons)
  also have "length (c # cs) \<le> length s" using length_dropWhile_le [of "\<lambda>c. \<not> is_digit c" s] 2 by simp
  finally show ?case by simp
qed simp

declare FindAllStringSubmatch.simps [simp del]

text \<open>
  \<^verbatim>\<open>strconv.ParseFloat\<close> on the texts the expression matches, digits with at most one point: the nearest number, or an
  error if it is infinite. Other forms (signs, exponents) never reach it.
\<close>

datatype num_error = ErrSyntax | ErrRange

definition ParseFloat :: "string \<Rightarrow> num_error + float64" where
  "ParseFloat s =
     (let ds = takeWhile is_digit s; fs = drop 1 (dropWhile is_digit s)
      in case digits_value (ds @ fs) 0 of
           None \<Rightarrow> Inl ErrSyntax
         | Some n \<Rightarrow> (case round_float n (10 ^ length fs) of Inf \<Rightarrow> Inl ErrRange | x \<Rightarrow> Inr x))"

datatype size_error = BadFilesize string | BadUnit string | NumError num_error

text \<open>The new value of the receiver and the error.\<close>

definition FileSize_UnmarshalText :: "(float64 \<Rightarrow> uint64) \<Rightarrow> FileSize \<Rightarrow> string \<Rightarrow> FileSize \<times> size_error option" where
  "FileSize_UnmarshalText out_of_range s bs =
     (let matches = FindAllStringSubmatch (ToLower bs)
      in if length matches \<noteq> 1 then (s, Some (BadFilesize bs))
         else if length (matches ! 0) \<noteq> 3 then (s, Some (BadFilesize bs))
         else
           let num = matches ! 0 ! 1; unit = matches ! 0 ! 2
           in case ParseFloat num of
                Inl err \<Rightarrow> (s, Some (NumError err))
              | Inr bytes \<Rightarrow>
                  if unit = '''' \<or> unit = ''b'' then (uint64_of_float out_of_range bytes, None)
                  else if unit = ''kb'' then (uint64_of_float out_of_range (float_mult bytes (float_of_size KB)), None)
                  else if unit = ''mb'' then (uint64_of_float out_of_range (float_mult bytes (float_of_size MB)), None)
                  else if unit = ''gb'' then (uint64_of_float out_of_range (float_mult bytes (float_of_size GB)), None)
                  else if unit = ''tb'' then (uint64_of_float out_of_range (float_mult bytes (float_of_size TB)), None)
                  else (s, Some (BadUnit unit)))"

definition ParseFileSize :: "(float64 \<Rightarrow> uint64) \<Rightarrow> string \<Rightarrow> FileSize \<times> size_error option" where
  "ParseFileSize out_of_range s = FileSize_UnmarshalText out_of_range 0 s"

section \<open>What is read\<close>

definition digit_free :: "string \<Rightarrow> bool" where
  "digit_free s \<longleftrightarrow> list_all (\<lambda>c. \<not> is_digit c) s"

text \<open>Digits, with at most one point behind the first of them.\<close>

definition number_text :: "string \<Rightarrow> bool" where
  "number_text s \<longleftrightarrow>
     (let ds = takeWhile is_digit s; r = dropWhile is_digit s
      in ds \<noteq> [] \<and> (r = [] \<or> hd r = CHR ''.'' \<and> list_all is_digit (tl r)))"

text \<open>A number is followed by a unit, or by something that continues neither the number nor a unit.\<close>

definition stands_alone :: "string \<Rightarrow> string \<Rightarrow> string \<Rightarrow> bool" where
  "stands_alone num unit post \<longleftrightarrow>
     (if unit = [] then post = [] \<or> hd post \<notin> set ''tgmkb'' \<and> (hd post \<noteq> CHR ''.'' \<or> CHR ''.'' \<in> set num)
      else unit = ''b'' \<or> unit = ''kb'' \<or> unit = ''mb'' \<or> unit = ''gb'' \<or> unit = ''tb'')"

lemma digit_free_append [simp]: "digit_free (xs @ ys) \<longleftrightarrow> digit_free xs \<and> digit_free ys"
  by (simp add: digit_free_def)

lemma digit_free_Cons [simp]: "digit_free (c # cs) \<longleftrightarrow> \<not> is_digit c \<and> digit_free cs"
  by (simp add: digit_free_def)

lemma digit_free_Nil [simp]: "digit_free []"
  by (simp add: digit_free_def)

lemma FindAll_digit_free: "digit_free s \<Longrightarrow> FindAllStringSubmatch s = []"
proof -
  assume "digit_free s"
  then have "dropWhile (\<lambda>c. \<not> is_digit c) s = []" by (auto simp: digit_free_def list_all_iff)
  then show ?thesis by (subst FindAllStringSubmatch.simps) (simp only: list.case)
qed

lemma FindAll_skip: "digit_free pre \<Longrightarrow> FindAllStringSubmatch (pre @ s) = FindAllStringSubmatch s"
proof -
  assume "digit_free pre"
  then have "dropWhile (\<lambda>c. \<not> is_digit c) (pre @ s) = dropWhile (\<lambda>c. \<not> is_digit c) s"
    by (intro dropWhile_append2) (auto simp: digit_free_def list_all_iff)
  then show ?thesis by (subst (1 2) FindAllStringSubmatch.simps) simp
qed

lemma number_text_starts: "number_text num \<Longrightarrow> \<exists>c cs. num = c # cs \<and> is_digit c"
  by (cases num) (auto simp: number_text_def Let_def split: if_splits)

text \<open>The two forms of a number.\<close>

lemma number_text_cases:
  assumes "number_text num"
  obtains "list_all is_digit num"
    | ds fs where "num = ds @ CHR ''.'' # fs" "ds \<noteq> []" "list_all is_digit ds" "list_all is_digit fs"
proof (cases "dropWhile is_digit num")
  case Nil
  then show thesis by (intro that(1)) (simp add: list_all_iff)
next
  case (Cons c fs)
  with assms have c: "c = CHR ''.''" "list_all is_digit fs" "takeWhile is_digit num \<noteq> []"
    by (simp_all add: number_text_def)
  have "num = takeWhile is_digit num @ CHR ''.'' # fs" by (simp flip: Cons c(1))
  moreover have "list_all is_digit (takeWhile is_digit num)" by (auto simp: list_all_iff dest: set_takeWhileD)
  ultimately show thesis using c(2,3) by (intro that(2))
qed

lemma number_match_here:
  assumes "number_text num" "rest = [] \<or> \<not> is_digit (hd rest)"
    and "rest = [] \<or> hd rest \<noteq> CHR ''.'' \<or> CHR ''.'' \<in> set num"
  shows "number_match (num @ rest) = (num, rest)"
proof -
  from assms(2) have rest: "takeWhile is_digit rest = []" "dropWhile is_digit rest = rest" by (cases rest; simp)+
  show ?thesis
    using assms(1)
  proof (cases rule: number_text_cases)
    case 1
    then have "CHR ''.'' \<notin> set num" by (auto simp: list_all_iff is_digit_def)
    with assms(3) have "take 1 rest \<noteq> ''.''" by (cases rest) auto
    with 1 show ?thesis
      unfolding number_match_def Let_def takeWhile_all [OF 1] dropWhile_all [OF 1] rest by simp
  next
    case (2 ds fs)
    then show ?thesis
      by (simp add: number_match_def takeWhile_all dropWhile_all rest is_digit_def)
  qed
qed

lemma unit_match_here: "stands_alone num unit post \<Longrightarrow> unit_match (unit @ post) = (unit, post)"
  by (cases post) (auto simp: stands_alone_def unit_match_def split: if_splits)

lemma stands_alone_unit:
  assumes "stands_alone num unit post"
  shows "digit_free unit" "unit \<noteq> [] \<Longrightarrow> hd unit \<noteq> CHR ''.''"
  using assms by (auto simp: stands_alone_def is_digit_def split: if_splits)

lemma submatch_here:
  assumes "number_text num" "digit_free post" "stands_alone num unit post"
  shows "submatch (num @ unit @ post) = ([num @ unit, num, unit], post)"
proof -
  have "number_match (num @ unit @ post) = (num, unit @ post)"
  proof (rule number_match_here [OF assms(1)])
    show "unit @ post = [] \<or> \<not> is_digit (hd (unit @ post))"
      using assms(2) stands_alone_unit(1) [OF assms(3)] by (cases unit; cases post) auto
    show "unit @ post = [] \<or> hd (unit @ post) \<noteq> CHR ''.'' \<or> CHR ''.'' \<in> set num"
      using assms(3) stands_alone_unit(2) [OF assms(3)] by (cases "unit = []") (auto simp: stands_alone_def)
  qed
  with unit_match_here [OF assms(3)] show ?thesis by (simp add: submatch_def)
qed

lemma FindAll_number:
  assumes "number_text num"
  shows "FindAllStringSubmatch (num @ s) = (case submatch (num @ s) of (m, rest) \<Rightarrow> m # FindAllStringSubmatch rest)"
proof -
  obtain c cs where "num = c # cs" "is_digit c" using number_text_starts [OF assms] by blast
  then show ?thesis by (subst FindAllStringSubmatch.simps) simp
qed

lemma FindAll_here:
  assumes "digit_free pre" "number_text num" "digit_free post" "stands_alone num unit post"
  shows "FindAllStringSubmatch (pre @ num @ unit @ post) = [[num @ unit, num, unit]]"
  by (simp add: FindAll_skip assms(1) FindAll_number assms(2) submatch_here assms FindAll_digit_free)

lemma number_match_number:
  assumes "is_digit c" "number_match (c # cs) = (num, rest)"
  shows "number_text num"
proof (cases "take 1 (dropWhile is_digit (c # cs)) = ''.''")
  case True
  define ds where "ds = takeWhile is_digit (c # cs)"
  define fs where "fs = takeWhile is_digit (drop 1 (dropWhile is_digit (c # cs)))"
  have l: "list_all is_digit ds" "list_all is_digit fs" "ds \<noteq> []"
    using assms(1) by (auto simp: ds_def fs_def list_all_iff dest!: set_takeWhileD)
  have "num = ds @ CHR ''.'' # fs" using assms(2) True by (auto simp: number_match_def Let_def ds_def fs_def simp del: takeWhile.simps)
  moreover have "\<not> is_digit (CHR ''.'')" by (simp add: is_digit_def)
  ultimately show ?thesis using l by (simp add: number_text_def takeWhile_all dropWhile_all)
next
  case False
  define ds where "ds = takeWhile is_digit (c # cs)"
  have l: "list_all is_digit ds" "ds \<noteq> []"
    using assms(1) by (auto simp: ds_def list_all_iff dest!: set_takeWhileD)
  have "num = ds" using assms(2) False by (auto simp: number_match_def Let_def ds_def simp del: takeWhile.simps)
  then show ?thesis using l(2) by (simp add: number_text_def takeWhile_id [OF l(1)] dropWhile_id [OF l(1)])
qed

lemma unit_match_unit:
  "unit_match s = (unit, rest) \<Longrightarrow> unit = [] \<or> unit = ''b'' \<or> unit = ''kb'' \<or> unit = ''mb'' \<or> unit = ''gb'' \<or> unit = ''tb''"
  by (auto simp: unit_match_def split: if_splits)

text \<open>Every match has the two groups of the expression, a number and a unit or nothing.\<close>

lemma FindAll_single:
  assumes "FindAllStringSubmatch s = [m]"
  obtains pre num unit post where "s = pre @ num @ unit @ post" "m = [num @ unit, num, unit]"
    "digit_free pre" "number_text num" "digit_free post" "unit_match (unit @ post) = (unit, post)"
proof -
  define pre where "pre = takeWhile (\<lambda>c. \<not> is_digit c) s"
  have pre: "digit_free pre" by (auto simp: pre_def digit_free_def list_all_iff dest: set_takeWhileD)
  obtain c cs where c: "dropWhile (\<lambda>c. \<not> is_digit c) s = c # cs"
    using assms by (subst (asm) FindAllStringSubmatch.simps) (auto split: list.splits)
  then have d: "is_digit c" using hd_dropWhile [of "\<lambda>c. \<not> is_digit c" s] by auto
  obtain num r where n: "number_match (c # cs) = (num, r)" by fastforce
  obtain unit post where u: "unit_match r = (unit, post)" by fastforce
  have m: "m = [num @ unit, num, unit]" "FindAllStringSubmatch post = []"
    using assms by (subst (asm) FindAllStringSubmatch.simps, simp add: c submatch_def n u)+
  have "dropWhile (\<lambda>c. \<not> is_digit c) post = []"
    using m(2) by (subst (asm) FindAllStringSubmatch.simps) (auto split: list.splits prod.splits)
  then have "digit_free post" by (auto simp: digit_free_def list_all_iff)
  moreover have "s = pre @ num @ unit @ post"
    using takeWhile_dropWhile_id [of "\<lambda>c. \<not> is_digit c" s] c number_match_append [OF n] unit_match_append [OF u]
    by (simp add: pre_def)
  moreover have "unit_match (unit @ post) = (unit, post)" using u unit_match_append [OF u] by simp
  ultimately show thesis by (intro that [OF _ m(1) pre number_match_number [OF d n]])
qed

section \<open>Reading: properties\<close>


text \<open>A number and a unit are in lower case already.\<close>

lemma ToLower_number:
  assumes "number_text num" "stands_alone num unit post"
  shows "ToLower (num @ unit) = num @ unit"
proof (rule ToLower_id, rule ballI)
  fix c assume "c \<in> set (num @ unit)"
  then have "is_digit c \<or> c = CHR ''.'' \<or> c \<in> set ''tgmkb''"
    using assms(2) by (cases rule: number_text_cases [OF assms(1)]) (auto simp: stands_alone_def list_all_iff split: if_splits)
  then show "(of_char c :: nat) < 128 \<and> \<not> (65 \<le> (of_char c :: nat) \<and> (of_char c :: nat) \<le> 90)"
    by (auto simp: is_digit_def)
qed

lemma stands_alone_end: "stands_alone num unit post \<Longrightarrow> stands_alone num unit []"
  by (simp add: stands_alone_def split: if_splits)

lemma number_text_decimal: "number_text (decimal n)"
proof -
  show ?thesis
    by (simp add: number_text_def takeWhile_id [OF list_all_decimal] dropWhile_id [OF list_all_decimal] decimal_nonempty)
qed

lemma ParseFloat_decimal:
  assumes "n < 2 ^ 53"
  shows "\<exists>k. ParseFloat (decimal n) = Inr (Fin (n * 2 ^ k) k)"
proof -
  have "ParseFloat (decimal n) = (case float_of_nat n of Inf \<Rightarrow> Inl ErrRange | x \<Rightarrow> Inr x)"
    by (simp add: ParseFloat_def takeWhile_id [OF list_all_decimal] dropWhile_id [OF list_all_decimal] digits_value_decimal float_of_nat_def)
  with float_of_nat_exact [OF assms] show ?thesis by auto
qed

text \<open>The number of bytes of a unit; none is a byte.\<close>

definition unit_bytes :: "string \<Rightarrow> nat" where
  "unit_bytes unit =
     (if unit = ''kb'' then unat KB else if unit = ''mb'' then unat MB
      else if unit = ''gb'' then unat GB else if unit = ''tb'' then unat TB else 1)"

text \<open>Natural numbers are read exactly, as long as the result has at most 53 bits.\<close>

lemma UnmarshalText_exact:
  assumes "stands_alone (decimal n) unit []" "n * unit_bytes unit < 2 ^ 53"
  shows "FileSize_UnmarshalText f s (decimal n @ unit) = (of_nat (n * unit_bytes unit), None)"
proof -
  have "1 \<le> unit_bytes unit" by (simp add: unit_bytes_def unat_units)
  then have "n \<le> n * unit_bytes unit" by simp
  with assms(2) have n: "n < 2 ^ 53" by linarith
  then have n64: "n < 2 ^ 64" by simp
  obtain k where k: "ParseFloat (decimal n) = Inr (Fin (n * 2 ^ k) k)" using ParseFloat_decimal [OF n] by blast
  have "FindAllStringSubmatch (ToLower (decimal n @ unit)) = [[decimal n @ unit, decimal n, unit]]"
    using FindAll_here [of "[]" "decimal n" "[]" unit] assms(1) number_text_decimal
    by (simp add: ToLower_number [OF number_text_decimal assms(1)])
  moreover have "uint64_of_float f (float_mult (Fin (n * 2 ^ k) k) (float_of_size u)) = of_nat (n * unat u)"
    if u: "n * unat u < 2 ^ 53" "unat u < 2 ^ 53" for u
  proof -
    obtain j where "float_of_size u = Fin (unat u * 2 ^ j) j" using float_of_nat_exact [OF u(2)] by (auto simp: float_of_size_def)
    moreover obtain i where "float_mult (Fin (n * 2 ^ k) k) (Fin (unat u * 2 ^ j) j) = Fin (n * unat u * 2 ^ i) i"
      using float_mult_exact [OF u(1)] by blast
    moreover have "n * unat u < 2 ^ 64" using u(1) by simp
    ultimately show ?thesis by (simp only: uint64_of_float_exact)
  qed
  moreover have "uint64_of_float f (Fin (n * 2 ^ k) k) = of_nat n" by (rule uint64_of_float_exact [OF n64])
  ultimately show ?thesis
    using assms k
    by (auto simp: FileSize_UnmarshalText_def stands_alone_def unit_bytes_def unat_units split: if_splits)
      (simp_all add: KB_def MB_def GB_def TB_def)
qed

text \<open>
  \<^verbatim>\<open>UnmarshalText\<close> of a file size only looks at the number and the unit directly behind it. Whatever is around them is
  ignored, as long as it has no digit: a sign, so that a negative size is read as a positive one, a blank before the unit, so that the
  unit is not seen and the size is in bytes, and any other text.
\<close>

theorem FileSize_ignores_rest:
  assumes "ToLower bs = pre @ num @ unit @ post"
    and "digit_free pre" "number_text num" "digit_free post" "stands_alone num unit post"
  shows "FileSize_UnmarshalText f s bs = FileSize_UnmarshalText f s (num @ unit)"
proof -
  have "FindAllStringSubmatch (ToLower bs) = [[num @ unit, num, unit]]"
    unfolding assms(1) by (rule FindAll_here [OF assms(2-5)])
  moreover have "FindAllStringSubmatch (ToLower (num @ unit)) = [[num @ unit, num, unit]]"
    using FindAll_here [of "[]" num "[]" unit] assms(3) stands_alone_end [OF assms(5)]
    by (simp add: ToLower_number [OF assms(3,5)])
  ultimately show ?thesis by (simp add: FileSize_UnmarshalText_def)
qed

theorem FileSize_ignores_rest_witness:
  "\<forall>f. FileSize_UnmarshalText f 0 ''-3kb'' = (3072, None) \<and> FileSize_UnmarshalText f 0 ''12 MB'' = (12, None)"
proof
  fix f
  have d: "decimal 3 = ''3''" "decimal 12 = ''12''" by code_simp+
  have tl: "ToLower ''12 MB'' = ''12 mb''" by code_simp
  have n: "number_text ''3''" "number_text ''12''" by code_simp+
  have "FileSize_UnmarshalText f 0 ''-3kb'' = FileSize_UnmarshalText f 0 (''3'' @ ''kb'')"
    by (rule FileSize_ignores_rest [of _ "''-''" _ _ "[]"]) (use n in \<open>simp_all add: is_digit_def stands_alone_def\<close>)
  moreover have "FileSize_UnmarshalText f 0 ''12 MB'' = FileSize_UnmarshalText f 0 (''12'' @ '''')"
    by (rule FileSize_ignores_rest [of _ "[]" _ _ "'' mb''"]) (use n in \<open>simp_all add: is_digit_def stands_alone_def tl del: ToLower.simps\<close>)
  moreover have "stands_alone (decimal 3) ''kb'' []" "stands_alone (decimal 12) '''' []" by (simp_all add: stands_alone_def)
  ultimately show "FileSize_UnmarshalText f 0 ''-3kb'' = (3072, None) \<and> FileSize_UnmarshalText f 0 ''12 MB'' = (12, None)"
    using UnmarshalText_exact [of 3 "''kb''" f 0] UnmarshalText_exact [of 12 "''''" f 0]
    by (simp add: unit_bytes_def unat_units d)
qed

lemma ParseFloat_point: "list_all is_digit ds \<Longrightarrow> ParseFloat (ds @ ''.'') = ParseFloat ds"
proof -
  assume l: "list_all is_digit ds"
  have "\<not> is_digit (CHR ''.'')" by (simp add: is_digit_def)
  then show ?thesis
    by (simp add: ParseFloat_def takeWhile_all [OF l] dropWhile_all [OF l] takeWhile_id [OF l] dropWhile_id [OF l])
qed

lemma ParseFloat_number: "number_text num \<Longrightarrow> ParseFloat num \<noteq> Inl ErrSyntax"
proof (cases rule: number_text_cases)
  assume l: "list_all is_digit num"
  then obtain m where "digits_value num 0 = Some m" using digits_value_total [of num 0] by (auto simp: list_all_iff)
  then show ?thesis by (simp add: ParseFloat_def takeWhile_id [OF l] dropWhile_id [OF l] split: float64.splits)
next
  fix ds fs assume n: "num = ds @ CHR ''.'' # fs" "ds \<noteq> []" "list_all is_digit ds" "list_all is_digit fs"
  then obtain m where "digits_value (ds @ fs) 0 = Some m" using digits_value_total [of "ds @ fs" 0] by (auto simp: list_all_iff)
  moreover have "\<not> is_digit (CHR ''.'')" by (simp add: is_digit_def)
  ultimately show ?thesis using n by (simp add: ParseFloat_def takeWhile_all dropWhile_all split: float64.splits)
qed simp

text \<open>A number of units, in bytes.\<close>

definition in_unit :: "float64 \<Rightarrow> string \<Rightarrow> float64" where
  "in_unit x unit = (if unit = [] \<or> unit = ''b'' then x else float_mult x (float_of_nat (unit_bytes unit)))"

lemma unmarshal_outcome:
  assumes "FindAllStringSubmatch (ToLower bs) = [[num @ unit, num, unit]]"
    and "unit = [] \<or> unit = ''b'' \<or> unit = ''kb'' \<or> unit = ''mb'' \<or> unit = ''gb'' \<or> unit = ''tb''"
  shows "snd (FileSize_UnmarshalText f s bs) = (case ParseFloat num of Inl e \<Rightarrow> Some (NumError e) | Inr _ \<Rightarrow> None)"
    and "ParseFloat num = Inl e \<Longrightarrow> fst (FileSize_UnmarshalText f s bs) = s"
    and "ParseFloat num = Inr x \<Longrightarrow> fst (FileSize_UnmarshalText f s bs) = uint64_of_float f (in_unit x unit)"
  using assms by (auto simp: FileSize_UnmarshalText_def in_unit_def unit_bytes_def float_of_size_def simp del: uint64_of_float.simps
      split: sum.splits)

lemma unmarshal_refused:
  "length (FindAllStringSubmatch (ToLower bs)) \<noteq> 1 \<Longrightarrow> FileSize_UnmarshalText f s bs = (s, Some (BadFilesize bs))"
  by (simp add: FileSize_UnmarshalText_def Let_def)

lemma number_in_text:
  assumes "digit_free pre" "number_text num" "digit_free post"
  obtains num' unit where "FindAllStringSubmatch (pre @ num @ post) = [[num' @ unit, num', unit]]" "ParseFloat num' = ParseFloat num"
    "unit = [] \<or> unit = ''b'' \<or> unit = ''kb'' \<or> unit = ''mb'' \<or> unit = ''gb'' \<or> unit = ''tb''"
proof -
  obtain num' post' where n: "number_match (num @ post) = (num', post')" "number_text num'" "digit_free post'"
    "ParseFloat num' = ParseFloat num" "num @ post = num' @ post'"
  proof (cases "post \<noteq> [] \<and> hd post = CHR ''.'' \<and> CHR ''.'' \<notin> set num")
    case True
    then obtain p where p: "post = CHR ''.'' # p" by (cases post) auto
    have ds: "list_all is_digit num" using assms(2) True by (auto elim: number_text_cases)
    have nt: "number_text (num @ ''.'')"
      using number_text_starts [OF assms(2)] by (auto simp: number_text_def takeWhile_all [OF ds] dropWhile_all [OF ds] is_digit_def)
    have "number_match ((num @ ''.'') @ p) = (num @ ''.'', p)"
      by (rule number_match_here [OF nt]) (use assms(3) p in \<open>cases p; simp\<close>)+
    with nt assms(3) p show thesis by (intro that [of "num @ ''.''" p]) (simp_all add: ParseFloat_point [OF ds])
  next
    case False
    have "number_match (num @ post) = (num, post)"
      by (rule number_match_here [OF assms(2)]) (use assms(3) False in \<open>cases post; auto\<close>)+
    with assms show thesis by (intro that) auto
  qed
  obtain unit rest where u: "unit_match post' = (unit, rest)" by fastforce
  from unit_match_append [OF u] n(3) have "digit_free rest" by simp
  then have "FindAllStringSubmatch (pre @ num @ post) = [[num' @ unit, num', unit]]"
    by (simp add: FindAll_skip [OF assms(1)] FindAll_number [OF assms(2)] submatch_def n(1) u FindAll_digit_free)
  then show thesis using n(4) unit_match_unit [OF u] by (rule that)
qed

text \<open>
  C39: A file size is read without an error exactly if the text has one number, digits with at most one point behind the first
  of them, that \<^verbatim>\<open>float64\<close> can hold, and then it is that number of the unit directly behind it, whatever else is around them; otherwise the
  receiver keeps its value. The error for an unknown unit never occurs.
\<close>

theorem FileSize_accepts:
  "(snd (FileSize_UnmarshalText f s bs) = None) =
     (\<exists>pre num post x. ToLower bs = pre @ num @ post \<and> digit_free pre \<and> number_text num \<and> digit_free post \<and> ParseFloat num = Inr x
        \<and> fst (FileSize_UnmarshalText f s bs) = uint64_of_float f (in_unit x (fst (unit_match post))))
   \<and> FileSize_UnmarshalText f s bs \<in> (UNIV \<times> {None}) \<union> {(s, Some (BadFilesize bs)), (s, Some (NumError ErrRange))}"
proof (cases "length (FindAllStringSubmatch (ToLower bs)) = 1")
  case True
  then obtain m where m: "FindAllStringSubmatch (ToLower bs) = [m]" by (cases "FindAllStringSubmatch (ToLower bs)") auto
  then obtain pre num unit post where d: "ToLower bs = pre @ num @ unit @ post" "m = [num @ unit, num, unit]"
    "digit_free pre" "number_text num" "digit_free post" "unit_match (unit @ post) = (unit, post)"
    by (rule FindAll_single)
  have u: "unit = [] \<or> unit = ''b'' \<or> unit = ''kb'' \<or> unit = ''mb'' \<or> unit = ''gb'' \<or> unit = ''tb''"
    by (rule unit_match_unit [OF d(6)])
  then have du: "digit_free (unit @ post)" using d(5) by (auto simp: is_digit_def)
  note out = unmarshal_outcome [OF m [unfolded d(2)] u, where f = f and s = s]
  show ?thesis
  proof (cases "ParseFloat num")
    case (Inl e)
    then have e: "e = ErrRange" using ParseFloat_number [OF d(4)] by (cases e) auto
    have "ParseFloat num' \<noteq> Inr x"
      if "ToLower bs = pre' @ num' @ post'" "digit_free pre'" "number_text num'" "digit_free post'" for pre' num' post' x
      using number_in_text [OF that(2-4)] m Inl unfolding that(1) [symmetric] d(2) by (metis Inl list.inject sum.distinct(1))
    moreover have "FileSize_UnmarshalText f s bs = (s, Some (NumError ErrRange))"
      using out Inl e by (intro prod_eqI) auto
    ultimately show ?thesis by auto
  next
    case (Inr x)
    then have n: "snd (FileSize_UnmarshalText f s bs) = None" using out(1) by simp
    then have "FileSize_UnmarshalText f s bs \<in> UNIV \<times> {None}" by (simp add: mem_Times_iff)
    moreover have "ToLower bs = pre @ num @ (unit @ post) \<and> digit_free pre \<and> number_text num \<and> digit_free (unit @ post) \<and> ParseFloat num = Inr x
        \<and> fst (FileSize_UnmarshalText f s bs) = uint64_of_float f (in_unit x (fst (unit_match (unit @ post))))"
      using d(1,3,4) du Inr out(3) by (simp add: d(6))
    ultimately show ?thesis using n by blast
  qed
next
  case False
  have "False" if "ToLower bs = pre @ num @ post" "digit_free pre" "number_text num" "digit_free post" for pre num post
    using number_in_text [OF that(2-4)] False unfolding that(1) by (metis length_Cons list.size(3) One_nat_def)
  with unmarshal_refused [OF False, of f s] show ?thesis by auto
qed

section \<open>Printing and reading back\<close>

lemma digits_value_digits: "a < 10 \<Longrightarrow> b < 10 \<Longrightarrow> digits_value (decimal n @ [digit a, digit b]) 0 = Some (100 * n + 10 * a + b)"
proof -
  assume d: "a < 10" "b < 10"
  have "digits_value (decimal n @ [digit a, digit b]) 0 = digits_value [digit a, digit b] n"
    by (rule digits_value_append [OF digits_value_decimal])
  also have "\<dots> = Some (100 * n + 10 * a + b)" using d by (simp add: digit_def)
  finally show ?thesis .
qed

lemma hundredths: "100 * (h div 100) + 10 * (h div 10 mod 10) + h mod 10 = (h::nat)"
proof -
  have "h div 100 = h div 10 div 10" by (simp flip: div_mult2_eq)
  then show ?thesis using mult_div_mod_eq [of 10 "h div 10"] mult_div_mod_eq [of 10 h] by linarith
qed

text \<open>A number printed with two decimals is read as the nearest number of what is printed.\<close>

lemma Sprintf_2f_read:
  assumes "h = div_even (100 * n) (2 ^ k)"
  shows "number_text (Sprintf_2f (Fin n k))"
    and "ParseFloat (Sprintf_2f (Fin n k)) = (case round_float h 100 of Inf \<Rightarrow> Inl ErrRange | x \<Rightarrow> Inr x)"
proof -
  let ?t = "decimal (h div 100) @ CHR ''.'' # [digit (h div 10 mod 10), digit (h mod 10)]"
  have t: "Sprintf_2f (Fin n k) = ?t" by (simp add: assms Let_def)
  have p: "\<not> is_digit (CHR ''.'')" by (simp add: is_digit_def)
  have d: "is_digit (digit (h div 10 mod 10))" "is_digit (digit (h mod 10))" by (simp_all add: digit_def)
  show "number_text (Sprintf_2f (Fin n k))"
    unfolding t by (simp add: number_text_def takeWhile_all [OF list_all_decimal] dropWhile_all [OF list_all_decimal] p d decimal_nonempty)
  show "ParseFloat (Sprintf_2f (Fin n k)) = (case round_float h 100 of Inf \<Rightarrow> Inl ErrRange | x \<Rightarrow> Inr x)"
    unfolding t
    by (simp add: ParseFloat_def takeWhile_all [OF list_all_decimal] dropWhile_all [OF list_all_decimal] p digits_value_digits hundredths)
qed

text \<open>The five roundings between a size and what is read back, relative to the unit.\<close>

lemma roundings_close:
  fixes r r0 q h p w :: real
  assumes "1 < r" "\<bar>r0 - r\<bar> \<le> r / 2 ^ 53" "\<bar>q - r0\<bar> \<le> r0 / 2 ^ 53" "\<bar>h - 100 * q\<bar> \<le> 1 / 2"
    "\<bar>p - h / 100\<bar> \<le> h / 100 / 2 ^ 53" "\<bar>w - p\<bar> \<le> p / 2 ^ 53"
  shows "\<bar>w - r\<bar> \<le> 1 / 200 + r / 2 ^ 50" "h \<le> 100 * r + 1 / 2 + r / 2 ^ 44" "w \<le> h / 100 + h / 2 ^ 58"
proof -
  from assms have b: "r0 \<le> r + r / 2 ^ 53" "r - r / 2 ^ 53 \<le> r0" "q \<le> r0 + r0 / 2 ^ 53" "r0 - r0 / 2 ^ 53 \<le> q"
    "h \<le> 100 * q + 1 / 2" "100 * q - 1 / 2 \<le> h" "p \<le> h / 100 + h / 100 / 2 ^ 53" "h / 100 - h / 100 / 2 ^ 53 \<le> p"
    "w \<le> p + p / 2 ^ 53" "p - p / 2 ^ 53 \<le> w" by linarith+
  have "w - r \<le> 1 / 200 + r / 2 ^ 50" using b assms(1) by simp
  moreover have "r - w \<le> 1 / 200 + r / 2 ^ 50" using b assms(1) by simp
  ultimately show "\<bar>w - r\<bar> \<le> 1 / 200 + r / 2 ^ 50" by linarith
  show "h \<le> 100 * r + 1 / 2 + r / 2 ^ 44" using b assms(1) by simp
  show "w \<le> h / 100 + h / 2 ^ 58" using b assms(1) by simp
qed

text \<open>The number a float64 is near to.\<close>

definition near :: "float64 \<Rightarrow> real \<Rightarrow> bool" where
  "near x v \<longleftrightarrow> (\<exists>n k. x = Fin n k \<and> \<bar>real n / 2 ^ k - v\<bar> \<le> v / 2 ^ 53)"

lemma round_float_near:
  assumes "0 < q" "1 / 2 \<le> real p / real q" "real p / real q \<le> 2 ^ 1000"
  shows "near (round_float p q) (real p / real q)"
proof -
  have "0 < p" using assms by (cases p) auto
  then show ?thesis using round_float_close [of p q] assms by (metis near_def)
qed

lemma nearE: "near x v \<Longrightarrow> (\<And>n k. x = Fin n k \<Longrightarrow> \<bar>real n / 2 ^ k - v\<bar> \<le> v / 2 ^ 53 \<Longrightarrow> thesis) \<Longrightarrow> thesis"
  by (auto simp: near_def)

lemma float_div_near:
  assumes "0 < u" "1 / 2 \<le> real n / 2 ^ k / real u" "real n / 2 ^ k / real u \<le> 2 ^ 1000"
  shows "near (float_div (Fin n k) (Fin (u * 2 ^ j) j)) (real n / 2 ^ k / real u)"
proof -
  have e: "real (n * 2 ^ j) / real (u * 2 ^ j * 2 ^ k) = real n / 2 ^ k / real u" by simp
  have "near (round_float (n * 2 ^ j) (u * 2 ^ j * 2 ^ k)) (real (n * 2 ^ j) / real (u * 2 ^ j * 2 ^ k))"
    by (rule round_float_near) (use assms(1) in simp, unfold e, fact+)
  then show ?thesis unfolding e by simp
qed

lemma float_mult_near:
  assumes "1 / 2 \<le> real n / 2 ^ k * real u" "real n / 2 ^ k * real u \<le> 2 ^ 1000"
  shows "near (float_mult (Fin n k) (Fin (u * 2 ^ j) j)) (real n / 2 ^ k * real u)"
proof -
  have e: "real (n * (u * 2 ^ j)) / real (2 ^ (k + j)) = real n / 2 ^ k * real u" by (simp add: power_add)
  have "near (round_float (n * (u * 2 ^ j)) (2 ^ (k + j))) (real (n * (u * 2 ^ j)) / real (2 ^ (k + j)))"
    by (rule round_float_near) (simp, unfold e, fact+)
  then show ?thesis unfolding e by simp
qed

text \<open>Cutting off the fraction.\<close>

lemma nat_div_floor: "real (m div 2 ^ k) \<le> real m / 2 ^ k" "real m / 2 ^ k < real (m div 2 ^ k) + 1"
proof -
  have "m div 2 ^ k * 2 ^ k \<le> m" "m < (m div 2 ^ k + 1) * 2 ^ k"
    using dividend_less_div_times [of "2 ^ k" m] by (simp_all add: add.commute)
  then have "real (m div 2 ^ k * 2 ^ k) \<le> real m" "real m < real ((m div 2 ^ k + 1) * 2 ^ k)"
    unfolding of_nat_le_iff of_nat_less_iff .
  then show "real (m div 2 ^ k) \<le> real m / 2 ^ k" "real m / 2 ^ k < real (m div 2 ^ k) + 1"
    by (simp_all add: le_divide_eq divide_less_eq distrib_right add.commute)
qed

text \<open>A relative error is the same in every unit.\<close>

lemma error_in_unit:
  fixes x v u e :: real
  assumes "0 < u" "\<bar>x - v\<bar> \<le> v / e"
  shows "\<bar>x / u - v / u\<bar> \<le> v / u / e"
proof -
  have "\<bar>x / u - v / u\<bar> = \<bar>x - v\<bar> / u" using assms(1) by (simp add: abs_divide flip: diff_divide_distrib)
  also have "\<dots> \<le> v / e / u" using assms by (intro divide_right_mono) auto
  finally show ?thesis by (simp add: mult.commute)
qed

lemma relative_error:
  fixes x v :: real
  assumes "\<bar>x - v\<bar> \<le> v / 2 ^ 53"
  shows "x \<le> v + v / 2 ^ 53" "v - v / 2 ^ 53 \<le> x"
  using assms by linarith+

text \<open>A size is converted and divided by a unit that it exceeds.\<close>

lemma size_divided:
  assumes "0 < u" "u < 2 ^ 53" "u < n" "n < 2 ^ 64"
  obtains b l r0 where "float_div (float_of_nat n) (float_of_nat u) = Fin b l"
    "\<bar>r0 - real n / real u\<bar> \<le> real n / real u / 2 ^ 53" "\<bar>real b / 2 ^ l - r0\<bar> \<le> r0 / 2 ^ 53"
proof -
  define r where "r = real n / real u"
  have "real n \<le> 2 ^ 64" using assms(4) by (simp flip: of_nat_less_iff)
  moreover have "1 \<le> real n" using assms by simp
  ultimately have "near (float_of_nat n) (real n / real 1)"
    unfolding float_of_nat_def by (intro round_float_near) simp_all
  then obtain a i where a: "float_of_nat n = Fin a i" "\<bar>real a / 2 ^ i - real n\<bar> \<le> real n / 2 ^ 53"
    by (elim nearE) simp
  define r0 where "r0 = real a / 2 ^ i / real u"
  have r0: "\<bar>r0 - r\<bar> \<le> r / 2 ^ 53" unfolding r0_def r_def by (rule error_in_unit) (use assms(1) a(2) in auto)
  have "r \<le> real n" using assms(1) mult_left_mono [of 1 "real u" "real n"] by (simp add: r_def divide_le_eq)
  moreover have "1 < r" using assms by (simp add: r_def)
  ultimately have b: "1 / 2 \<le> r0" "r0 \<le> 2 ^ 1000" using relative_error [OF r0] \<open>real n \<le> 2 ^ 64\<close> by simp_all
  obtain j where j: "float_of_nat u = Fin (u * 2 ^ j) j" using float_of_nat_exact [OF assms(2)] by blast
  have "near (float_div (Fin a i) (Fin (u * 2 ^ j) j)) r0"
    unfolding r0_def by (rule float_div_near) (use assms(1) b in \<open>simp_all add: r0_def\<close>)
  then show thesis by (elim nearE) (rule that [of _ _ r0], use a(1) j r0 in \<open>simp_all add: r_def\<close>)
qed

text \<open>The hundredths that are printed are read and multiplied by the unit.\<close>

lemma hundredths_multiplied:
  assumes "2 \<le> u" "u \<le> 10 ^ 12" "50 \<le> real h" "real h \<le> 2 ^ 74"
  obtains c l m k where "round_float h 100 = Fin c l" "float_mult (Fin c l) (float_of_nat u) = Fin m k"
    "\<bar>real c / 2 ^ l - real h / 100\<bar> \<le> real h / 100 / 2 ^ 53"
    "\<bar>real m / 2 ^ k / real u - real c / 2 ^ l\<bar> \<le> real c / 2 ^ l / 2 ^ 53"
proof -
  have "near (round_float h 100) (real h / real 100)" by (rule round_float_near) (use assms in simp_all)
  then obtain c l where c: "round_float h 100 = Fin c l" "\<bar>real c / 2 ^ l - real h / 100\<bar> \<le> real h / 100 / 2 ^ 53"
    by (elim nearE) simp
  define p where "p = real c / 2 ^ l"
  have p: "1 / 4 \<le> p" "p \<le> 2 ^ 74" 
    using relative_error [OF c(2), folded p_def] assms(3,4) by (simp_all del: of_nat_le_iff of_nat_numeral)
  have "1 / 4 * 2 \<le> p * real u" by (rule mult_mono) (use p assms(1) in auto)
  moreover have "p * real u \<le> 2 ^ 74 * 10 ^ 12"
    by (rule mult_mono) (use p assms(2) in \<open>auto simp flip: of_nat_le_iff\<close>)
  ultimately have pu: "1 / 2 \<le> p * real u" "p * real u \<le> 2 ^ 1000" by simp_all
  have "u < 2 ^ 53" using assms(2) by simp
  then obtain j where j: "float_of_nat u = Fin (u * 2 ^ j) j" using float_of_nat_exact by blast
  have "near (float_mult (Fin c l) (Fin (u * 2 ^ j) j)) (p * real u)"
    unfolding p_def by (rule float_mult_near) (use pu in \<open>simp_all add: p_def\<close>)
  then obtain m k where m: "float_mult (Fin c l) (Fin (u * 2 ^ j) j) = Fin m k" "\<bar>real m / 2 ^ k - p * real u\<bar> \<le> p * real u / 2 ^ 53"
    by (elim nearE)
  have "\<bar>real m / 2 ^ k / real u - p * real u / real u\<bar> \<le> p * real u / real u / 2 ^ 53"
    by (rule error_in_unit) (use assms(1) m(2) in auto)
  then have "\<bar>real m / 2 ^ k / real u - p\<bar> \<le> p / 2 ^ 53" using assms(1) by simp
  then show thesis using that [of c l m k] c j m(1) by (simp add: p_def)
qed

text \<open>What is read is in the range of \<^verbatim>\<open>uint64\<close>.\<close>

lemma read_in_range:
  fixes w r :: real
  assumes "real h \<le> 100 * r + 1 / 2 + r / 2 ^ 44" "w \<le> real h / 100 + real h / 2 ^ 58" "r * real u \<le> 2 ^ 64"
    and "u \<le> 10 ^ 9 \<and> r \<le> 1000 \<or> u = 10 ^ 12"
  shows "w * real u < 2 ^ 64"
  using assms(4)
proof
  assume small: "u \<le> 10 ^ 9 \<and> r \<le> 1000"
  with assms(1,2) have "w \<le> 1001" by simp
  then have "w * real u \<le> 1001 * real u" by (intro mult_right_mono) auto
  also have "\<dots> \<le> 1001 * 10 ^ 9" using small by simp
  finally show ?thesis by simp
next
  assume big: "u = 10 ^ 12"
  then have "r \<le> 2 ^ 64 / 10 ^ 12" using assms(3) by (simp add: le_divide_eq)
  then have "real h < 1844674408" using assms(1) by simp
  then have "h \<le> 1844674407" by simp
  then have "real h \<le> 1844674407" by (simp flip: of_nat_le_iff)
  with assms(2) big show ?thesis by simp
qed

text \<open>A size printed in a unit that it exceeds, and read.\<close>

lemma size_in_unit:
  assumes u: "2 \<le> u" "u < n" "n < 2 ^ 64" and range: "u \<le> 10 ^ 9 \<and> n \<le> 1000 * u \<or> u = 10 ^ 12"
  obtains x y m k where "float_div (float_of_nat n) (float_of_nat u) = x" "number_text (Sprintf_2f x)"
    "ParseFloat (Sprintf_2f x) = Inr y" "float_mult y (float_of_nat u) = Fin m k" "m div 2 ^ k < 2 ^ 64"
    "\<bar>real (m div 2 ^ k) - real n\<bar> < real u / 200 + real n / 2 ^ 50 + 1"
proof -
  define r where "r = real n / real u"
  have rn: "r * real u = real n" and r: "1 < r" using u by (simp_all add: r_def)
  have n64: "real n \<le> 2 ^ 64" using u(3) by (simp flip: of_nat_less_iff)
  have r64: "r \<le> 2 ^ 64" using n64 rn r mult_left_mono [of 1 "real u" r] u(1) by simp
  have u12: "u \<le> 10 ^ 12" "u < 2 ^ 53" using range by auto
  obtain b l r0 where b: "float_div (float_of_nat n) (float_of_nat u) = Fin b l"
    "\<bar>r0 - r\<bar> \<le> r / 2 ^ 53" "\<bar>real b / 2 ^ l - r0\<bar> \<le> r0 / 2 ^ 53"
    using size_divided [of u n] u u12(2) unfolding r_def by auto
  define h where "h = div_even (100 * b) (2 ^ l)"
  have h: "\<bar>real h - 100 * (real b / 2 ^ l)\<bar> \<le> 1 / 2"
    using div_even_close [of "2 ^ l" "100 * b"] by (simp add: h_def)
  then have "real h \<le> 100 * (real b / 2 ^ l) + 1 / 2" "100 * (real b / 2 ^ l) - 1 / 2 \<le> real h" by linarith+
  then have "50 \<le> real h" "real h \<le> 2 ^ 74" using relative_error [OF b(2)] relative_error [OF b(3)] r r64 by simp_all
  then obtain c l' m k where c: "round_float h 100 = Fin c l'" "float_mult (Fin c l') (float_of_nat u) = Fin m k"
    "\<bar>real c / 2 ^ l' - real h / 100\<bar> \<le> real h / 100 / 2 ^ 53"
    "\<bar>real m / 2 ^ k / real u - real c / 2 ^ l'\<bar> \<le> real c / 2 ^ l' / 2 ^ 53"
    using hundredths_multiplied [OF u(1) u12(1)] by blast
  define w where "w = real m / 2 ^ k / real u"
  have wu: "w * real u = real m / 2 ^ k" using u by (simp add: w_def)
  note close = roundings_close [OF r b(2,3) h c(3) c(4) [folded w_def]]
  have "real m / 2 ^ k - real n = (w - r) * real u" by (simp add: left_diff_distrib wu rn)
  then have "\<bar>real m / 2 ^ k - real n\<bar> = \<bar>w - r\<bar> * real u" by (simp add: abs_mult)
  also have "\<dots> \<le> (1 / 200 + r / 2 ^ 50) * real u" by (intro mult_right_mono close(1)) simp
  also have "\<dots> = real u / 200 + real n / 2 ^ 50" by (simp add: distrib_right rn [symmetric])
  finally have err: "\<bar>real m / 2 ^ k - real n\<bar> \<le> real u / 200 + real n / 2 ^ 50" .
  have "w * real u < 2 ^ 64"
  proof (rule read_in_range [OF close(2,3)])
    show "r * real u \<le> 2 ^ 64" using n64 rn by simp
    show "u \<le> 10 ^ 9 \<and> r \<le> 1000 \<or> u = 10 ^ 12" using range u(1) by (auto simp: r_def divide_le_eq)
  qed
  then have "real (m div 2 ^ k) < real (2 ^ 64)" using nat_div_floor(1) [of m k] wu by simp
  then have fits: "m div 2 ^ k < 2 ^ 64" unfolding of_nat_less_iff .
  have "\<bar>real (m div 2 ^ k) - real n\<bar> < real u / 200 + real n / 2 ^ 50 + 1"
    using err nat_div_floor [of m k] by linarith
  with Sprintf_2f_read [OF h_def] c(1) show thesis
    by (intro that [OF b(1) _ _ c(2) fits]) (simp_all del: Sprintf_2f.simps)
qed

text \<open>The unit in which a size is printed.\<close>

definition printed_unit :: "FileSize \<Rightarrow> string" where
  "printed_unit s = (if s > TB then ''tb'' else if s > GB then ''gb'' else if s > MB then ''mb'' else if s > KB then ''kb'' else ''b'')"

lemma printed_in_unit:
  assumes "KB < s"
  defines "u \<equiv> unit_bytes (printed_unit s)"
  shows "FileSize_String s = Sprintf_2f (float_div (float_of_nat (unat s)) (float_of_nat u)) @ printed_unit s"
    and "2 \<le> u" "u < unat s" "u \<le> 10 ^ 9 \<and> unat s \<le> 1000 * u \<or> u = 10 ^ 12"
    and "stands_alone num (printed_unit s) []" "printed_unit s \<in> {''kb'', ''mb'', ''gb'', ''tb''}"
  using assms(1)
  by (auto simp: FileSize_String_def FileSize_MarshalText_def printed_unit_def u_def unit_bytes_def float_of_size_def unat_units
      stands_alone_def word_less_nat_alt simp del: Sprintf_2f.simps)

text \<open>
  C38: A size that is printed is read back without an error. Up to 1024 bytes it is the same; above, it differs by less than half a
  hundredth of the unit it is printed in, the roundings of \<^verbatim>\<open>float64\<close> and one byte that is cut off.
\<close>

theorem FileSize_roundtrip:
  "snd (ParseFileSize f (FileSize_String s)) = None
   \<and> (if s \<le> KB then fst (ParseFileSize f (FileSize_String s)) = s
      else \<bar>real (unat (fst (ParseFileSize f (FileSize_String s)))) - real (unat s)\<bar>
             < real (unit_bytes (printed_unit s)) / 200 + real (unat s) / 2 ^ 50 + 1)"
proof (cases "s \<le> KB")
  case True
  then have n: "unat s \<le> 1024" by (simp add: word_le_nat_alt unat_units)
  have "\<not> s > TB" "\<not> s > GB" "\<not> s > MB" using n by (simp_all add: word_less_nat_alt unat_units)
  with True have "FileSize_String s = decimal (unat s) @ ''b''"
    by (simp add: FileSize_String_def FileSize_MarshalText_def not_less)
  moreover have "FileSize_UnmarshalText f 0 (decimal (unat s) @ ''b'') = (of_nat (unat s * unit_bytes ''b''), None)"
    by (rule UnmarshalText_exact) (use n in \<open>simp_all add: stands_alone_def unit_bytes_def\<close>)
  ultimately show ?thesis using True by (simp add: ParseFileSize_def unit_bytes_def)
next
  case False
  then have kb: "KB < s" by simp
  note p = printed_in_unit [OF kb]
  define u where "u = unit_bytes (printed_unit s)"
  have s64: "unat s < 2 ^ 64" using unsigned_less [of s, where ?'a = nat] by simp
  obtain x y m k where x: "float_div (float_of_nat (unat s)) (float_of_nat u) = x" "number_text (Sprintf_2f x)"
    "ParseFloat (Sprintf_2f x) = Inr y" "float_mult y (float_of_nat u) = Fin m k" "m div 2 ^ k < 2 ^ 64"
    "\<bar>real (m div 2 ^ k) - real (unat s)\<bar> < real u / 200 + real (unat s) / 2 ^ 50 + 1"
    using size_in_unit [OF p(2,3) s64 p(4), folded u_def] by blast
  let ?t = "Sprintf_2f x @ printed_unit s"
  have t: "FileSize_String s = ?t" using p(1) x(1) by (simp add: u_def)
  have "FindAllStringSubmatch (ToLower ?t) = [[?t, Sprintf_2f x, printed_unit s]]"
    using FindAll_here [of "[]" "Sprintf_2f x" "[]" "printed_unit s"] p(5) x(2) by (simp add: ToLower_number [OF x(2) p(5)])
  moreover have "float_mult y (float_of_nat u) = Fin m k" by (rule x(4))
  ultimately have "FileSize_UnmarshalText f 0 ?t = (uint64_of_float f (Fin m k), None)"
    using p(6) x(3) unfolding u_def
    by (elim insertE emptyE) (simp_all add: FileSize_UnmarshalText_def unit_bytes_def float_of_size_def del: uint64_of_float.simps)
  with x(5,6) False t show ?thesis
    by (simp add: ParseFileSize_def u_def take_bit_nat_eq_self unsigned_of_nat)
qed

end
