(* ===== verification/Cedar_Hash.thy ===== *)
theory Cedar_Hash
  imports Cedar_Bufs
begin

text \<open>
  \<^verbatim>\<open>HashBuf\<close> and \<^verbatim>\<open>HashStr\<close> of \<^verbatim>\<open>bufs/hash.go\<close>: the headers of slices and strings as words in memory, the cast of the one to the
  other through \<^verbatim>\<open>unsafe.Pointer\<close>, and the runtime's \<^verbatim>\<open>memhash\<close>, which is not in the repository and is an argument.
\<close>

type_synonym memory = "uint64 \<Rightarrow> byte"

record slice_header =
  sl_ptr :: uint64
  sl_len :: int64
  sl_cap :: int64

text \<open>\<^verbatim>\<open>stringStruct\<close>, the header of a string.\<close>

record stringStruct =
  ss_str :: uint64
  ss_len :: int64

text \<open>\<^verbatim>\<open>(*stringStruct)(unsafe.Pointer(&data))\<close>: the first two of the three words of a slice.\<close>

definition slice_as_string :: "slice_header \<Rightarrow> stringStruct" where
  "slice_as_string data = \<lparr>ss_str = sl_ptr data, ss_len = sl_len data\<rparr>"

type_synonym memhash = "memory \<Rightarrow> uint64 \<Rightarrow> uint64 \<Rightarrow> uint64 \<Rightarrow> uint64"

definition HashBuf :: "memhash \<Rightarrow> memory \<Rightarrow> slice_header \<Rightarrow> uint64" where
  "HashBuf memhash mem data = (let ss = slice_as_string data in memhash mem (ss_str ss) 0 (ss_len ss))"

definition HashStr :: "memhash \<Rightarrow> memory \<Rightarrow> stringStruct \<Rightarrow> uint64" where
  "HashStr memhash mem str = memhash mem (ss_str str) 0 (ss_len str)"

text \<open>The bytes a header stands for, and what the runtime documents of \<^verbatim>\<open>memhash\<close>: it hashes the \<^verbatim>\<open>s\<close> bytes at \<^verbatim>\<open>p\<close> with a seed.\<close>

definition bytes_at :: "memory \<Rightarrow> uint64 \<Rightarrow> nat \<Rightarrow> bytes" where
  "bytes_at mem p n = map (\<lambda>i. mem (p + of_nat i)) [0..<n]"

definition buf_bytes :: "memory \<Rightarrow> slice_header \<Rightarrow> bytes" where
  "buf_bytes mem data = bytes_at mem (sl_ptr data) (unat (sl_len data))"

definition str_bytes :: "memory \<Rightarrow> stringStruct \<Rightarrow> bytes" where
  "str_bytes mem str = bytes_at mem (ss_str str) (unat (ss_len str))"

definition hashes_bytes :: "memhash \<Rightarrow> bool" where
  "hashes_bytes memhash \<longleftrightarrow>
     (\<forall>mem mem' p p' h s. bytes_at mem p (unat s) = bytes_at mem' p' (unat s) \<longrightarrow> memhash mem p h s = memhash mem' p' h s)"

lemma length_bytes_at [simp]: "length (bytes_at mem p n) = n"
  by (simp add: bytes_at_def)

lemma hashes_bytesD:
  "hashes_bytes memhash \<Longrightarrow> bytes_at mem p (unat s) = bytes_at mem' p' (unat s) \<Longrightarrow> memhash mem p h s = memhash mem' p' h s"
  unfolding hashes_bytes_def by blast

lemma hash_equal_bytes:
  assumes "hashes_bytes memhash" and "buf_bytes mem data = str_bytes mem' str"
  shows "HashBuf memhash mem data = HashStr memhash mem' str"
proof -
  have "sl_len data = ss_len str"
    using arg_cong [OF assms(2), of length] by (simp add: buf_bytes_def str_bytes_def word_unat_eq_iff)
  with assms(2) have "bytes_at mem (sl_ptr data) (unat (ss_len str)) = bytes_at mem' (ss_str str) (unat (ss_len str))"
    by (simp add: buf_bytes_def str_bytes_def)
  from hashes_bytesD [OF assms(1) this] \<open>sl_len data = ss_len str\<close> show ?thesis
    by (simp add: HashBuf_def HashStr_def slice_as_string_def)
qed

text \<open>
  Where the bytes lie and how much capacity a slice has make no difference: there is one function of the bytes that \<^verbatim>\<open>HashBuf\<close>
  and \<^verbatim>\<open>HashStr\<close> both compute.
\<close>

lemma hash_of_contents:
  assumes "hashes_bytes memhash"
  obtains H where "\<And>mem data. HashBuf memhash mem data = H (buf_bytes mem data)"
    and "\<And>mem str. HashStr memhash mem str = H (str_bytes mem str)"
proof -
  define place where "place bs = (\<lambda>p :: uint64. if unat p < length bs then bs ! unat p else (0 :: byte))" for bs :: bytes
  define H where "H bs = memhash (place bs) 0 0 (of_nat (length bs))" for bs
  have at: "bytes_at (place bs) 0 (length bs) = bs" if "length bs < 2 ^ 64" for bs
    using that by (intro nth_equalityI) (simp_all add: bytes_at_def place_def unsigned_of_nat take_bit_nat_eq_self)
  have H: "memhash mem p 0 s = H (bytes_at mem p (unat s))" for mem p s
  proof -
    have "unat s < 2 ^ 64" using unsigned_less [of s, where ?'a = nat] by simp
    then have "bytes_at (place (bytes_at mem p (unat s))) 0 (unat s) = bytes_at mem p (unat s)"
      using at [of "bytes_at mem p (unat s)"] by simp
    from hashes_bytesD [OF assms this] show ?thesis unfolding H_def by simp
  qed
  show thesis
  proof (rule that)
    show "HashBuf memhash mem data = H (buf_bytes mem data)" for mem data
      unfolding HashBuf_def Let_def H buf_bytes_def by (simp add: slice_as_string_def)
    show "HashStr memhash mem str = H (str_bytes mem str)" for mem str
      unfolding HashStr_def H str_bytes_def by (rule refl)
  qed
qed

text \<open>The promise can be kept: by \<^verbatim>\<open>APHash64\<close> over the bytes.\<close>

lemma APHash64_hashes_bytes: "hashes_bytes (\<lambda>mem p h s. h XOR APHash64 (bytes_at mem p (unat s)))"
  by (simp add: hashes_bytes_def)

end
