(* ===== verification/Cedar_Testutils.thy ===== *)
theory Cedar_Testutils
  imports Cedar_Prelude
begin

text \<open>
  The test support. First the \<^verbatim>\<open>Awaiter\<close> of \<^verbatim>\<open>testutils/expectations.go\<close>, which the tests wait with: a channel with ten places, and waits with a time
  limit that let a test go on or fail. Times are nanoseconds from the beginning of the wait.
\<close>

text \<open>The number of values in the channel.\<close>

type_synonym awaiter = nat

definition NewAwaiter :: awaiter where
  "NewAwaiter = 0"

text \<open>A send on the channel; \<open>None\<close>: it blocks while all places are taken.\<close>

definition ItHappened :: "awaiter \<Rightarrow> awaiter option" where
  "ItHappened a = (if a < 10 then Some (a + 1) else None)"

text \<open>The parameters: the last duration and the last string count, anything else is ignored.\<close>

datatype param = P_duration int | P_string string | P_other

fun params_loop :: "int \<Rightarrow> string \<Rightarrow> param list \<Rightarrow> int \<times> string" where
  "params_loop duration msg [] = (duration, msg)"
| "params_loop duration msg (p # params) =
     (case p of
        P_duration d \<Rightarrow> params_loop d msg params
      | P_string m \<Rightarrow> params_loop duration m params
      | P_other \<Rightarrow> params_loop duration msg params)"

definition wait_params :: "param list \<Rightarrow> int \<times> string" where
  "wait_params params = params_loop (10 * 10 ^ 9) [] params"

datatype outcome = Goes_on | Fatal string

text \<open>
  A wait gives an outcome and what is left in the channel; a value received is taken out. Which cases the \<^verbatim>\<open>select\<close> may take: the channel, which has a value now or from the time \<open>next\<close> on, if ever, and the timer,
  which fires at once if the duration is not positive. If both are ready either may be taken.
\<close>

definition may_receive :: "awaiter \<Rightarrow> int option \<Rightarrow> int \<Rightarrow> bool" where
  "may_receive a next duration \<longleftrightarrow> 0 < a \<or> (case next of None \<Rightarrow> False | Some t \<Rightarrow> t \<le> max 0 duration)"

definition may_time_out :: "awaiter \<Rightarrow> int option \<Rightarrow> int \<Rightarrow> bool" where
  "may_time_out a next duration \<longleftrightarrow>
     (if 0 < a then duration \<le> 0 else (case next of None \<Rightarrow> True | Some t \<Rightarrow> max 0 duration \<le> max 0 t))"

definition AwaitOrFail :: "param list \<Rightarrow> awaiter \<Rightarrow> int option \<Rightarrow> (outcome \<times> awaiter) set" where
  "AwaitOrFail params a next =
     (case wait_params params of
        (duration, msg) \<Rightarrow>
          (if may_receive a next duration then {(Goes_on, a - 1)} else {})
          \<union> (if may_time_out a next duration
              then {(Fatal (''Timed out waiting for Awaiter to get ItHappened: '' @ msg), a)} else {}))"

definition NeverHappenedOrFail :: "param list \<Rightarrow> awaiter \<Rightarrow> int option \<Rightarrow> (outcome \<times> awaiter) set" where
  "NeverHappenedOrFail params a next =
     (case wait_params params of
        (duration, msg) \<Rightarrow>
          (if may_receive a next duration then {(Fatal (''should not happen: '' @ msg), a - 1)} else {})
          \<union> (if may_time_out a next duration then {(Goes_on, a)} else {}))"

text \<open>A wait always ends, and the two waits are opposite: one can go on exactly if the other can fail.\<close>

lemma wait_ends: "may_receive a next duration \<or> may_time_out a next duration"
  by (auto simp: may_receive_def may_time_out_def split: option.splits)

lemma waits_opposite:
  "(Goes_on, b) \<in> AwaitOrFail params a next \<longleftrightarrow> (\<exists>msg. (Fatal msg, b) \<in> NeverHappenedOrFail params a next)"
  "(Goes_on, b) \<in> NeverHappenedOrFail params a next \<longleftrightarrow> (\<exists>msg. (Fatal msg, b) \<in> AwaitOrFail params a next)"
  by (auto simp: AwaitOrFail_def NeverHappenedOrFail_def split: prod.splits if_splits)

text \<open>With a positive time limit the outcome is determined unless the value comes at the very end of it.\<close>

lemma await_in_time:
  assumes "wait_params params = (duration, msg)" and "0 < duration"
    and "0 < a \<or> (\<exists>t < duration. next = Some t)"
  shows "AwaitOrFail params a next = {(Goes_on, a - 1)}"
  using assms by (auto simp: AwaitOrFail_def may_receive_def may_time_out_def)

lemma await_too_late:
  assumes "wait_params params = (duration, msg)" and "0 < duration" and "a = 0"
    and "case next of None \<Rightarrow> True | Some t \<Rightarrow> duration < t"
  shows "NeverHappenedOrFail params a next = {(Goes_on, a)}"
  using assms by (auto simp: NeverHappenedOrFail_def may_receive_def may_time_out_def split: option.splits)

text \<open>The last duration and the last message count.\<close>

lemma params_last:
  "params_loop d m (ps @ [P_duration d']) = (d', snd (params_loop d m ps))"
  "params_loop d m (ps @ [P_string m']) = (fst (params_loop d m ps), m')"
  by (induction d m ps rule: params_loop.induct) (auto split: param.splits)

section \<open>Logging\<close>

text \<open>
  \<^verbatim>\<open>EnableLogging\<close> of \<^verbatim>\<open>testutils/logging.go\<close>: the flags of the program, whose setter refuses (\<open>None\<close>) a name that is not
  defined, and the functions that the test calls at its end. The errors of \<^verbatim>\<open>flag.Set\<close> are ignored.
\<close>

type_synonym flags = "string \<rightharpoonup> string"

definition flag_Set :: "string \<Rightarrow> string \<Rightarrow> flags \<Rightarrow> flags option" where
  "flag_Set name val fl = (case fl name of None \<Rightarrow> None | Some _ \<Rightarrow> Some (fl(name \<mapsto> val)))"

definition set_flag :: "string \<Rightarrow> string \<Rightarrow> flags \<Rightarrow> flags" where
  "set_flag name val fl = (case flag_Set name val fl of None \<Rightarrow> fl | Some fl' \<Rightarrow> fl')"

datatype cleanup = Klog_Flush

definition EnableLogging :: "flags \<times> cleanup list \<Rightarrow> flags \<times> cleanup list" where
  "EnableLogging t =
     (case t of (fl, cs) \<Rightarrow> (set_flag ''v'' ''2'' (set_flag ''logtostderr'' ''true'' fl), Klog_Flush # cs))"

text \<open>Where the flags are not defined, only the cleanup is added.\<close>

lemma EnableLogging_flags:
  "fl ''v'' = None \<Longrightarrow> fl ''logtostderr'' = None \<Longrightarrow> fst (EnableLogging (fl, cs)) = fl"
  "fl ''v'' = Some a \<Longrightarrow> fl ''logtostderr'' = Some b \<Longrightarrow>
     fst (EnableLogging (fl, cs)) = fl(''logtostderr'' \<mapsto> ''true'', ''v'' \<mapsto> ''2'')"
  by (simp_all add: EnableLogging_def set_flag_def flag_Set_def)

end
