(* ===== verification/Cedar_Pool_Tree.thy ===== *)
theory Cedar_Pool_Tree
  imports Cedar_Pool_Close Cedar_Process_Props "HOL-Library.Monad_Syntax"
begin

text \<open>
  The pool worker as a part of the process tree: \<^verbatim>\<open>OnContextStarted\<close> of \<^verbatim>\<open>Pool\<close> and \<^verbatim>\<open>poolWorker\<close> as the calls of \<^verbatim>\<open>StartChild\<close>
  and \<^verbatim>\<open>Go\<close> that they make, and the two systems side by side. The contexts that the goroutines of the pool select on are the
  \<^verbatim>\<open>Done()\<close> channels of their processes, and the function that \<^verbatim>\<open>Go\<close> runs ends when its goroutine returns.
  The start itself is taken to run undisturbed: its calls of \<^verbatim>\<open>StartChild\<close> and \<^verbatim>\<open>Go\<close> succeed, and nobody else moves before it
  returns.
\<close>

section \<open>Starting\<close>

text \<open>Where the processes are: the worker, its pool, the deliverer, the retry handler, and the worker goroutines.\<close>

record layout =
  at_worker :: addr
  at_pool :: addr
  at_deliverer :: addr
  at_handler :: addr
  at_go :: "nat \<Rightarrow> addr"

text \<open>
  A call of \<^verbatim>\<open>StartChild\<close> (with \<open>go\<close>, of \<^verbatim>\<open>Go\<close>), on a thread of its own, for \<open>m\<close> statements: 5 bring it to
  \<^verbatim>\<open>OnContextStarted\<close>, 7 to its return. \<open>None\<close>: it does not come that far.
\<close>

definition start_call :: "addr option \<Rightarrow> string \<Rightarrow> bool \<Rightarrow> nat \<Rightarrow> addr \<Rightarrow> nat sys \<Rightarrow> nat sys option" where
  "start_call par label go m c s =
     acts False (Start par c label go # replicate m (Run (length (threads s)) (Hook None))) s"

definition Pool_OnContextStarted :: "layout \<Rightarrow> nat sys \<Rightarrow> nat sys option" where
  "Pool_OnContextStarted L s =
     do {
       s1 \<leftarrow> start_call (Some (at_pool L)) ''deliverAvailableItems'' True 7 (at_deliverer L) s;
       start_call (Some (at_pool L)) ''handleItemsAwaitingRetry'' True 7 (at_handler L) s1
     }"

text \<open>The loop over the workers, from \<open>i\<close> on.\<close>

fun go_loop :: "layout \<Rightarrow> nat \<Rightarrow> nat \<Rightarrow> nat sys \<Rightarrow> nat sys option" where
  "go_loop L 0 i s = Some s"
| "go_loop L (Suc m) i s =
     do {
       s1 \<leftarrow> start_call (Some (at_worker L)) (''worker '' @ decimal i) True 7 (at_go L i) s;
       go_loop L m (i + 1) s1
     }"

definition poolWorker_OnContextStarted :: "layout \<Rightarrow> int \<Rightarrow> nat sys \<Rightarrow> nat sys option" where
  "poolWorker_OnContextStarted L concurrency s =
     do {
       s1 \<leftarrow> start_call (Some (at_worker L)) ''poolWorker'' False 5 (at_pool L) s;
       s2 \<leftarrow> Pool_OnContextStarted L s1;
       s3 \<leftarrow> acts False (replicate 2 (Run (length (threads s)) (Hook None))) s2;
       go_loop L (nat concurrency) 0 s3
     }"

text \<open>\<^verbatim>\<open>Start(worker, label)\<close>.\<close>

definition start_pool_worker :: "layout \<Rightarrow> int \<Rightarrow> string \<Rightarrow> nat sys option" where
  "start_pool_worker L concurrency label =
     do {
       s1 \<leftarrow> start_call None label False 1 (at_worker L) empty_sys;
       s2 \<leftarrow> poolWorker_OnContextStarted L concurrency s1;
       acts False (replicate 2 (Run 0 (Hook None))) s2
     }"

section \<open>The two systems side by side\<close>

record ('k, 'i, 'sem) wsys =
  w_tree :: "nat sys"
  w_pool :: "('k, 'i, 'sem) psys"
  w_closes :: nat   \<comment> \<open>calls of \<^verbatim>\<open>poolWorker.Close\<close> in \<^verbatim>\<open>w.Process.Close()\<close>\<close>

definition is_done :: "nat sys \<Rightarrow> addr \<Rightarrow> bool" where
  "is_done s a \<longleftrightarrow> chan_ready (Done_chan (heap s a))"

text \<open>The goroutines of the pool see the \<^verbatim>\<open>Done()\<close> of their contexts; the retry handler also looks at that of the pool.\<close>

definition observe :: "layout \<Rightarrow> nat sys \<Rightarrow> ('k, 'i, 'sem) psys \<Rightarrow> ('k, 'i, 'sem) psys" where
  "observe L s p =
     p\<lparr>d_ctx := is_done s (at_deliverer L), h_ctx := is_done s (at_handler L) \<or> is_done s (at_pool L), w_ctx := (\<lambda>i. is_done s (at_go L i))\<rparr>"

text \<open>The function that \<^verbatim>\<open>Go\<close> runs on \<open>c\<close> has returned.\<close>

definition returned :: "layout \<Rightarrow> ('k, 'i, 'sem) psys \<Rightarrow> addr \<Rightarrow> bool" where
  "returned L p c \<longleftrightarrow>
     (c = at_deliverer L \<longrightarrow> deliverer p = D_return) \<and> (c = at_handler L \<longrightarrow> handler p = H_return)
     \<and> list_all (\<lambda>i. c = at_go L i \<longrightarrow> workers p ! i = Wk_return) [0..<length (workers p)]"

definition set_tree :: "layout \<Rightarrow> nat sys \<Rightarrow> ('k, 'i, 'sem) wsys \<Rightarrow> ('k, 'i, 'sem) wsys" where
  "set_tree L t s = s\<lparr>w_tree := t, w_pool := observe L t (w_pool s)\<rparr>"

text \<open>Steps of the program, and steps of clients and the clock.\<close>

inductive w_run ::
    "layout \<Rightarrow> 'sem sem_ops \<Rightarrow> ('i \<Rightarrow> 'k) \<Rightarrow> ('k, 'i, 'sem) wsys \<Rightarrow> ('k, 'i, 'sem) wsys \<Rightarrow> bool"
  for L :: layout and ops :: "'sem sem_ops" and ID :: "'i \<Rightarrow> 'k"
where
  w_thread: "thread_step False f (w_tree s) t \<Longrightarrow> (\<forall>c. f = G_run c \<longrightarrow> returned L (w_pool s) c) \<Longrightarrow>
     w_run L ops ID s (set_tree L t s)"
| w_works: "pool_works ops ID (w_pool s) p \<Longrightarrow> w_run L ops ID s (s\<lparr>w_pool := p\<rparr>)"
| w_handler: "e = Handler_start \<or> e = Handler_stop \<Longrightarrow> pool_step ops ID e (w_pool s) p \<Longrightarrow> w_run L ops ID s (s\<lparr>w_pool := p\<rparr>)"
| w_close_pool: "0 < w_closes s \<Longrightarrow> p_closeOnce (heap (w_tree s) (at_worker L)) = OnceDone \<Longrightarrow>
     w_run L ops ID s (set_tree L (spawn (C_enter (at_pool L)) (w_tree s)) (s\<lparr>w_closes := w_closes s - 1\<rparr>))"

inductive w_call ::
    "layout \<Rightarrow> 'sem sem_ops \<Rightarrow> ('i \<Rightarrow> 'k) \<Rightarrow> ('k, 'i, 'sem) wsys \<Rightarrow> ('k, 'i, 'sem) wsys \<Rightarrow> bool"
  for L :: layout and ops :: "'sem sem_ops" and ID :: "'i \<Rightarrow> 'k"
where
  w_tree_call: "client_step (w_tree s) t \<Longrightarrow> w_call L ops ID s (set_tree L t s)"
| w_Close: "w_call L ops ID s (set_tree L (spawn (C_enter (at_worker L)) (w_tree s)) (s\<lparr>w_closes := w_closes s + 1\<rparr>))"
| w_Add: "pool_step ops ID (Client_add item) (w_pool s) p \<Longrightarrow> w_call L ops ID s (s\<lparr>w_pool := p\<rparr>)"
| w_ForceRetry: "pool_step ops ID (Client_force uid) (w_pool s) p \<Longrightarrow> w_call L ops ID s (s\<lparr>w_pool := p\<rparr>)"
| w_tick: "pool_step ops ID (Handler now) (w_pool s) p \<Longrightarrow> w_call L ops ID s (s\<lparr>w_pool := p\<rparr>)"

definition w_step ::
    "layout \<Rightarrow> 'sem sem_ops \<Rightarrow> ('i \<Rightarrow> 'k) \<Rightarrow> ('k, 'i, 'sem) wsys \<Rightarrow> ('k, 'i, 'sem) wsys \<Rightarrow> bool" where
  "w_step L ops ID s t \<longleftrightarrow> w_run L ops ID s t \<or> w_call L ops ID s t"

definition w_init :: "layout \<Rightarrow> 'sem sem_ops \<Rightarrow> int \<Rightarrow> ('k, 'i, 'sem) wsys \<Rightarrow> bool" where
  "w_init L ops concurrency s \<longleftrightarrow>
     (\<exists>label. start_pool_worker L concurrency label = Some (w_tree s))
     \<and> (\<exists>interval. w_pool s = observe L (w_tree s) (NewPoolWorker ops concurrency interval)) \<and> w_closes s = 0"

section \<open>What the start leaves\<close>

lemma start_call_steps: "start_call par label go m c s = Some t \<Longrightarrow> (proc_step False)\<^sup>*\<^sup>* s t"
  unfolding start_call_def by (rule acts_steps)

lemma acts_append: "acts ordered (as @ bs) s = (case acts ordered as s of None \<Rightarrow> None | Some t \<Rightarrow> acts ordered bs t)"
  by (induction as arbitrary: s) (auto split: option.split)

text \<open>Up to the start of the watcher, \<^verbatim>\<open>StartChild\<close> runs straight on, or it is refused.\<close>

lemma start_call_listed:
  assumes "acts False (Start (Some p) c label go # replicate 5 (Run (length (threads s)) (Hook None))) s = Some t"
  shows "c \<in> set (p_subs (heap t p))"
  using assms by (auto simp: numeral_eq_Suc spawn_def in_order_exec_def Let_def heap_upd split: if_splits)

lemma reachable_proc_inv: "reachable proc_init (proc_step ordered) s \<Longrightarrow> proc_inv s (frames s)"
  by (rule proc.reachable_inv)

lemma start_call_kept:
  assumes "start_call (Some p) label go m c s = Some t" "5 \<le> m" "reachable proc_init (proc_step False) s"
  shows "kept_or_done p c t"
proof -
  let ?as = "Start (Some p) c label go # replicate 5 (Run (length (threads s)) (Hook None))"
  let ?bs = "replicate (m - 5) (Run (length (threads s)) (Hook None))"
  have "acts False (?as @ ?bs) s = Some t"
    using assms(1,2) by (simp add: start_call_def flip: replicate_add)
  then obtain u where u: "acts False ?as s = Some u" "acts False ?bs u = Some t"
    by (auto simp only: acts_append split: option.splits)
  have "reachable proc_init (proc_step False) u" by (rule reachable_steps [OF acts_steps [OF u(1)] assms(3)])
  with start_call_listed [OF u(1)] steps_kept [OF acts_steps [OF u(2)], of p c] show ?thesis
    by (simp add: kept_or_done_def reachable_proc_inv)
qed

lemma kept_steps: "(proc_step False)\<^sup>*\<^sup>* s t \<Longrightarrow> reachable proc_init (proc_step False) s \<Longrightarrow> kept_or_done p c s \<Longrightarrow> kept_or_done p c t"
  using steps_kept reachable_proc_inv by blast

lemma go_loop_steps: "go_loop L m i s = Some t \<Longrightarrow> (proc_step False)\<^sup>*\<^sup>* s t"
proof (induction m arbitrary: i s)
  case (Suc m)
  then obtain u where "start_call (Some (at_worker L)) (''worker '' @ decimal i) True 7 (at_go L i) s = Some u" "go_loop L m (i + 1) u = Some t"
    by (auto split: bind_splits)
  with Suc.IH show ?case by (blast intro: rtranclp_trans start_call_steps)
qed simp

lemma go_loop_kept:
  "go_loop L m i s = Some t \<Longrightarrow> reachable proc_init (proc_step False) s \<Longrightarrow> i \<le> j \<Longrightarrow> j < i + m \<Longrightarrow>
     kept_or_done (at_worker L) (at_go L j) t"
proof (induction m arbitrary: i s)
  case (Suc m)
  then obtain u where u: "start_call (Some (at_worker L)) (''worker '' @ decimal i) True 7 (at_go L i) s = Some u" "go_loop L m (i + 1) u = Some t"
    by (auto split: bind_splits)
  have r: "reachable proc_init (proc_step False) u" by (rule reachable_steps [OF start_call_steps [OF u(1)] Suc.prems(2)])
  show ?case
  proof (cases "j = i")
    case True
    with start_call_kept [OF u(1) _ Suc.prems(2)] kept_steps [OF go_loop_steps [OF u(2)] r] show ?thesis by simp
  next
    case False
    with Suc.prems Suc.IH [OF u(2) r] show ?thesis by simp
  qed
qed simp

text \<open>After the start all processes are listed below their parents, unless they are done already.\<close>

definition attached :: "layout \<Rightarrow> nat \<Rightarrow> nat sys \<Rightarrow> bool" where
  "attached L n s \<longleftrightarrow> kept_or_done (at_worker L) (at_pool L) s
     \<and> kept_or_done (at_pool L) (at_deliverer L) s \<and> kept_or_done (at_pool L) (at_handler L) s
     \<and> (\<forall>i < n. kept_or_done (at_worker L) (at_go L i) s)"

lemma attached_steps: "(proc_step False)\<^sup>*\<^sup>* s t \<Longrightarrow> reachable proc_init (proc_step False) s \<Longrightarrow> attached L n s \<Longrightarrow> attached L n t"
  unfolding attached_def using kept_steps by blast

lemma proc_step_started: "proc_step ordered s t \<Longrightarrow> started b s \<Longrightarrow> started b t"
proof (unfold proc_step_def, elim disjE exE)
  assume "client_step s t" "started b s"
  then show "started b t" by (cases rule: client_step.cases) (auto simp: started_def heap_upd)
next
  fix f assume "thread_step ordered f s t" "started b s"
  then show "started b t" by (cases rule: thread_step.cases) (auto simp: started_def dest: exec_started [unfolded started_def])
qed

lemma proc_steps_started: "(proc_step ordered)\<^sup>*\<^sup>* s t \<Longrightarrow> started b s \<Longrightarrow> started b t"
  by (induction rule: rtranclp_induct) (auto intro: proc_step_started)

lemma start_pool_worker_attached:
  assumes "start_pool_worker L concurrency label = Some t"
  shows "reachable proc_init (proc_step False) t \<and> attached L (nat concurrency) t
    \<and> started (at_worker L) t \<and> started (at_pool L) t"
proof -
  obtain s1 s2 s3 s4 s5 s6 where
    1: "start_call None label False 1 (at_worker L) empty_sys = Some s1" and
    2: "start_call (Some (at_worker L)) ''poolWorker'' False 5 (at_pool L) s1 = Some s2" and
    3: "start_call (Some (at_pool L)) ''deliverAvailableItems'' True 7 (at_deliverer L) s2 = Some s3" and
    4: "start_call (Some (at_pool L)) ''handleItemsAwaitingRetry'' True 7 (at_handler L) s3 = Some s4" and
    5: "acts False (replicate 2 (Run (length (threads s1)) (Hook None))) s4 = Some s5" and
    6: "go_loop L (nat concurrency) 0 s5 = Some s6" and
    7: "acts False (replicate 2 (Run 0 (Hook None))) s6 = Some t"
    using assms unfolding start_pool_worker_def poolWorker_OnContextStarted_def Pool_OnContextStarted_def
    by (auto split: bind_splits)
  note steps = start_call_steps [OF 1] start_call_steps [OF 2] start_call_steps [OF 3] start_call_steps [OF 4]
    acts_steps [OF 5] go_loop_steps [OF 6] acts_steps [OF 7]
  have r0: "reachable proc_init (proc_step False) empty_sys" by (rule acts_reachable [of False "[]"]) simp
  have r1: "reachable proc_init (proc_step False) s1" by (rule reachable_steps [OF steps(1) r0])
  have r2: "reachable proc_init (proc_step False) s2" by (rule reachable_steps [OF steps(2) r1])
  have r3: "reachable proc_init (proc_step False) s3" by (rule reachable_steps [OF steps(3) r2])
  have r4: "reachable proc_init (proc_step False) s4" by (rule reachable_steps [OF steps(4) r3])
  have r5: "reachable proc_init (proc_step False) s5" by (rule reachable_steps [OF steps(5) r4])
  have r6: "reachable proc_init (proc_step False) s6" by (rule reachable_steps [OF steps(6) r5])
  note s46 = rtranclp_trans [OF steps(5,6)]
  note s36 = rtranclp_trans [OF steps(4) s46]
  note s26 = rtranclp_trans [OF steps(3) s36]
  have "kept_or_done (at_worker L) (at_pool L) s6"
    by (rule kept_steps [OF s26 r2 start_call_kept [OF 2 _ r1]]) simp
  moreover have "kept_or_done (at_pool L) (at_deliverer L) s6"
    by (rule kept_steps [OF s36 r3 start_call_kept [OF 3 _ r2]]) simp
  moreover have "kept_or_done (at_pool L) (at_handler L) s6"
    by (rule kept_steps [OF s46 r4 start_call_kept [OF 4 _ r3]]) simp
  moreover have "kept_or_done (at_worker L) (at_go L i) s6" if "i < nat concurrency" for i
    using go_loop_kept [OF 6 r5] that by simp
  ultimately have "attached L (nat concurrency) s6" by (simp add: attached_def)
  moreover have "at_pool L \<in> set (p_subs (heap s2 (at_worker L)))"
    by (rule start_call_listed) (use 2 in \<open>simp add: start_call_def\<close>)
  then have "started (at_worker L) s2 \<and> started (at_pool L) s2" using subs_family [OF reachable_proc_inv [OF r2]] by blast
  ultimately show ?thesis
    using attached_steps [OF steps(7) r6] reachable_steps [OF steps(7) r6]
      proc_steps_started [OF rtranclp_trans [OF s26 steps(7)]] by blast
qed

section \<open>The invariant\<close>

lemma proc_step_done:
  assumes "proc_step ordered s t" and "proc_inv s (frames s)" and "is_done s c"
  shows "is_done t c"
proof -
  have c: "p_chClosed (heap s c) = ChClosed" using assms(3) by (simp add: is_done_def Done_chan_def chan_ready_def)
  consider "client_step s t" | f where "thread_step ordered f s t"
    using assms(1) by (auto simp: proc_step_def)
  then have "p_chClosed (heap t c) = ChClosed"
  proof cases
    case 1
    then show ?thesis using c by (cases rule: client_step.cases) (auto simp: heap_upd)
  next
    case 2
    then show ?thesis
    proof (cases rule: thread_step.cases)
      case (thread_stepI i rest ch s' new spawned)
      obtain R where R: "frames s = add_mset f R"
        using frames_step [OF thread_stepI(2,3), where s' = s' and new = new and sp = spawned] by metis
      then have "frame_ok s f" "close_ok (heap s c) (tally (closer c) (frames s))"
        using assms(2) by (auto simp: proc_inv_def frames_ok_def closing_ok_def)
      then have "newborn f \<noteq> Some c"
        using c newborn_unstarted [of s f c] close_ok_unstarted_nil [of "heap s c"] by (auto simp: started_def)
      with exec_closed [OF thread_stepI(4) c] thread_stepI(1) show ?thesis by simp
    qed
  qed
  then show ?thesis by (simp add: is_done_def Done_chan_def chan_ready_def)
qed

text \<open>Both systems are in reachable states, and the pool sees the contexts as they are.\<close>

definition w_inv :: "layout \<Rightarrow> 'sem sem_ops \<Rightarrow> ('i \<Rightarrow> 'k) \<Rightarrow> int \<Rightarrow> ('k, 'i, 'sem) wsys \<Rightarrow> bool" where
  "w_inv L ops ID concurrency s \<longleftrightarrow>
     reachable proc_init (proc_step False) (w_tree s) \<and> attached L (nat concurrency) (w_tree s)
     \<and> started (at_worker L) (w_tree s) \<and> started (at_pool L) (w_tree s)
     \<and> reachable (pool_init ops concurrency) (pool_next ops ID) (w_pool s)
     \<and> length (workers (w_pool s)) = nat concurrency \<and> observe L (w_tree s) (w_pool s) = w_pool s"

lemma observe_cancel:
  assumes "d_ctx p \<longrightarrow> is_done t (at_deliverer L)" "h_ctx p \<longrightarrow> is_done t (at_handler L) \<or> is_done t (at_pool L)"
    "\<forall>i. w_ctx p i \<longrightarrow> is_done t (at_go L i)"
  shows "pool_step ops ID Cancel p (observe L t p)"
proof -
  have "(d_ctx p \<or> is_done t (at_deliverer L)) = is_done t (at_deliverer L)"
    "(h_ctx p \<or> is_done t (at_handler L) \<or> is_done t (at_pool L)) = (is_done t (at_handler L) \<or> is_done t (at_pool L))"
    "(\<lambda>i. w_ctx p i \<or> is_done t (at_go L i)) = (\<lambda>i. is_done t (at_go L i))"
    using assms by auto
  with step_cancel [of ops ID p, where d = "is_done t (at_deliverer L)" and h = "is_done t (at_handler L) \<or> is_done t (at_pool L)" and w = "\<lambda>i. is_done t (at_go L i)"]
  show ?thesis by (simp only: observe_def)
qed

lemma observe_simps [simp]:
  "workers (observe L t p) = workers p" "deliverer (observe L t p) = deliverer p" "pool (observe L t p) = pool p"
  "handler (observe L t p) = handler p" "observe L t (observe L u p) = observe L t p"
  by (simp_all add: observe_def)

lemma observe_fields:
  "d_ctx (observe L t p) = is_done t (at_deliverer L)" "h_ctx (observe L t p) = (is_done t (at_handler L) \<or> is_done t (at_pool L))"
  "w_ctx (observe L t p) = (\<lambda>i. is_done t (at_go L i))"
  by (simp_all add: observe_def)

text \<open>A step of the tree.\<close>

lemma set_tree_inv:
  assumes inv: "w_inv L ops ID conc s" and step: "proc_step False (w_tree s) t"
  shows "w_inv L ops ID conc (set_tree L t s)"
proof -
  note s = inv [unfolded w_inv_def]
  have r: "reachable proc_init (proc_step False) (w_tree s)" using s by simp
  have "is_done (w_tree s) c \<Longrightarrow> is_done t c" for c using proc_step_done [OF step reachable_proc_inv [OF r]] .
  moreover have "observe L (w_tree s) (w_pool s) = w_pool s" using s by simp
  then have "d_ctx (w_pool s) = is_done (w_tree s) (at_deliverer L)" "h_ctx (w_pool s) = (is_done (w_tree s) (at_handler L) \<or> is_done (w_tree s) (at_pool L))"
    "w_ctx (w_pool s) = (\<lambda>i. is_done (w_tree s) (at_go L i))" by (metis observe_fields)+
  ultimately have "pool_step ops ID Cancel (w_pool s) (observe L t (w_pool s))" by (intro observe_cancel) auto
  then have "reachable (pool_init ops conc) (pool_next ops ID) (observe L t (w_pool s))"
    using s by (blast intro: reachable_step [of _ "pool_next ops ID"] pool_next_def [THEN iffD2])
  moreover have "reachable proc_init (proc_step False) t" using r step by (rule reachable_step)
  moreover have "(proc_step False)\<^sup>*\<^sup>* (w_tree s) t" using step by blast
  ultimately show ?thesis
    using s attached_steps [of "w_tree s" t] proc_steps_started [of False "w_tree s" t]
    by (simp add: w_inv_def set_tree_def)
qed

text \<open>A step of the pool that is not a cancellation.\<close>

lemma observe_iff:
  "observe L t p = p \<longleftrightarrow> d_ctx p = is_done t (at_deliverer L) \<and> h_ctx p = (is_done t (at_handler L) \<or> is_done t (at_pool L))
     \<and> w_ctx p = (\<lambda>i. is_done t (at_go L i))"
proof
  assume "observe L t p = p"
  then show "d_ctx p = is_done t (at_deliverer L) \<and> h_ctx p = (is_done t (at_handler L) \<or> is_done t (at_pool L)) \<and> w_ctx p = (\<lambda>i. is_done t (at_go L i))"
    by (metis observe_fields)
qed (simp add: observe_def)

lemma pool_step_contexts:
  assumes "pool_step ops ID e p q" and "e \<noteq> Cancel"
  shows "d_ctx q = d_ctx p \<and> h_ctx q = h_ctx p \<and> w_ctx q = w_ctx p \<and> length (workers q) = length (workers p)"
  using assms(1) by cases (use assms(2) in simp_all)

lemma set_pool_inv:
  assumes "w_inv L ops ID conc s" and "pool_step ops ID e (w_pool s) p" and "e \<noteq> Cancel"
  shows "w_inv L ops ID conc (s\<lparr>w_pool := p\<rparr>)"
proof -
  have "pool_next ops ID (w_pool s) p" using assms(2) by (auto simp: pool_next_def)
  then have "reachable (pool_init ops conc) (pool_next ops ID) p"
    using assms(1) by (auto simp: w_inv_def intro: reachable_step)
  then show ?thesis
    using assms(1) pool_step_contexts [OF assms(2,3)] by (simp add: w_inv_def observe_iff)
qed

lemma close_proc_step: "started a s \<Longrightarrow> proc_step False s (spawn (C_enter a) s)"
  by (auto simp: proc_step_def spawn_def intro: client_close)

lemma w_inv_closes [simp]: "w_inv L ops ID conc (s\<lparr>w_closes := k\<rparr>) = w_inv L ops ID conc s"
  by (simp add: w_inv_def)

lemma set_tree_closes_inv:
  assumes "w_inv L ops ID conc s" and "proc_step False (w_tree s) t"
  shows "w_inv L ops ID conc (set_tree L t (s\<lparr>w_closes := k\<rparr>))"
  by (rule set_tree_inv) (use assms in simp_all)

lemma w_step_inv: "w_inv L ops ID conc s \<Longrightarrow> w_step L ops ID s t \<Longrightarrow> w_inv L ops ID conc t"
proof (unfold w_step_def, elim disjE)
  assume inv: "w_inv L ops ID conc s" and "w_run L ops ID s t"
  from this(2) show "w_inv L ops ID conc t"
  proof cases
    case (w_thread f u)
    then show ?thesis using set_tree_inv [OF inv] by (auto simp: proc_step_def)
  next
    case (w_works p)
    then obtain e where "internal e" "pool_step ops ID e (w_pool s) p" by (auto simp: pool_works_def)
    moreover from this have "e \<noteq> Cancel" by (auto simp: internal_def)
    ultimately show ?thesis using set_pool_inv [OF inv] w_works(1) by blast
  next
    case (w_handler e p)
    then show ?thesis using set_pool_inv [OF inv] by auto
  next
    case w_close_pool
    then show ?thesis using set_tree_closes_inv [OF inv close_proc_step] inv by (simp add: w_inv_def)
  qed
next
  assume inv: "w_inv L ops ID conc s" and "w_call L ops ID s t"
  from this(2) show "w_inv L ops ID conc t"
  proof cases
    case (w_tree_call u)
    then show ?thesis using set_tree_inv [OF inv] by (auto simp: proc_step_def)
  next
    case w_Close
    then show ?thesis using set_tree_closes_inv [OF inv close_proc_step] inv by (simp add: w_inv_def)
  qed (use set_pool_inv [OF inv] in auto)
qed

lemma w_init_inv: "w_init L ops conc s \<Longrightarrow> w_inv L ops ID conc s"
proof -
  assume "w_init L ops conc s"
  then obtain label interval where i: "start_pool_worker L conc label = Some (w_tree s)"
    "w_pool s = observe L (w_tree s) (NewPoolWorker ops conc interval)" by (auto simp: w_init_def)
  let ?p = "NewPoolWorker ops conc interval"
  have "reachable (pool_init ops conc) (pool_next ops ID) ?p"
    by (rule reachable_init) (auto simp: pool_init_def NewPoolWorker_def)
  moreover have "pool_step ops ID Cancel ?p (observe L (w_tree s) ?p)"
    by (rule observe_cancel) (simp_all add: NewPoolWorker_def)
  ultimately have "reachable (pool_init ops conc) (pool_next ops ID) (w_pool s)"
    unfolding i(2) by (blast intro: reachable_step [of _ "pool_next ops ID"] pool_next_def [THEN iffD2])
  then show ?thesis
    using start_pool_worker_attached [OF i(1)] i(2) by (simp add: w_inv_def) (simp add: NewPoolWorker_def)
qed

interpretation worker_sys: invariant_system "w_init L ops conc" "w_step L ops ID" "w_inv L ops ID conc"
  by unfold_locales (fact w_init_inv w_step_inv)+

section \<open>Coming to rest\<close>

fun handler_weight :: "hpc \<Rightarrow> nat" where
  "handler_weight H_start = 2"
| "handler_weight H_loop = 1"
| "handler_weight H_return = 0"

definition w_weight_of :: "('k, 'i, 'sem) wsys \<Rightarrow> nat" where
  "w_weight_of s = tally Cedar_Process_Live.weight (frames (w_tree s)) + 9 * w_closes s
     + Cedar_Pool_Props.weight (w_pool s) + handler_weight (handler (w_pool s))"

lemma weight_observe [simp]: "Cedar_Pool_Props.weight (observe L t p) = Cedar_Pool_Props.weight p"
  by (simp add: Cedar_Pool_Props.weight_def)

lemma handler_kept:
  assumes "pool_step ops ID e p q" and "internal e"
  shows "handler q = handler p"
  using assms(1) by cases (use assms(2) in \<open>simp_all add: internal_def\<close>)

lemma handler_moves:
  assumes "pool_step ops ID e p q" and "e = Handler_start \<or> e = Handler_stop"
  shows "handler_weight (handler q) < handler_weight (handler p)" "Cedar_Pool_Props.weight q = Cedar_Pool_Props.weight p"
  using assms(1) by (cases; use assms(2) in \<open>simp add: Cedar_Pool_Props.weight_def\<close>)+

lemma w_run_weight:
  assumes "w_run L ops ID s t"
  shows "w_weight_of t < w_weight_of s"
  using assms
proof cases
  case (w_thread f u)
  then show ?thesis using thread_step_weight [of False f "w_tree s" u] by (simp add: w_weight_of_def set_tree_def)
next
  case (w_works p)
  then obtain e where e: "internal e" "pool_step ops ID e (w_pool s) p" by (auto simp: pool_works_def)
  from works_weight [OF e(2,1)] handler_kept [OF e(2,1)] w_works show ?thesis by (simp add: w_weight_of_def)
next
  case (w_handler e p)
  then show ?thesis using handler_moves [OF w_handler(3,2)] by (simp add: w_weight_of_def)
next
  case w_close_pool
  then show ?thesis by (simp add: w_weight_of_def set_tree_def spawn_def frames_spawn)
qed

definition w_rest :: "layout \<Rightarrow> 'sem sem_ops \<Rightarrow> ('i \<Rightarrow> 'k) \<Rightarrow> ('k, 'i, 'sem) wsys \<Rightarrow> bool" where
  "w_rest L ops ID s \<longleftrightarrow> (\<nexists>t. w_run L ops ID s t)"

lemma w_run_rests: "\<exists>t. (w_run L ops ID)\<^sup>*\<^sup>* s t \<and> w_rest L ops ID t"
  unfolding w_rest_def by (rule runs_rest [where f = w_weight_of]) (rule w_run_weight)

lemma rest_idle: "w_rest L ops ID s \<Longrightarrow> idle (w_tree s)"
  unfolding idle_def w_rest_def by (blast intro: w_run.w_thread)

text \<open>At rest with the worker closed, all its processes are done, so that its goroutines see it and have returned.\<close>

lemma rest_done:
  assumes inv: "w_inv L ops ID conc s" and rest: "w_rest L ops ID s" and called: "close_called (at_worker L) (w_tree s)"
  shows "is_done (w_tree s) (at_worker L)" "is_done (w_tree s) (at_pool L)" "is_done (w_tree s) (at_deliverer L)"
    "is_done (w_tree s) (at_handler L)" "i < nat conc \<Longrightarrow> is_done (w_tree s) (at_go L i)"
proof -
  have r: "reachable proc_init (proc_step False) (w_tree s)" and a: "attached L (nat conc) (w_tree s)"
    using inv by (auto simp: w_inv_def)
  have p: "proc_inv (w_tree s) (frames (w_tree s))" and st: "stacks_ok (w_tree s)" using proc_stacks.reachable_inv [OF r] by auto
  note closed = idle_closed [OF p st rest_idle [OF rest]]
  have w: "p_chClosed (heap (w_tree s) (at_worker L)) = ChClosed" "p_subs (heap (w_tree s) (at_worker L)) = []"
    using closed idle_close_called [OF p st rest_idle [OF rest] called] by blast+
  then have pl: "p_chClosed (heap (w_tree s) (at_pool L)) = ChClosed" using a by (simp add: attached_def kept_or_done_def)
  have "close_ok (heap (w_tree s) (at_pool L)) (tally (closer (at_pool L)) (frames (w_tree s)))"
    using p by (simp add: proc_inv_def closing_ok_def)
  with pl have "p_closeOnce (heap (w_tree s) (at_pool L)) \<noteq> OnceNew" by (auto simp: close_ok_def)
  then have "p_subs (heap (w_tree s) (at_pool L)) = []" using closed by blast
  with w pl a show "is_done (w_tree s) (at_worker L)" "is_done (w_tree s) (at_pool L)" "is_done (w_tree s) (at_deliverer L)"
    "is_done (w_tree s) (at_handler L)" "i < nat conc \<Longrightarrow> is_done (w_tree s) (at_go L i)"
    by (auto simp: attached_def kept_or_done_def is_done_def Done_chan_def chan_ready_def)
qed

lemma rest_returned:
  assumes sem: "semaphore ops conc held" and inv: "w_inv L ops ID conc s" and rest: "w_rest L ops ID s"
    and called: "close_called (at_worker L) (w_tree s)" and interval: "0 < retryInterval (pool (w_pool s))"
  shows "all_returned (w_pool s) \<and> handler (w_pool s) = H_return \<and> held (pool_sem (pool (w_pool s))) = 0"
proof -
  note don = rest_done [OF inv rest called]
  have obs: "observe L (w_tree s) (w_pool s) = w_pool s" and len: "length (workers (w_pool s)) = nat conc"
    using inv by (simp_all add: w_inv_def)
  have "cancelled (w_pool s)" using obs don len by (simp add: observe_iff cancelled_def)
  moreover have "\<nexists>p. pool_works ops ID (w_pool s) p" using rest by (auto simp: w_rest_def intro: w_works)
  moreover have "psys_inv held ID (w_pool s)" using reachable_psys_inv [OF sem, of ID] inv by (simp add: w_inv_def)
  ultimately have "all_returned (w_pool s) \<and> held (pool_sem (pool (w_pool s))) = 0"
    using cancelled_rest_returned [OF sem] by blast
  moreover have "handler (w_pool s) = H_return"
  proof (cases "handler (w_pool s)")
    case H_start
    then have "w_run L ops ID s (s\<lparr>w_pool := (w_pool s)\<lparr>handler := H_loop\<rparr>\<rparr>)"
      by (intro w_handler [of Handler_start]) (use step_h_start [OF H_start interval] in simp_all)
    with rest show ?thesis by (auto simp: w_rest_def)
  next
    case H_loop
    moreover have "h_ctx (w_pool s)" using obs don(4) by (simp add: observe_iff)
    ultimately have "w_run L ops ID s (s\<lparr>w_pool := (w_pool s)\<lparr>handler := H_return\<rparr>\<rparr>)"
      by (intro w_handler [of Handler_stop]) (use step_h_stop [OF \<open>handler (w_pool s) = H_loop\<close>] in simp_all)
    with rest show ?thesis by (auto simp: w_rest_def)
  qed
  ultimately show ?thesis by blast
qed

lemma rest_functions:
  assumes inv: "w_inv L ops ID conc s" and rest: "w_rest L ops ID s" and ret: "all_returned (w_pool s)" "handler (w_pool s) = H_return"
  shows "G_run c \<notin># frames (w_tree s)"
proof
  assume g: "G_run c \<in># frames (w_tree s)"
  have "stacks_ok (w_tree s)" using proc_stacks.reachable_inv [of False "w_tree s"] inv by (simp add: w_inv_def)
  from this g show False
  proof (cases rule: frame_position)
    case (top i rest')
    then have "thread_step False (G_run c) (w_tree s) (w_tree s\<lparr>threads := (threads (w_tree s))[i := [C_enter c] @ rest'] @ []\<rparr>)"
      by (intro thread_stepI [where ch = "Hook None"]) simp_all
    moreover have "returned L (w_pool s) c" using ret by (simp add: returned_def all_returned_def list_all_length)
    ultimately have "w_run L ops ID s (set_tree L (w_tree s\<lparr>threads := (threads (w_tree s))[i := [C_enter c] @ rest'] @ []\<rparr>) s)"
      by (intro w_run.w_thread [where f = "G_run c"]) auto
    with rest show False by (auto simp: w_rest_def)
  qed simp
qed

text \<open>The retry interval never changes.\<close>

lemma retry_due_interval: "retry_due ks now p = Some q \<Longrightarrow> retryInterval q = retryInterval p"
  by (induction ks now p rule: retry_due.induct)
    (auto simp: make_available_def setState_def split: option.splits if_splits)

lemma pool_step_interval:
  assumes "pool_step ops ID e p q"
  shows "retryInterval (pool q) = retryInterval (pool p)"
  using assms
  by cases (auto simp: Add_def ForceRetry_def make_available_def setState_def release_one_def RetryLater_def Complete_def
      dest: retry_due_interval split: option.splits poolItemState.splits)

lemma w_run_interval:
  assumes "w_run L ops ID s t"
  shows "retryInterval (pool (w_pool t)) = retryInterval (pool (w_pool s))"
  using assms by cases (auto simp: set_tree_def pool_works_def dest: pool_step_interval)

lemma w_runs_interval:
  "(w_run L ops ID)\<^sup>*\<^sup>* s t \<Longrightarrow> retryInterval (pool (w_pool t)) = retryInterval (pool (w_pool s))"
  by (induction rule: rtranclp_induct) (auto dest: w_run_interval)

lemma w_runs_inv:
  assumes "(w_run L ops ID)\<^sup>*\<^sup>* s t" and "w_inv L ops ID conc s" and "close_called a (w_tree s)"
  shows "w_inv L ops ID conc t \<and> close_called a (w_tree t)"
  using assms
proof (induction rule: rtranclp_induct)
  case (step u t)
  then have u: "w_inv L ops ID conc u" "close_called a (w_tree u)" by blast+
  have "close_called a (w_tree t)"
    using step(2)
  proof cases
    case (w_thread f v)
    have "proc_inv (w_tree u) (frames (w_tree u))" using u(1) reachable_proc_inv by (auto simp: w_inv_def)
    then have "close_called a v" by (rule thread_step_close_called [OF w_thread(2) _ u(2)])
    then show ?thesis by (simp add: w_thread(1) set_tree_def)
  next
    case w_close_pool
    with u(2) show ?thesis by (auto simp: set_tree_def close_called_def spawn_def frames_spawn)
  qed (use u(2) in simp_all)
  with w_step_inv [OF u(1)] step(2) show ?case by (auto simp: w_step_def)
qed simp

text \<open>
  C7: A started pool worker whose retry interval is positive and that is closed comes to a full stop by itself, whatever its clients, its items and its goroutines
  were doing and wherever the goroutines of the process tree were: it reaches a state in which nothing can move, and in every such
  state the worker, its pool and the contexts of all their goroutines are done, every goroutine (deliverer, retry handler,
  workers) has returned, every permit of the semaphore has been given back, and the calls of \<^verbatim>\<open>poolWorker.Close\<close> have closed the pool too.
\<close>

theorem pool_worker_closes:
  assumes "semaphore ops conc held"
    and "reachable (w_init L ops conc) (w_step L ops ID) s" and "close_called (at_worker L) (w_tree s)"
    and "0 < retryInterval (pool (w_pool s))"
  shows "(\<exists>t. (w_run L ops ID)\<^sup>*\<^sup>* s t \<and> w_rest L ops ID t)
    \<and> (\<forall>t. (w_run L ops ID)\<^sup>*\<^sup>* s t \<and> w_rest L ops ID t \<longrightarrow>
          is_done (w_tree t) (at_worker L) \<and> is_done (w_tree t) (at_pool L)
          \<and> is_done (w_tree t) (at_deliverer L) \<and> is_done (w_tree t) (at_handler L)
          \<and> (\<forall>i < nat conc. is_done (w_tree t) (at_go L i))
          \<and> all_returned (w_pool t) \<and> handler (w_pool t) = H_return \<and> (\<forall>c. G_run c \<notin># frames (w_tree t))
          \<and> held (pool_sem (pool (w_pool t))) = 0 \<and> w_closes t = 0)"
proof -
  have "is_done (w_tree t) (at_worker L) \<and> is_done (w_tree t) (at_pool L)
      \<and> is_done (w_tree t) (at_deliverer L) \<and> is_done (w_tree t) (at_handler L)
      \<and> (\<forall>i < nat conc. is_done (w_tree t) (at_go L i))
      \<and> all_returned (w_pool t) \<and> handler (w_pool t) = H_return \<and> (\<forall>c. G_run c \<notin># frames (w_tree t))
      \<and> held (pool_sem (pool (w_pool t))) = 0 \<and> w_closes t = 0"
    if t: "(w_run L ops ID)\<^sup>*\<^sup>* s t" and rest: "w_rest L ops ID t" for t
  proof -
    have inv: "w_inv L ops ID conc t" and called: "close_called (at_worker L) (w_tree t)"
      using w_runs_inv [OF t worker_sys.reachable_inv [OF assms(2)] assms(3)] by blast+
    have st: "stacks_ok (w_tree t)" and p: "proc_inv (w_tree t) (frames (w_tree t))"
      using proc_stacks.reachable_inv [of False "w_tree t"] inv by (simp_all add: w_inv_def)
    have "p_closeOnce (heap (w_tree t) (at_worker L)) = OnceDone"
      using idle_close_called [OF p st rest_idle [OF rest] called] idle_no_close_running [OF p st rest_idle [OF rest]]
      by (metis once.exhaust)
    then have "w_closes t = 0" using w_close_pool [of t L ops ID] rest by (auto simp: w_rest_def)
    moreover note ret = rest_returned [OF assms(1) inv rest called assms(4) [folded w_runs_interval [OF t]]]
    ultimately show ?thesis
      using rest_done [OF inv rest called] rest_functions [OF inv rest] by blast
  qed
  with w_run_rests [of L ops ID s] show ?thesis by blast
qed

section \<open>Runs\<close>

text \<open>Threads of the tree that move, the functions under \<^verbatim>\<open>Go\<close> apart.\<close>

fun tree_runs :: "(nat \<times> choice) list \<Rightarrow> nat sys \<Rightarrow> nat sys option" where
  "tree_runs [] s = Some s"
| "tree_runs ((i, ch) # rs) s =
     (case threads s ! i of
        G_run _ # _ \<Rightarrow> None
      | _ \<Rightarrow> (case act False (Run i ch) s of None \<Rightarrow> None | Some t \<Rightarrow> tree_runs rs t))"

lemma act_run_thread:
  assumes "act False (Run i ch) s = Some t"
  shows "\<exists>f rest. threads s ! i = f # rest \<and> thread_step False f s t"
proof -
  from assms obtain f rest s' new sp where "i < length (threads s)" "threads s ! i = f # rest"
      "exec ch f s = Steps s' new sp" "t = s'\<lparr>threads := (threads s')[i := new @ rest] @ sp\<rparr>"
    by (auto split: if_splits list.splits outcome.splits)
  then show ?thesis by (auto intro: thread_stepI)
qed

lemma set_tree_twice: "set_tree L t (set_tree L u s) = set_tree L t s"
  by (simp add: set_tree_def)

lemma tree_runs_reachable:
  "tree_runs rs (w_tree s) = Some t \<Longrightarrow> reachable (w_init L ops conc) (w_step L ops ID) s \<Longrightarrow>
     reachable (w_init L ops conc) (w_step L ops ID) (set_tree L t s)"
proof (induction rs arbitrary: s)
  case Nil
  then have t: "t = w_tree s" by simp
  have "observe L (w_tree s) (w_pool s) = w_pool s"
    using worker_sys.reachable_inv [OF Nil(2)] by (simp add: w_inv_def)
  then have "set_tree L t s = s" unfolding t by (simp add: set_tree_def)
  with Nil(2) show ?case by simp
next
  case (Cons r rs)
  obtain i ch where r: "r = (i, ch)" by fastforce
  with Cons.prems(1) obtain u where u: "act False (Run i ch) (w_tree s) = Some u" "tree_runs rs u = Some t"
    and no: "\<And>c rest. threads (w_tree s) ! i \<noteq> G_run c # rest"
    by (auto simp del: act.simps split: list.splits pc.splits option.splits)
  obtain f rest where f: "threads (w_tree s) ! i = f # rest" "thread_step False f (w_tree s) u"
    using act_run_thread [OF u(1)] by blast
  with no have "w_run L ops ID s (set_tree L u s)" by (intro w_run.w_thread [OF f(2)]) auto
  then have "w_step L ops ID s (set_tree L u s)" by (simp add: w_step_def)
  with Cons.prems(2) have "reachable (w_init L ops conc) (w_step L ops ID) (set_tree L u s)" by (rule reachable_step)
  from Cons.IH [OF _ this] u(2) show ?case by (simp add: set_tree_twice) (simp add: set_tree_def)
qed

lemma move_step_contexts:
  "move_step ops ID m p = Some q \<Longrightarrow> d_ctx q = d_ctx p \<and> h_ctx q = h_ctx p \<and> w_ctx q = w_ctx p"
  by (cases m)
    (auto simp: worker_move_def Let_def split: dpc.splits wpc.splits option.splits prod.splits list.splits if_splits)

lemma pool_next_reachable:
  assumes "pool_next ops ID (w_pool s) q" "d_ctx q = d_ctx (w_pool s)" "h_ctx q = h_ctx (w_pool s)" "w_ctx q = w_ctx (w_pool s)"
    and r: "reachable (w_init L ops conc) (w_step L ops ID) s"
  shows "reachable (w_init L ops conc) (w_step L ops ID) (s\<lparr>w_pool := q\<rparr>)"
proof -
  obtain e where e: "pool_step ops ID e (w_pool s) q" using assms(1) by (auto simp: pool_next_def)
  have works: "w_step L ops ID s (s\<lparr>w_pool := q\<rparr>)" if "internal e"
    using e that by (auto simp: w_step_def pool_works_def intro!: w_works)
  have "w_step L ops ID s (s\<lparr>w_pool := q\<rparr>) \<or> q = w_pool s"
  proof (cases e)
    case Cancel
    from e [unfolded Cancel] show ?thesis by cases (use assms(2-4) in simp)
  next
    case Handler_start
    with e show ?thesis by (auto simp: w_step_def intro: w_handler)
  next
    case Handler_stop
    with e show ?thesis by (auto simp: w_step_def intro: w_handler)
  qed (use e works in \<open>auto simp: w_step_def internal_def intro: w_Add w_ForceRetry w_tick\<close>)
  then show ?thesis
  proof
    assume "q = w_pool s"
    then have "s\<lparr>w_pool := q\<rparr> = s" by simp
    with r show ?thesis by simp
  qed (rule reachable_step [OF r])
qed

lemma moves_w_reachable:
  "moves ops ID ms (w_pool s) = Some q \<Longrightarrow> reachable (w_init L ops conc) (w_step L ops ID) s \<Longrightarrow>
     reachable (w_init L ops conc) (w_step L ops ID) (s\<lparr>w_pool := q\<rparr>)"
proof (induction ms arbitrary: s)
  case (Cons m ms)
  then obtain u where u: "move_step ops ID m (w_pool s) = Some u" "moves ops ID ms u = Some q" by (auto split: option.splits)
  have "reachable (w_init L ops conc) (w_step L ops ID) (s\<lparr>w_pool := u\<rparr>)"
    using pool_next_reachable [OF move_step_sound [OF u(1)] _ _ _ Cons.prems(2)] move_step_contexts [OF u(1)] by simp
  from Cons.IH [OF _ this] u(2) show ?case by simp
next
  case Nil
  then have "s\<lparr>w_pool := q\<rparr> = s" by simp
  with Nil(2) show ?case by simp
qed

text \<open>A pool worker with one goroutine, at 0, with an item in \<^verbatim>\<open>Work\<close>.\<close>

definition layout0 :: layout where
  "layout0 = \<lparr>at_worker = 0, at_pool = 1, at_deliverer = 2, at_handler = 3, at_go = (\<lambda>i. 4 + i)\<rparr>"

definition tree0 :: "nat sys" where
  "tree0 = the (start_pool_worker layout0 1 ''w'')"

definition item_moves :: "(nat, nat) move list" where
  "item_moves = [M_handler, M_add 7, M_work 0 None, M_work 0 None, M_deliver, M_deliver, M_deliver, M_hand 0, M_work 0 None]"

definition pool0 :: "(nat, nat, nat) psys" where
  "pool0 = the (moves (capped 1) (\<lambda>i. i) item_moves (observe layout0 tree0 (NewPoolWorker (capped 1) 1 5)))"

definition busy0 :: "(nat, nat, nat) wsys" where
  "busy0 = \<lparr>w_tree = tree0, w_pool = pool0, w_closes = 0\<rparr>"

lemma busy0_reachable: "reachable (w_init layout0 (capped 1) 1) (w_step layout0 (capped 1) (\<lambda>i. i)) busy0"
proof -
  let ?s = "\<lparr>w_tree = tree0, w_pool = observe layout0 tree0 (NewPoolWorker (capped 1) 1 5), w_closes = 0\<rparr>"
  have "\<not> Option.is_none (start_pool_worker layout0 1 ''w'')" by code_simp
  then have "start_pool_worker layout0 1 ''w'' = Some tree0" by (auto simp: tree0_def Option.is_none_def)
  then have "w_init layout0 (capped 1) 1 ?s" unfolding w_init_def by (intro conjI exI) simp_all
  then have r: "reachable (w_init layout0 (capped 1) 1) (w_step layout0 (capped 1) (\<lambda>i. i)) ?s" by (rule reachable_init)
  have "\<not> Option.is_none (moves (capped 1) (\<lambda>i. i) item_moves (observe layout0 tree0 (NewPoolWorker (capped 1) 1 5)))" by code_simp
  then have "moves (capped 1) (\<lambda>i. i) item_moves (w_pool ?s) = Some pool0" by (auto simp: pool0_def Option.is_none_def)
  from moves_w_reachable [OF this r] show ?thesis by (simp add: busy0_def)
qed

text \<open>\<^verbatim>\<open>Close\<close> is called on it, and the process tree closes.\<close>

definition close0 :: "(nat, nat, nat) wsys" where
  "close0 = set_tree layout0 (spawn (C_enter 0) (w_tree busy0)) (busy0\<lparr>w_closes := 1\<rparr>)"

lemma close0_reachable: "reachable (w_init layout0 (capped 1) 1) (w_step layout0 (capped 1) (\<lambda>i. i)) close0"
proof -
  have "w_call layout0 (capped 1) (\<lambda>i. i) busy0 close0"
    using w_Close [of layout0 "capped 1" "\<lambda>i. i" busy0] by (simp add: close0_def layout0_def busy0_def)
  then have "w_step layout0 (capped 1) (\<lambda>i. i) busy0 close0" by (simp add: w_step_def)
  with busy0_reachable show ?thesis by (rule reachable_step)
qed

definition close_runs :: "(nat \<times> choice) list" where
  "close_runs = replicate 4 (12, Pick True) @ replicate 5 (2, Pick True) @ replicate 12 (4, Pick True) @ replicate 12 (7, Pick True)
     @ replicate 7 (2, Pick True) @ replicate 12 (10, Pick True) @ replicate 4 (12, Pick True)"

text \<open>
  C15: \<^verbatim>\<open>Done()\<close> of a pool worker does not wait for its goroutines: there is a run in which an item is being worked on, the
  worker is closed, and worker and pool are \<^verbatim>\<open>Closed\<close> and done while the item is still in \<^verbatim>\<open>Work\<close> and the deliverer still runs.
\<close>

theorem worker_done_while_working:
  "\<exists>s. reachable (w_init layout0 (capped 1) 1) (w_step layout0 (capped 1) (\<lambda>i :: nat. i)) s
     \<and> is_done (w_tree s) (at_worker layout0) \<and> is_done (w_tree s) (at_pool layout0)
     \<and> workers (w_pool s) = [Wk_work 7] \<and> deliverer (w_pool s) \<noteq> D_return"
proof -
  have "\<not> Option.is_none (tree_runs close_runs (w_tree close0))" by code_simp
  then obtain t where t: "tree_runs close_runs (w_tree close0) = Some t" by (auto simp: Option.is_none_def)
  then have t_eq: "t = the (tree_runs close_runs (w_tree close0))" by simp
  have "is_done t 0" "is_done t 1" unfolding t_eq by code_simp+
  moreover have "workers (w_pool close0) = [Wk_work 7]" "deliverer (w_pool close0) = D_loop []" by code_simp+
  ultimately show ?thesis
    using tree_runs_reachable [OF t close0_reachable]
    by (intro exI [of _ "set_tree layout0 t close0"]) (simp add: set_tree_def layout0_def)
qed

theorem pool_worker_closes_witness:
  "\<exists>t. (w_run layout0 (capped 1) (\<lambda>i. i))\<^sup>*\<^sup>* close0 t \<and> w_rest layout0 (capped 1) (\<lambda>i. i) t
     \<and> workers (w_pool close0) = [Wk_work 7] \<and> is_done (w_tree t) 0 \<and> is_done (w_tree t) 1
     \<and> all_returned (w_pool t) \<and> pool_sem (pool (w_pool t)) = 0 \<and> w_closes t = 0"
proof -
  have "C_enter 0 \<in># frames (w_tree close0)" by (simp add: close0_def set_tree_def spawn_def frames_spawn)
  then have "close_called (at_worker layout0) (w_tree close0)" by (simp add: close_called_def layout0_def)
  moreover have "0 < retryInterval (pool (w_pool close0))" by code_simp
  ultimately
  have "\<exists>t. (w_run layout0 (capped 1) (\<lambda>i. i))\<^sup>*\<^sup>* close0 t \<and> w_rest layout0 (capped 1) (\<lambda>i. i) t
     \<and> is_done (w_tree t) 0 \<and> is_done (w_tree t) 1 \<and> all_returned (w_pool t) \<and> pool_sem (pool (w_pool t)) = 0 \<and> w_closes t = 0"
    using pool_worker_closes [OF capped_semaphore close0_reachable] by (auto simp: layout0_def)
  moreover have "workers (w_pool close0) = [Wk_work 7]" by code_simp
  ultimately show ?thesis by blast
qed

text \<open>
  A pool worker that was made but not started panics when it is closed, and so does one whose pool was not started: \<^verbatim>\<open>close\<close> of the nil
  channel of a zero process.
\<close>

lemma close_unstarted_panics:
  assumes "heap s a = process_zero"
  shows "\<exists>u v. exec ch (C_enter a) s = Steps u [C_body KState a] [] \<and> exec ch (C_body KState a) u = Steps v [C_body KSignal a] []
    \<and> exec ch (C_body KSignal a) v = Panics"
  using assms by (simp add: process_zero_def)

text \<open>
  C14: No run of a pool worker in its process tree is endless without calls of clients and ticks of the clock: the deliverer, the
  workers, the retry handler, the watchers and the calls of \<^verbatim>\<open>Close\<close> together make only finitely many steps.
\<close>

theorem worker_runs_end:
  "wfP (\<lambda>t s. w_run L ops ID s t)"
  by (rule wfp_if_convertible_to_nat [where f = w_weight_of]) (rule w_run_weight)

end
