(* ===== verification/Cedar_Print.thy ===== *)
theory Cedar_Print
  imports Cedar_Process_Props Cedar_Values Cedar_Paths
begin

text \<open>
  \<^verbatim>\<open>PrintContextTree\<close> of \<^verbatim>\<open>process/process.go\<close>: the exported tree as text, for a writer or for the log.
\<close>

text \<open>Every started process has a logger, whose prefix is within \<^verbatim>\<open>longestLabel\<close>.\<close>

definition loggers_ok :: "'cb sys \<Rightarrow> bool" where
  "loggers_ok s \<longleftrightarrow>
     (\<forall>a. started a s \<longrightarrow> (\<exists>l. p_Logger (heap s a) = Some l \<and> fits (longestLabel s) l))"

lemma longestLabel_upd [simp]: "longestLabel (upd a f s) = longestLabel s"
  by (simp add: upd_def)

lemma close_exec_loggers:
  "close_exec k a s = Steps s' new sp \<Longrightarrow> p_Logger (heap s' b) = p_Logger (heap s b) \<and> longestLabel s' = longestLabel s"
  by (cases k; cases "b = a") (auto split: option.splits if_splits)

lemma exec_loggers:
  assumes "exec ch f s = Steps s' new sp" and "newborn f \<noteq> Some b"
  shows "p_Logger (heap s' b) = p_Logger (heap s b) \<and> longestLabel s \<le> longestLabel s'"
proof (cases f)
  case (SC_init par c label go)
  with assms NewLogger_fits show ?thesis
    by (auto simp: Let_def OnContextInit_def split_beta heap_upd split: option.splits)
next
  case (C_body k a)
  with assms close_exec_loggers show ?thesis by fastforce
qed (use assms in \<open>auto simp: heap_upd split: option.splits if_splits once.splits\<close>)

lemma exec_loggers_ok:
  assumes "exec ch f s = Steps s' new sp" and "frame_ok s f" and "loggers_ok s"
  shows "loggers_ok s'"
  unfolding loggers_ok_def
proof (intro allI impI)
  fix a assume a: "started a s'"
  show "\<exists>l. p_Logger (heap s' a) = Some l \<and> fits (longestLabel s') l"
  proof (cases "newborn f = Some a")
    case True
    then obtain par label go where "f = SC_init par a label go" by (cases f) auto
    with assms(1) NewLogger_fits show ?thesis
      by (auto simp: Let_def OnContextInit_def split_beta split: option.splits)
  next
    case False
    with assms a show ?thesis
      using exec_loggers [OF assms(1) False] exec_started_back [OF assms(1,2) a False]
      by (fastforce simp: loggers_ok_def intro: fits_mono)
  qed
qed

lemma client_step_loggers: "client_step s t \<Longrightarrow> loggers_ok s \<Longrightarrow> loggers_ok t"
  by (cases rule: client_step.cases) (auto simp: loggers_ok_def started_def heap_upd)

lemma thread_step_loggers:
  assumes "thread_step ordered f s t" and "proc_inv s (frames s)" and "loggers_ok s"
  shows "loggers_ok t"
  using assms(1)
proof (cases rule: thread_step.cases)
  case (thread_stepI i rest ch s' new spawned)
  obtain R where "frames s = add_mset f R"
    using frames_step [OF thread_stepI(2,3), where s' = s' and new = new and sp = spawned] by metis
  then have "frame_ok s f" using assms(2) by (auto simp: proc_inv_def frames_ok_def)
  from exec_loggers_ok [OF thread_stepI(4) this assms(3)] thread_stepI(1) show ?thesis
    by (simp add: loggers_ok_def started_def)
qed

interpretation proc_loggers: invariant_system proc_init "proc_step ordered" "\<lambda>s. proc_inv s (frames s) \<and> loggers_ok s"
proof
  fix s :: "'a sys"
  assume "proc_init s"
  then show "proc_inv s (frames s) \<and> loggers_ok s"
    using proc.init_inv by (auto simp: proc_init_def loggers_ok_def started_def process_zero_def)
next
  fix s t :: "'a sys"
  assume "proc_inv s (frames s) \<and> loggers_ok s" and "proc_step ordered s t"
  then show "proc_inv t (frames t) \<and> loggers_ok t"
    using proc.step_inv client_step_loggers thread_step_loggers unfolding proc_step_def by blast
qed

text \<open>The text goes to the writer, or the logger's calls of \<^verbatim>\<open>klog\<close> are made, unless there is no logger or it panics.\<close>

datatype 'v printed = Written bytes | Logged "'v log_call list" | Print_panics

definition Process_Info ::
    "(int \<Rightarrow> bool) \<Rightarrow> 'v sprint \<Rightarrow> int \<Rightarrow> 'v any list \<Rightarrow> 'cb process \<Rightarrow> nat \<Rightarrow> 'v printed" where
  "Process_Info klogV sprint inVerboseLevel args p n =
     (case p_Logger p of
        None \<Rightarrow> Print_panics
      | Some l \<Rightarrow>
          (case Info klogV sprint inVerboseLevel args l n of None \<Rightarrow> Print_panics | Some cs \<Rightarrow> Logged cs))"

text \<open>
  The writer's result is ignored, so all that counts of it is whether there is one. \<open>marshal\<close> is \<^verbatim>\<open>json.MarshalIndent\<close>, and
  \<open>levels\<close> bounds the recursion of \<^verbatim>\<open>ExportContextTree\<close>.
\<close>

definition PrintContextTree ::
    "(ctx_tree \<Rightarrow> bytes option) \<Rightarrow> (int \<Rightarrow> bool) \<Rightarrow> 'v sprint \<Rightarrow> nat \<Rightarrow> bool \<Rightarrow> int \<Rightarrow> addr \<Rightarrow> 'cb sys \<Rightarrow> 'v printed option" where
  "PrintContextTree marshal klogV sprint levels has_out verboseLevel a s =
     (case ExportContextTree levels (heap s) a of
        None \<Rightarrow> None
      | Some tree \<Rightarrow>
          (let txt = PrettyJSON marshal tree
           in Some (if has_out then Written txt
                    else Process_Info klogV sprint verboseLevel [AStr (string_of_bytes txt)] (heap s a) (longestLabel s))))"

text \<open>
  As many levels as contexts were ever started are enough, and the logger does not panic: its prefix is padded to the longest
  label.
\<close>

lemma PrintContextTree_returns:
  assumes "reachable proc_init (proc_step ordered) s" and "started a s"
  obtains tree r where "ExportContextTree (births s) (heap s) a = Some tree"
    and "PrintContextTree marshal klogV sprint (births s) has_out verboseLevel a s = Some r"
    and "has_out \<Longrightarrow> r = Written (PrettyJSON marshal tree)"
    and "\<not> has_out \<Longrightarrow> \<exists>cs. r = Logged cs \<and> length cs = (if verboseLevel > 0 \<and> \<not> klogV verboseLevel then 0 else 1)"
proof -
  have "ExportContextTree (births s) (heap s) a \<noteq> None"
    by (rule export_total [OF proc.reachable_inv [OF assms(1)] assms(2)]) simp
  then obtain tree where tree: "ExportContextTree (births s) (heap s) a = Some tree" by blast
  obtain l where l: "p_Logger (heap s a) = Some l" "fits (longestLabel s) l"
    using proc_loggers.reachable_inv [OF assms(1)] assms(2) by (fastforce simp: loggers_ok_def split: option.splits)
  obtain r where r: "PrintContextTree marshal klogV sprint (births s) has_out verboseLevel a s = Some r"
    using tree by (simp add: PrintContextTree_def Let_def)
  from that [OF tree r] r tree l show thesis
    by (auto simp: PrintContextTree_def Let_def Process_Info_def Info_def log_line_fits split: if_splits)
qed

end
