(* ===== verification/Cedar_Task_Tree.thy ===== *)
theory Cedar_Task_Tree
  imports Cedar_Pool_Tree Cedar_Task_Ticker
begin

text \<open>
  A periodic task on its ticker as a part of the process tree: \<^verbatim>\<open>OnContextStarted\<close> of \<^verbatim>\<open>process/periodic_task.go\<close> starts the
  ticker and calls \<^verbatim>\<open>Go\<close>; the loop of the task selects on the \<^verbatim>\<open>Done()\<close> of the process that \<^verbatim>\<open>Go\<close> made.

  \<^verbatim>\<open>*PeriodicTask\<close> is no \<^verbatim>\<open>Context\<close>, because its \<^verbatim>\<open>Close() error\<close> hides the \<^verbatim>\<open>Close()\<close> of the embedded process, so \<^verbatim>\<open>Start(task, label)\<close>
  and \<^verbatim>\<open>parent.StartChild(task, label)\<close> do not compile. What a client can do, and what is modelled, is to start the embedded
  process, \<^verbatim>\<open>Start(&task.Process, label)\<close>, and to call \<^verbatim>\<open>task.OnContextStarted()\<close> after it; \<^verbatim>\<open>task.Process.Close()\<close> closes it.
  As for the pool worker, these two calls run undisturbed.
\<close>

section \<open>The systems side by side\<close>

text \<open>Where the processes are: the task, and the one whose function is the loop.\<close>

record task_layout =
  at_task :: addr
  at_loop :: addr

definition PeriodicTask_OnContextStarted :: "task_layout \<Rightarrow> nat sys \<Rightarrow> nat sys option" where
  "PeriodicTask_OnContextStarted L s = start_call (Some (at_task L)) ''ticker'' True 7 (at_loop L) s"

text \<open>
  The client starts the embedded process as a root and then calls the method of the task: \<^verbatim>\<open>OnContextStarted\<close> of the
  process itself, the last thing \<^verbatim>\<open>Start\<close> calls, does nothing.
\<close>

definition start_periodic_task :: "task_layout \<Rightarrow> string \<Rightarrow> nat sys option" where
  "start_periodic_task L label =
     do {
       s1 \<leftarrow> start_call None label False 3 (at_task L) empty_sys;
       PeriodicTask_OnContextStarted L s1
     }"

record tree_task =
  tt_tree :: "nat sys"
  tt_sys :: task_sys

definition see :: "task_layout \<Rightarrow> nat sys \<Rightarrow> task_sys \<Rightarrow> task_sys" where
  "see L t u = u\<lparr>ts_task := (ts_task u)\<lparr>pt_ctx := if is_done t (at_loop L) then ChClosed else ChOpen\<rparr>\<rparr>"

definition put_tree :: "task_layout \<Rightarrow> nat sys \<Rightarrow> tree_task \<Rightarrow> tree_task" where
  "put_tree L t s = s\<lparr>tt_tree := t, tt_sys := see L t (tt_sys s)\<rparr>"

text \<open>The steps of the loop that need no tick: those that change its place, but not to \<open>P_tick\<close>.\<close>

definition task_works :: "task \<Rightarrow> task \<Rightarrow> bool" where
  "task_works t t' \<longleftrightarrow> task_step t t' \<and> pt_pc t' \<noteq> pt_pc t \<and> pt_pc t' \<noteq> P_tick"

inductive tt_run :: "task_layout \<Rightarrow> tree_task \<Rightarrow> tree_task \<Rightarrow> bool" for L :: task_layout where
  tt_thread: "thread_step False f (tt_tree s) t \<Longrightarrow> (f = G_run (at_loop L) \<longrightarrow> pt_pc (ts_task (tt_sys s)) = P_return) \<Longrightarrow>
     tt_run L s (put_tree L t s)"
| tt_works: "task_works (ts_task (tt_sys s)) t \<Longrightarrow> tt_run L s (s\<lparr>tt_sys := (tt_sys s)\<lparr>ts_task := t\<rparr>\<rparr>)"

text \<open>Clients of the tree and of the task, and the ticker.\<close>

inductive tt_call :: "task_layout \<Rightarrow> tree_task \<Rightarrow> tree_task \<Rightarrow> bool" for L :: task_layout where
  tt_client: "client_step (tt_tree s) t \<Longrightarrow> tt_call L s (put_tree L t s)"
| tt_task_sys: "task_sys_step (tt_sys s) u \<Longrightarrow> pt_ctx (ts_task u) = pt_ctx (ts_task (tt_sys s)) \<Longrightarrow>
     tt_call L s (s\<lparr>tt_sys := u\<rparr>)"

definition tt_step :: "task_layout \<Rightarrow> tree_task \<Rightarrow> tree_task \<Rightarrow> bool" where
  "tt_step L s t \<longleftrightarrow> tt_run L s t \<or> tt_call L s t"

definition tt_init :: "task_layout \<Rightarrow> tree_task \<Rightarrow> bool" where
  "tt_init L s \<longleftrightarrow> (\<exists>label. start_periodic_task L label = Some (tt_tree s))
     \<and> (\<exists>mn mx. tt_sys s = see L (tt_tree s) (start_task mn mx))"

section \<open>The invariant\<close>

definition tt_inv :: "task_layout \<Rightarrow> tree_task \<Rightarrow> bool" where
  "tt_inv L s \<longleftrightarrow> reachable proc_init (proc_step False) (tt_tree s) \<and> kept_or_done (at_task L) (at_loop L) (tt_tree s)
     \<and> reachable task_sys_init task_sys_step (tt_sys s)
     \<and> pt_ctx (ts_task (tt_sys s)) = (if is_done (tt_tree s) (at_loop L) then ChClosed else ChOpen)"

lemma start_periodic_task_kept:
  assumes "start_periodic_task L label = Some t"
  shows "reachable proc_init (proc_step False) t \<and> kept_or_done (at_task L) (at_loop L) t"
proof -
  obtain s1 where
    1: "start_call None label False 3 (at_task L) empty_sys = Some s1" and
    2: "start_call (Some (at_task L)) ''ticker'' True 7 (at_loop L) s1 = Some t"
    using assms unfolding start_periodic_task_def PeriodicTask_OnContextStarted_def by (auto split: bind_splits)
  have r0: "reachable proc_init (proc_step False) empty_sys" by (rule acts_reachable [of False "[]"]) simp
  have r1: "reachable proc_init (proc_step False) s1" by (rule reachable_steps [OF start_call_steps [OF 1] r0])
  show ?thesis using reachable_steps [OF start_call_steps [OF 2] r1] start_call_kept [OF 2 _ r1] by simp
qed

text \<open>Closing the loop's process is a cancellation of its context.\<close>

lemma see_steps:
  assumes "pt_ctx (ts_task u) = (if d then ChClosed else ChOpen)" and "d \<longrightarrow> is_done t (at_loop L)"
  shows "task_sys_step\<^sup>*\<^sup>* u (see L t u)"
proof (cases "d \<longleftrightarrow> is_done t (at_loop L)")
  case True
  then have "see L t u = u" using assms(1) by (simp add: see_def)
  then show ?thesis by simp
next
  case False
  then have "task_step (ts_task u) ((ts_task u)\<lparr>pt_ctx := ChClosed\<rparr>)" using assms by (intro task_cancel) auto
  moreover have "\<not> takes_tick (ts_task u) ((ts_task u)\<lparr>pt_ctx := ChClosed\<rparr>)"
    using False assms by (cases "ts_task u") (auto simp: takes_tick_def)
  ultimately have "task_sys_step u (u\<lparr>ts_task := (ts_task u)\<lparr>pt_ctx := ChClosed\<rparr>\<rparr>)" by (rule ts_task_only)
  with False assms(2) show ?thesis by (auto simp: see_def)
qed

lemma put_tree_inv:
  assumes inv: "tt_inv L s" and step: "proc_step False (tt_tree s) t"
  shows "tt_inv L (put_tree L t s)"
proof -
  note s = inv [unfolded tt_inv_def]
  have r: "reachable proc_init (proc_step False) (tt_tree s)" using s by simp
  have "is_done (tt_tree s) (at_loop L) \<longrightarrow> is_done t (at_loop L)"
    using proc_step_done [OF step reachable_proc_inv [OF r]] by blast
  then have "task_sys_step\<^sup>*\<^sup>* (tt_sys s) (see L t (tt_sys s))" using s by (intro see_steps) auto
  then have "reachable task_sys_init task_sys_step (see L t (tt_sys s))" using s by (auto intro: reachable_steps)
  moreover have "reachable proc_init (proc_step False) t" using r step by (rule reachable_step)
  moreover have "kept_or_done (at_task L) (at_loop L) t" using kept_steps [of "tt_tree s" t] step s by blast
  ultimately show ?thesis by (simp add: tt_inv_def put_tree_def see_def)
qed

lemma task_works_step: "task_works (ts_task u) t \<Longrightarrow> task_sys_step u (u\<lparr>ts_task := t\<rparr>)"
  by (intro ts_task_only) (auto simp: task_works_def takes_tick_def)

lemma task_works_ctx: "task_works t t' \<Longrightarrow> pt_ctx t' = pt_ctx t"
  unfolding task_works_def
  by (elim conjE, erule task_step.cases) (auto simp: Enqueue_def task_retrieve_def split: prod.splits option.splits)

lemma tt_step_inv: "tt_inv L s \<Longrightarrow> tt_step L s t \<Longrightarrow> tt_inv L t"
proof (unfold tt_step_def, elim disjE)
  assume inv: "tt_inv L s" and "tt_run L s t"
  from this(2) show "tt_inv L t"
  proof cases
    case (tt_thread f u)
    then show ?thesis using put_tree_inv [OF inv] by (auto simp: proc_step_def)
  next
    case (tt_works u)
    then show ?thesis
      using inv task_works_ctx [OF tt_works(2)] task_works_step [OF tt_works(2)] by (auto simp: tt_inv_def intro: reachable_step)
  qed
next
  assume inv: "tt_inv L s" and "tt_call L s t"
  from this(2) show "tt_inv L t"
  proof cases
    case (tt_client u)
    then show ?thesis using put_tree_inv [OF inv] by (auto simp: proc_step_def)
  next
    case (tt_task_sys u)
    then show ?thesis using inv by (auto simp: tt_inv_def intro: reachable_step)
  qed
qed

lemma tt_init_inv: "tt_init L s \<Longrightarrow> tt_inv L s"
proof -
  assume "tt_init L s"
  then obtain label mn mx where i: "start_periodic_task L label = Some (tt_tree s)"
    "tt_sys s = see L (tt_tree s) (start_task mn mx)" by (auto simp: tt_init_def)
  have "reachable task_sys_init task_sys_step (start_task mn mx)" by (rule reachable_init) (auto simp: task_sys_init_def)
  moreover have "task_sys_step\<^sup>*\<^sup>* (start_task mn mx) (see L (tt_tree s) (start_task mn mx))"
    by (rule see_steps [of _ False]) (simp_all add: start_task_def NewPeriodicTask_def)
  ultimately have "reachable task_sys_init task_sys_step (tt_sys s)" using reachable_steps i(2) by simp
  then show ?thesis using start_periodic_task_kept [OF i(1)] i(2) by (simp add: tt_inv_def see_def)
qed

interpretation tree_task_sys: invariant_system "tt_init L" "tt_step L" "tt_inv L"
  by unfold_locales (fact tt_init_inv tt_step_inv)+

section \<open>Coming to rest\<close>

text \<open>How far the loop can go without a tick and without a request.\<close>

fun pc_weight :: "task_pc \<Rightarrow> nat" where
  "pc_weight P_return = 0"
| "pc_weight P_select = 1"
| "pc_weight P_run = 2"
| "pc_weight P_retrieve = 3"
| "pc_weight P_tick = 6"

definition task_weight :: "task \<Rightarrow> nat" where
  "task_weight t = pc_weight (pt_pc t) + (if mb_notify (pt_mailbox t) then 4 else 0)"

definition tt_weight :: "tree_task \<Rightarrow> nat" where
  "tt_weight s = tally Cedar_Process_Live.weight (frames (tt_tree s)) + task_weight (ts_task (tt_sys s))"

lemma Retrieve_notify: "Retrieve m = (x, m') \<Longrightarrow> mb_notify m' = mb_notify m"
  by (auto simp: mailbox_ops Let_def split: if_splits)

lemma task_works_weight: "task_works t t' \<Longrightarrow> task_weight t' < task_weight t"
  unfolding task_works_def
  by (elim conjE, erule task_step.cases)
    (auto simp: task_weight_def Enqueue_def task_retrieve_def Notify_def dest!: Retrieve_notify split: prod.splits option.splits if_splits)

lemma tt_run_weight:
  assumes "tt_run L s t"
  shows "tt_weight t < tt_weight s"
  using assms
proof cases
  case (tt_thread f u)
  then show ?thesis
    using thread_step_weight [of False f "tt_tree s" u] by (simp add: tt_weight_def put_tree_def see_def task_weight_def)
next
  case (tt_works u)
  then show ?thesis using task_works_weight by (simp add: tt_weight_def)
qed

definition tt_rest :: "task_layout \<Rightarrow> tree_task \<Rightarrow> bool" where
  "tt_rest L s \<longleftrightarrow> (\<nexists>t. tt_run L s t)"

lemma tt_run_rests: "\<exists>t. (tt_run L)\<^sup>*\<^sup>* s t \<and> tt_rest L t"
  unfolding tt_rest_def by (rule runs_rest [where f = tt_weight]) (rule tt_run_weight)

lemma tt_rest_idle: "tt_rest L s \<Longrightarrow> idle (tt_tree s)"
  unfolding idle_def tt_rest_def by (blast intro: tt_run.tt_thread)

lemma tt_rest_done:
  assumes inv: "tt_inv L s" and rest: "tt_rest L s" and called: "close_called (at_task L) (tt_tree s)"
  shows "is_done (tt_tree s) (at_task L)" "is_done (tt_tree s) (at_loop L)"
proof -
  have r: "reachable proc_init (proc_step False) (tt_tree s)" and kept: "kept_or_done (at_task L) (at_loop L) (tt_tree s)"
    using inv by (auto simp: tt_inv_def)
  have p: "proc_inv (tt_tree s) (frames (tt_tree s))" and st: "stacks_ok (tt_tree s)" using proc_stacks.reachable_inv [OF r] by auto
  note idle = tt_rest_idle [OF rest]
  have "p_chClosed (heap (tt_tree s) (at_task L)) = ChClosed" "p_subs (heap (tt_tree s) (at_task L)) = []"
    using idle_closed [OF p st idle idle_close_called [OF p st idle called]] by blast+
  with kept show "is_done (tt_tree s) (at_task L)" "is_done (tt_tree s) (at_loop L)"
    by (auto simp: kept_or_done_def is_done_def Done_chan_def chan_ready_def)
qed

lemma tt_rest_returned:
  assumes inv: "tt_inv L s" and rest: "tt_rest L s" and don: "is_done (tt_tree s) (at_loop L)"
  shows "pt_pc (ts_task (tt_sys s)) = P_return"
proof -
  let ?t = "ts_task (tt_sys s)"
  have stuck: "\<not> task_works ?t t" for t using rest by (auto simp: tt_rest_def intro: tt_works)
  have ctx: "chan_ready (pt_ctx ?t)" using inv don by (simp add: tt_inv_def)
  show ?thesis
  proof (cases "pt_pc ?t")
    case P_select
    with stuck [of "?t\<lparr>pt_pc := P_return\<rparr>"] task_done [OF P_select ctx] show ?thesis by (simp add: task_works_def)
  next
    case P_tick
    with stuck [of "(Enqueue ?t)\<lparr>pt_pc := P_select\<rparr>"] task_tick_enqueue [OF P_tick] show ?thesis by (simp add: task_works_def)
  next
    case P_retrieve
    with stuck [of "task_retrieve ?t"] task_retrieved [OF P_retrieve] task_retrieve_pc [of ?t] show ?thesis by (auto simp: task_works_def)
  next
    case P_run
    with stuck [of "?t\<lparr>pt_pc := P_select\<rparr>"] task_ran [OF P_run] show ?thesis by (simp add: task_works_def)
  qed
qed

lemma tt_rest_functions:
  assumes inv: "tt_inv L s" and rest: "tt_rest L s" and ret: "pt_pc (ts_task (tt_sys s)) = P_return"
  shows "G_run c \<notin># frames (tt_tree s)"
proof
  assume g: "G_run c \<in># frames (tt_tree s)"
  have "stacks_ok (tt_tree s)" using proc_stacks.reachable_inv [of False "tt_tree s"] inv by (simp add: tt_inv_def)
  from this g show False
  proof (cases rule: frame_position)
    case (top i rest')
    then have "thread_step False (G_run c) (tt_tree s) (tt_tree s\<lparr>threads := (threads (tt_tree s))[i := [C_enter c] @ rest'] @ []\<rparr>)"
      by (intro thread_stepI [where ch = "Hook None"]) simp_all
    with ret rest show False by (auto simp: tt_rest_def dest: tt_thread)
  qed simp
qed

lemma tt_runs_kept:
  assumes "(tt_run L)\<^sup>*\<^sup>* s t" and "tt_inv L s" and "close_called a (tt_tree s)"
  shows "tt_inv L t \<and> close_called a (tt_tree t) \<and> ts_ticker (tt_sys t) = ts_ticker (tt_sys s)"
  using assms
proof (induction rule: rtranclp_induct)
  case (step u t)
  then have u: "tt_inv L u" "close_called a (tt_tree u)" "ts_ticker (tt_sys u) = ts_ticker (tt_sys s)" by blast+
  have "close_called a (tt_tree t) \<and> ts_ticker (tt_sys t) = ts_ticker (tt_sys s)"
    using step(2)
  proof cases
    case (tt_thread f v)
    have "proc_inv (tt_tree u) (frames (tt_tree u))" using u(1) reachable_proc_inv by (auto simp: tt_inv_def)
    then have "close_called a v" by (rule thread_step_close_called [OF tt_thread(2) _ u(2)])
    then show ?thesis using u(3) by (simp add: tt_thread(1) put_tree_def see_def)
  qed (use u in simp_all)
  with tt_step_inv [OF u(1)] step(2) show ?case by (auto simp: tt_step_def)
qed simp

text \<open>
  C30: When the process of a periodic task (started by its client as \<^verbatim>\<open>&task.Process\<close>, as the task itself is no \<^verbatim>\<open>Context\<close>) is
  closed, its loop ends by itself, wherever it and the
  goroutines of the tree were, once the task function returns: the system comes to a state in which nothing can move, and in every
  such state the task and the process of the loop are done and the loop has returned. The ticker is not touched by this: its
  goroutine has not ended and never will.
\<close>

theorem periodic_task_closes:
  assumes "reachable (tt_init L) (tt_step L) s" and "close_called (at_task L) (tt_tree s)"
  shows "(\<exists>t. (tt_run L)\<^sup>*\<^sup>* s t \<and> tt_rest L t)
    \<and> (\<forall>t. (tt_run L)\<^sup>*\<^sup>* s t \<and> tt_rest L t \<longrightarrow>
          is_done (tt_tree t) (at_task L) \<and> is_done (tt_tree t) (at_loop L)
          \<and> pt_pc (ts_task (tt_sys t)) = P_return \<and> (\<forall>c. G_run c \<notin># frames (tt_tree t))
          \<and> ts_ticker (tt_sys t) = ts_ticker (tt_sys s) \<and> T_out \<notin> set (tk_threads (ts_ticker (tt_sys t))))"
proof -
  have "is_done (tt_tree t) (at_task L) \<and> is_done (tt_tree t) (at_loop L)
      \<and> pt_pc (ts_task (tt_sys t)) = P_return \<and> (\<forall>c. G_run c \<notin># frames (tt_tree t))
      \<and> ts_ticker (tt_sys t) = ts_ticker (tt_sys s) \<and> T_out \<notin> set (tk_threads (ts_ticker (tt_sys t)))"
    if t: "(tt_run L)\<^sup>*\<^sup>* s t" and rest: "tt_rest L t" for t
  proof -
    have inv: "tt_inv L t" and called: "close_called (at_task L) (tt_tree t)" and tk: "ts_ticker (tt_sys t) = ts_ticker (tt_sys s)"
      using tt_runs_kept [OF t tree_task_sys.reachable_inv [OF assms(1)] assms(2)] by blast+
    note don = tt_rest_done [OF inv rest called]
    note ret = tt_rest_returned [OF inv rest don(2)]
    have "task_sys_inv (tt_sys t)" using inv task_ticker.reachable_inv by (simp add: tt_inv_def)
    then have "T_out \<notin> set (tk_threads (ts_ticker (tt_sys t)))" by (simp add: task_sys_inv_def ticker_inv_def)
    with don ret tk tt_rest_functions [OF inv rest ret] show ?thesis by blast
  qed
  with tt_run_rests [of L s] show ?thesis by blast
qed

text \<open>A task at 0 with its loop at 1; the task runs for a request when \<^verbatim>\<open>Close\<close> is called.\<close>

definition task_layout0 :: task_layout where
  "task_layout0 = \<lparr>at_task = 0, at_loop = 1\<rparr>"

definition task_tree0 :: "nat sys" where
  "task_tree0 = the (start_periodic_task task_layout0 ''t'')"

definition noticed0 :: task where
  "noticed0 = (let t = Enqueue NewPeriodicTask in t\<lparr>pt_mailbox := (pt_mailbox t)\<lparr>mb_notify := False\<rparr>, pt_pc := P_retrieve\<rparr>)"

definition running0 :: tree_task where
  "running0 = \<lparr>tt_tree = spawn (C_enter 0) task_tree0, tt_sys = (start_task 100 500)\<lparr>ts_task := task_retrieve noticed0\<rparr>\<rparr>"

lemma running0_reachable: "reachable (tt_init task_layout0) (tt_step task_layout0) running0"
proof -
  let ?L = task_layout0
  let ?s = "\<lparr>tt_tree = task_tree0, tt_sys = start_task 100 500\<rparr>"
  let ?u = "\<lambda>t. \<lparr>tt_tree = task_tree0, tt_sys = (start_task 100 500)\<lparr>ts_task := t\<rparr>\<rparr>"
  have "\<not> Option.is_none (start_periodic_task ?L ''t'')" by code_simp
  then have start: "start_periodic_task ?L ''t'' = Some task_tree0" by (auto simp: Option.is_none_def task_tree0_def)
  have open1: "\<not> is_done task_tree0 1" "\<not> is_done (spawn (C_enter 0) task_tree0) 1" by code_simp+
  then have see: "see ?L task_tree0 u = u" "see ?L (spawn (C_enter 0) task_tree0) u = u" if "pt_ctx (ts_task u) = ChOpen" for u
    using that by (simp_all add: see_def task_layout0_def)
  have ctx: "pt_ctx NewPeriodicTask = ChOpen" "pt_ctx (Enqueue NewPeriodicTask) = ChOpen" "pt_ctx noticed0 = ChOpen"
    "pt_ctx (task_retrieve noticed0) = ChOpen" by code_simp+
  have "see ?L task_tree0 (start_task 100 500) = start_task 100 500" using see(1) ctx(1) by (simp add: start_task_def)
  then have "tt_init ?L ?s" using start unfolding tt_init_def by (metis tree_task.select_convs(1,2))
  then have r0: "reachable (tt_init ?L) (tt_step ?L) (?u NewPeriodicTask)" by (auto simp: start_task_def intro: reachable_init)
  have move: "tt_step ?L (?u t) (?u t')" if "task_step t t'" "\<not> takes_tick t t'" "pt_ctx t' = pt_ctx t" for t t'
    using tt_task_sys [of "?u t" "(start_task 100 500)\<lparr>ts_task := t'\<rparr>" ?L] ts_task_only [of "(start_task 100 500)\<lparr>ts_task := t\<rparr>" t'] that
    by (simp add: tt_step_def)
  have free: "\<not> takes_tick NewPeriodicTask (Enqueue NewPeriodicTask)" "\<not> takes_tick (Enqueue NewPeriodicTask) noticed0"
    "\<not> takes_tick noticed0 (task_retrieve noticed0)"
    using task_retrieve_pc [of noticed0] by (auto simp: takes_tick_def noticed0_def Enqueue_def Let_def NewPeriodicTask_def)
  have "tt_step ?L (?u NewPeriodicTask) (?u (Enqueue NewPeriodicTask))"
    by (rule move [OF task_Enqueue]) (simp_all add: ctx free)
  with r0 have r1: "reachable (tt_init ?L) (tt_step ?L) (?u (Enqueue NewPeriodicTask))" by (rule reachable_step)
  have "task_step (Enqueue NewPeriodicTask) noticed0"
    unfolding noticed0_def Let_def by (rule task_notified) code_simp+
  then have "tt_step ?L (?u (Enqueue NewPeriodicTask)) (?u noticed0)" by (rule move) (simp_all add: ctx free)
  with r1 have r2: "reachable (tt_init ?L) (tt_step ?L) (?u noticed0)" by (rule reachable_step)
  have "task_step noticed0 (task_retrieve noticed0)" by (rule task_retrieved) code_simp
  then have "tt_step ?L (?u noticed0) (?u (task_retrieve noticed0))" by (rule move) (simp_all add: ctx free)
  with r2 have r3: "reachable (tt_init ?L) (tt_step ?L) (?u (task_retrieve noticed0))" by (rule reachable_step)
  have "started 0 task_tree0" unfolding started_def by code_simp
  then have "client_step task_tree0 (spawn (C_enter 0) task_tree0)" unfolding spawn_def by (rule client_close)
  then have "tt_step ?L (?u (task_retrieve noticed0)) (put_tree ?L (spawn (C_enter 0) task_tree0) (?u (task_retrieve noticed0)))"
    unfolding tt_step_def by (intro disjI2 tt_client) simp
  with r3 have "reachable (tt_init ?L) (tt_step ?L) (put_tree ?L (spawn (C_enter 0) task_tree0) (?u (task_retrieve noticed0)))"
    by (rule reachable_step)
  moreover have "put_tree ?L (spawn (C_enter 0) task_tree0) (?u (task_retrieve noticed0)) = running0"
    using see(2) ctx(4) by (simp add: put_tree_def running0_def)
  ultimately show ?thesis by simp
qed

theorem periodic_task_closes_witness:
  "pt_pc (ts_task (tt_sys running0)) = P_run
   \<and> (\<exists>t. (tt_run task_layout0)\<^sup>*\<^sup>* running0 t \<and> is_done (tt_tree t) 0 \<and> is_done (tt_tree t) 1
        \<and> pt_pc (ts_task (tt_sys t)) = P_return \<and> tk_threads (ts_ticker (tt_sys t)) = [T_begin])"
proof
  show "pt_pc (ts_task (tt_sys running0)) = P_run" by code_simp
  have "tk_threads (ts_ticker (tt_sys running0)) = [T_begin]" by code_simp
  moreover have "close_called (at_task task_layout0) (tt_tree running0)"
    by (simp add: close_called_def task_layout0_def running0_def spawn_def frames_spawn)
  ultimately show "\<exists>t. (tt_run task_layout0)\<^sup>*\<^sup>* running0 t \<and> is_done (tt_tree t) 0 \<and> is_done (tt_tree t) 1
        \<and> pt_pc (ts_task (tt_sys t)) = P_return \<and> tk_threads (ts_ticker (tt_sys t)) = [T_begin]"
    using periodic_task_closes [OF running0_reachable] by (auto simp: task_layout0_def)
qed

end
