(* ===== verification/Spec2Isabelle.thy ===== *)
theory Spec2Isabelle
  imports Cedar_Prelude Cedar_Mailbox Cedar_Log Cedar_Process_Props Cedar_Pool_Props Cedar_BufMap Cedar_Encoding
    Cedar_Base32 Cedar_Bufs Cedar_Channels Cedar_Time Cedar_Ticker Cedar_Periodic Cedar_Values Cedar_Dirs Cedar_HTTP
    Cedar_Scheduler Cedar_Pool_Close Cedar_Task_Ticker Cedar_Certs Cedar_Text Cedar_Float Cedar_FileSize
    Cedar_Hash Cedar_Testutils Cedar_Pool_Tree Cedar_Print Cedar_Task_Tree
begin

text \<open>
  \<^bold>\<open>go-cedar\<close>: a verification library for the Go module under \<^verbatim>\<open>src/\<close>.

  The module is a toolbox for services: a tree of \<^emph>\<open>processes\<close> (contexts that are started, have children and
  are closed from the root down), a \<^emph>\<open>work pool\<close> with retries on top of it, \<^emph>\<open>periodic tasks\<close>, and helpers they
  share: a mailbox, tickers, channels, buffers and their text encodings, logging, files, requests.

  \<^bold>\<open>How the code is modelled.\<close>
  Sequential code is translated function by function; a panic is \<open>None\<close> or a constructor of the result, an \<^verbatim>\<open>error\<close>
  is a value, a machine integer that can wrap is a word. Code that runs in goroutines is a step relation on a
  record of the shared state with a program counter per goroutine or per call; one step is what the code does
  under one lock, or one channel operation. Unbuffered channel operations are one step of both sides. Channels
  that are only closed have three states (\<open>chan\<close>: nil, open, closed). A \<^verbatim>\<open>select\<close> with several ready cases may take any of
  them. The clock, and the iteration order of maps, are arbitrary.

  \<^bold>\<open>Theories.\<close>

  \<^item> \<open>Cedar_Prelude\<close>: Go values, reachable states, the interface \<open>invariant_system\<close> of every machine below (interpreted
    for the process tree, the pool, the wait group, the combined context, the tickers, the periodic task).
  \<^item> \<open>Cedar_Process\<close> (\<^verbatim>\<open>process/process.go\<close>, \<^verbatim>\<open>process/api.process.go\<close>): the record \<open>process\<close> on a heap of contexts; \<open>exec\<close> runs one
    statement of \<^verbatim>\<open>StartChild\<close>, \<^verbatim>\<open>Go\<close>, \<^verbatim>\<open>Close\<close>, \<^verbatim>\<open>Autoclose\<close> or of the goroutines they start. \<open>Cedar_Process_Inv\<close> has its invariant,
    \<open>Cedar_Process_Live\<close> the measure and the progress argument for closing, \<open>Cedar_Process_Runs\<close> an executor for concrete runs,
    \<open>Cedar_Process_Props\<close> the properties: no panic, closing completes and waits for the children, callbacks once and
    in order and none after \<^verbatim>\<open>Done\<close>, what becomes of a refused child, and the race of \<^verbatim>\<open>StartChild\<close> with \<^verbatim>\<open>Close\<close>.
  \<^item> \<open>Cedar_Pool\<close> (\<^verbatim>\<open>process/pool.go\<close>, \<^verbatim>\<open>process/pool_worker.go\<close>): pool, deliverer, retry handler, workers; \<open>Cedar_Pool_Inv\<close> says where each
    available item is, \<open>Cedar_Pool_Runs\<close> executes runs, \<open>Cedar_Pool_Props\<close> has the properties (no panic but that of \<^verbatim>\<open>time.NewTicker\<close> for a retry
    interval that is not positive, no item worked twice
    at once, none forgotten while the mailbox has room, coming to rest, and the loss beyond 1000 items).
    \<open>Cedar_Scheduler\<close> adds the static scheduler and how long an item waits for its retry, \<open>Cedar_Pool_Close\<close> how a pool stops.
    \<open>Cedar_Pool_Tree\<close> composes a pool worker with the process tree: the contexts that the goroutines of the pool look at are the
    \<^verbatim>\<open>Done()\<close> channels of processes, and a function under \<^verbatim>\<open>Go\<close> ends when its goroutine returns. A closed worker comes to a full
    stop, every run of it ends without clients and clock, but its \<^verbatim>\<open>Done()\<close> does not wait for the items being worked on.
  \<^item> \<open>Cedar_Mailbox\<close> (\<^verbatim>\<open>utils/mailbox.go\<close>): the mailbox refines a bounded FIFO; its interface \<open>fifo_mailbox\<close> is what pool and
    periodic task rely on.
  \<^item> \<open>Cedar_Time\<close>, \<open>Cedar_Ticker\<close> (\<^verbatim>\<open>utils/time.go\<close>): the backoff at 64 bits with its closed form, and the machine of the backoff
    ticker. \<open>Cedar_Periodic\<close> (\<^verbatim>\<open>process/periodic_task.go\<close>): the task loop over the mailbox. \<open>Cedar_Task_Ticker\<close> composes the two,
    and \<open>Cedar_Task_Tree\<close> puts them into the process tree: a closed task ends, but its ticker does not.
  \<^item> \<open>Cedar_Channels\<close> (\<^verbatim>\<open>utils/channels.go\<close>): the wait group with a channel, \<^verbatim>\<open>CombinedContext\<close>, contexts from channels.
  \<^item> \<open>Cedar_BufMap\<close> (\<^verbatim>\<open>bufs/map.go\<close>): open addressing refines a map, for any hash function; interface \<open>keyed_store\<close>.
  \<^item> \<open>Cedar_Encoding\<close>, \<open>Cedar_Base32\<close>, \<open>Cedar_Bufs\<close> (\<^verbatim>\<open>bufs/encoding.go\<close>, \<^verbatim>\<open>bufs/hash.go\<close>): hexadecimal and base 32 text, what the code uses of
    \<^verbatim>\<open>encoding/hex\<close> and \<^verbatim>\<open>encoding/base32\<close> (interface \<open>text_codec\<close>), encoding in place in a scrap buffer, the rolling hash.
    \<open>Cedar_Hash\<close> (\<^verbatim>\<open>bufs/hash.go\<close>): the hashes of the runtime on the headers of slices and strings.
  \<^item> \<open>Cedar_Log\<close> (\<^verbatim>\<open>log/logger.go\<close>, \<^verbatim>\<open>log/fields.go\<close>): prefixes of log lines, fields, the interrupt watcher.
  \<^item> \<open>Cedar_Values\<close> (\<^verbatim>\<open>utils/misc.go\<close>, \<^verbatim>\<open>utils/strings.go\<close>, \<^verbatim>\<open>utils/state_uri.go\<close>, \<^verbatim>\<open>errors/errors.go\<close>): key paths, strings, state URIs, errors.
  \<^item> \<open>Cedar_Paths\<close>, \<open>Cedar_FS\<close>, \<open>Cedar_Files\<close>, \<open>Cedar_Dirs\<close> (\<^verbatim>\<open>utils/files.go\<close>): path names, a file system with modes, a umask and arbitrary
    faults, the operations on files and directories and what they promise about permissions whatever fails.
  \<^item> \<open>Cedar_Text\<close>, \<open>Cedar_Float\<close>, \<open>Cedar_FileSize\<close> (\<^verbatim>\<open>utils/files.go\<close>): decimal text and lower case, the nonnegative \<^verbatim>\<open>float64\<close> numbers
    with correct rounding, and file sizes: what is printed, which texts are read, and how near the size read back is.
  \<^item> \<open>Cedar_HTTP\<close> (\<^verbatim>\<open>utils/http.go\<close>): struct tags, requests, content types, the client's options and goroutine.
  \<^item> \<open>Cedar_Certs\<close> (\<^verbatim>\<open>utils/certs.go\<close>): keys, device ids, the certificate request.
  \<^item> \<open>Cedar_Testutils\<close> (\<^verbatim>\<open>testutils/expectations.go\<close>, \<^verbatim>\<open>testutils/logging.go\<close>): the waits of the tests, and their logging.

  \<^bold>\<open>Bounds and fuel.\<close>
  \<^verbatim>\<open>ExportContextTree\<close> recurses over a number of levels; as many as contexts were ever started are enough. The probing
  loop of the buffer map ends because it goes through \<^verbatim>\<open>2^64\<close> slots. The loop of \<^verbatim>\<open>CreateTemp\<close> has no
  bound: it is a partial function whose value \<open>None\<close> says that it never ends, and \<open>temp_loop_endless\<close> says exactly when. All other loops
  are structural or have a measure. Lengths of slices and strings are below \<^verbatim>\<open>2^63\<close>.

  In the compositions with the process tree the start of a pool worker or a periodic task succeeds and is not interleaved with
  anything else; after it every interleaving is possible. A \<^verbatim>\<open>*PeriodicTask\<close> is no \<^verbatim>\<open>Context\<close> (its \<^verbatim>\<open>Close\<close> has another type), so its client
  starts the embedded process and calls the task's \<^verbatim>\<open>OnContextStarted\<close> itself.

  \<^bold>\<open>Parameters.\<close>
  The weighted semaphore of \<^verbatim>\<open>golang.org/x/sync\<close> (\<open>semaphore\<close> states its documented behaviour, \<open>capped\<close> is an instance), the wrappers of
  \<^verbatim>\<open>github.com/pkg/errors\<close>, the handler of \<^verbatim>\<open>github.com/rs/cors\<close>, key generation and signing, the JSON encoder, the runtime's
  \<^verbatim>\<open>memhash\<close> (\<open>hashes_bytes\<close> states what it promises), the conversion of a \<^verbatim>\<open>float64\<close> beyond \<^verbatim>\<open>uint64\<close>, which Go leaves open, and the
  functions that callers pass in (work of an item, hash functions, unmarshalers).

  \<^bold>\<open>Not modelled.\<close>
  What the transport of the HTTP client does with its TLS options, \<^verbatim>\<open>testutils/factories.go\<close> and the other commented-out code, the
  tests, and what the code only declares (interfaces, the functions of other packages under its own names). Of the environment:
  a \<^verbatim>\<open>make\<close> that cannot allocate, symbolic links and other processes that
  change the file system between two calls, misuse of a \<^verbatim>\<open>sync.WaitGroup\<close> that Go itself reports (an \<^verbatim>\<open>Add\<close> at zero that races
  with a \<^verbatim>\<open>Wait\<close>), data races on the backoff of a ticker that is started twice. The \<^verbatim>\<open>Work\<close> of an item and the function of a
  periodic task are taken to return and not to panic. What a process does when the interrupt watcher signals is up to its caller.
\<close>

end
